(* ===== verification/Prelude.thy ===== *)
theory Prelude
  imports Main "HOL-Library.Word"
begin

text \<open>
  Shared vocabulary of the development: the machine integer types of the Rust sources, the
  panics a Rust program can raise, arithmetic with and without overflow checks, indexing of a
  \<^verbatim>\<open>Vec\<close>, and the generic lemmas on words and lists that the component theories use.

  A Rust function that may panic is a function into \<open>panic + 'a\<close>. The flag \<open>ck\<close> of the
  arithmetic operations is the profile's \<^verbatim>\<open>overflow-checks\<close> setting: the development profile
  (which \<^verbatim>\<open>cargo test\<close> uses) panics on overflow, the release profile wraps around.
\<close>

unbundle bit_operations_syntax

section \<open>Machine integers\<close>

type_synonym u8 = "8 word"
type_synonym u16 = "16 word"
type_synonym u32 = "32 word"
type_synonym u64 = "64 word"
type_synonym i32 = "32 word"
type_synonym usize = "64 word"
type_synonym isize = "64 word"

text \<open>Collections used by the proofs: facts on words, and on panicking computations; the unit tests of
  the program are collected in \<open>tests\<close>.\<close>

named_theorems word_facts
named_theorems res_simps
named_theorems tests

section \<open>Panics and results\<close>

text \<open>\<open>InvalidAccess\<close> is not a panic: it stands for the undefined behaviour of a read or write through
  a raw pointer to memory that is not there; \<open>NoReturn\<close> is the result of a call that never returns.\<close>

datatype panic =
    Overflow
  | IndexOutOfBounds
  | UnwrapNone
  | AssertFailed
  | DivByZero
  | ThreadPanicked
  | ExplicitPanic
  | InvalidAccess
  | NoReturn

type_synonym 'a res = "panic + 'a"

definition bind_res :: "'a res \<Rightarrow> ('a \<Rightarrow> 'b res) \<Rightarrow> 'b res" where
  "bind_res m f = (case m of Inl e \<Rightarrow> Inl e | Inr x \<Rightarrow> f x)"

lemma bind_res_simps [simp]:
  "bind_res (Inl e) f = Inl e"
  "bind_res (Inr x) f = f x"
  by (simp_all add: bind_res_def)

lemma bind_res_Inr_iff:
  "bind_res m f = Inr y \<longleftrightarrow> (\<exists>x. m = Inr x \<and> f x = Inr y)"
  by (cases m) simp_all

lemma bind_res_Inr_E:
  assumes "bind_res m f = Inr y"
  obtains x where "m = Inr x" and "f x = Inr y"
  using assms by (auto simp: bind_res_Inr_iff)

lemma bind_res_cong [fundef_cong]:
  "m = m' \<Longrightarrow> (\<And>x. m' = Inr x \<Longrightarrow> f x = g x) \<Longrightarrow> bind_res m f = bind_res m' g"
  by (cases m') simp_all

text \<open>The computation does not panic, and its result satisfies \<open>Q\<close>.\<close>

definition yields :: "'a res \<Rightarrow> ('a \<Rightarrow> bool) \<Rightarrow> bool" where
  "yields m Q = (case m of Inl _ \<Rightarrow> False | Inr x \<Rightarrow> Q x)"

lemma yields_simps [simp]: "yields (Inl e) Q = False" "yields (Inr x) Q = Q x"
  by (simp_all add: yields_def)

lemma yields_iff: "yields m Q \<longleftrightarrow> (\<exists>x. m = Inr x \<and> Q x)"
  by (cases m) simp_all

lemma yields_bind: "yields (bind_res m f) Q \<longleftrightarrow> yields m (\<lambda>x. yields (f x) Q)"
  by (cases m) simp_all

lemma yields_mono: "yields m Q \<Longrightarrow> (\<And>x. m = Inr x \<Longrightarrow> Q x \<Longrightarrow> R x) \<Longrightarrow> yields m R"
  by (cases m) simp_all

definition unwrap :: "'a option \<Rightarrow> 'a res" where
  "unwrap x = (case x of None \<Rightarrow> Inl UnwrapNone | Some y \<Rightarrow> Inr y)"

lemma unwrap_simps [simp]: "unwrap None = Inl UnwrapNone" "unwrap (Some x) = Inr x"
  by (simp_all add: unwrap_def)

section \<open>Arithmetic under an overflow-check setting\<close>

definition add_ck :: "bool \<Rightarrow> 'a::len word \<Rightarrow> 'a word \<Rightarrow> 'a word res" where
  "add_ck ck a b =
     (if ck \<and> 2 ^ LENGTH('a) \<le> unat a + unat b then Inl Overflow else Inr (a + b))"

definition sub_ck :: "bool \<Rightarrow> 'a::len word \<Rightarrow> 'a word \<Rightarrow> 'a word res" where
  "sub_ck ck a b = (if ck \<and> a < b then Inl Overflow else Inr (a - b))"

definition mul_ck :: "bool \<Rightarrow> 'a::len word \<Rightarrow> 'a word \<Rightarrow> 'a word res" where
  "mul_ck ck a b =
     (if ck \<and> 2 ^ LENGTH('a) \<le> unat a * unat b then Inl Overflow else Inr (a * b))"

text \<open>The standard library's \<^verbatim>\<open>checked_add\<close>, which is the same in every profile.\<close>

definition checked_add :: "'a::len word \<Rightarrow> 'a word \<Rightarrow> 'a word option" where
  "checked_add a b = (if 2 ^ LENGTH('a) \<le> unat a + unat b then None else Some (a + b))"

lemma add_ck_release [simp, res_simps]: "add_ck False a b = Inr (a + b)"
  by (simp add: add_ck_def)

lemma sub_ck_release [simp, res_simps]: "sub_ck False a b = Inr (a - b)"
  by (simp add: sub_ck_def)

lemma mul_ck_release [simp, res_simps]: "mul_ck False a b = Inr (a * b)"
  by (simp add: mul_ck_def)

lemma add_ck_in_range [res_simps]:
  "unat (a::'a::len word) + unat b < 2 ^ LENGTH('a) \<Longrightarrow> add_ck ck a b = Inr (a + b)"
  by (simp add: add_ck_def)

lemma unat_add_in_range [word_facts]:
  "unat (a::'a::len word) + unat b < 2 ^ LENGTH('a) \<Longrightarrow> unat (a + b) = unat a + unat b"
  by (simp add: unat_word_ariths)

lemma checked_add_Some [word_facts]:
  "checked_add a b = Some c \<Longrightarrow> unat c = unat a + unat b \<and> c = a + b"
  by (auto simp: checked_add_def unat_word_ariths split: if_splits)

lemma checked_add_in_range [word_facts]:
  "unat (a::'a::len word) + unat b < 2 ^ LENGTH('a) \<Longrightarrow> checked_add a b = Some (a + b)"
  by (simp add: checked_add_def)

section \<open>Vec indexing\<close>

text \<open>\<^verbatim>\<open>v[i]\<close> and \<^verbatim>\<open>v[i] = x\<close> panic when the index is out of bounds.\<close>

definition vec_get :: "'a list \<Rightarrow> nat \<Rightarrow> 'a res" where
  "vec_get xs i = (if i < length xs then Inr (xs ! i) else Inl IndexOutOfBounds)"

definition vec_set :: "'a list \<Rightarrow> nat \<Rightarrow> 'a \<Rightarrow> 'a list res" where
  "vec_set xs i x = (if i < length xs then Inr (xs[i := x]) else Inl IndexOutOfBounds)"

lemma vec_get_ok [simp, res_simps]: "i < length xs \<Longrightarrow> vec_get xs i = Inr (xs ! i)"
  by (simp add: vec_get_def)

lemma vec_get_bad [simp, res_simps]: "length xs \<le> i \<Longrightarrow> vec_get xs i = Inl IndexOutOfBounds"
  by (simp add: vec_get_def)

lemma vec_set_ok [simp, res_simps]: "i < length xs \<Longrightarrow> vec_set xs i x = Inr (xs[i := x])"
  by (simp add: vec_set_def)

lemma vec_set_bad [simp, res_simps]: "length xs \<le> i \<Longrightarrow> vec_set xs i x = Inl IndexOutOfBounds"
  by (simp add: vec_set_def)

section \<open>Lists\<close>

lemma find_Some_index:
  "List.find P xs = Some x \<longleftrightarrow>
     (\<exists>i < length xs. P (xs ! i) \<and> x = xs ! i \<and> (\<forall>j < i. \<not> P (xs ! j)))"
  by (auto simp: find_Some_iff)

lemma find_None_index: "List.find P xs = None \<longleftrightarrow> (\<forall>i < length xs. \<not> P (xs ! i))"
  by (auto simp: find_None_iff in_set_conv_nth)

text \<open>When at most one element satisfies the predicate, the search finds it wherever it is.\<close>

lemma find_unique:
  assumes "i < length xs" "P (xs ! i)"
    and "\<And>j. j < length xs \<Longrightarrow> P (xs ! j) \<Longrightarrow> j = i"
  shows "List.find P xs = Some (xs ! i)"
  unfolding find_Some_index using assms less_trans by (metis nat_neq_iff)

section \<open>Words\<close>

lemma mask_lits [word_facts]:
  "(0xFF :: 'a::len word) = mask 8"
  "(0x1FF :: 'a::len word) = mask 9"
  "(0xFFF :: 'a::len word) = mask 12"
  by (simp_all add: mask_eq_exp_minus_1)

lemma and_flag_eq_0 [word_facts]:
  "(w :: 'a::len word) AND push_bit n 1 = 0 \<longleftrightarrow> \<not> bit w n"
  by (simp add: push_bit_eq_mult and_exp_eq_0_iff_not_bit)

lemma and_or_eq_0: "(w :: 'a::len word) AND (a OR b) = 0 \<longleftrightarrow> w AND a = 0 \<and> w AND b = 0"
  by (auto simp: bit_eq_iff bit_simps)

lemma unat_and_mask [word_facts]: "unat ((w :: 'a::len word) AND mask n) = unat w mod 2 ^ n"
  by (simp only: take_bit_eq_mask [symmetric] unsigned_take_bit_eq) (simp only: take_bit_eq_mod)

lemma unat_drop_bit_div [word_facts]: "unat (drop_bit n (w :: 'a::len word)) = unat w div 2 ^ n"
  by (simp only: unat_drop_bit_eq) (simp only: drop_bit_eq_div)

lemma and_not_mask_unat: "unat ((w::'a::len word) AND NOT (mask k)) = unat w div 2 ^ k * 2 ^ k"
proof -
  have eq: "w AND NOT (mask k) = push_bit k (drop_bit k w)"
    by (rule bit_word_eqI) (auto simp: bit_simps)
  moreover have "unat w div 2 ^ k * 2 ^ k < 2 ^ LENGTH('a)"
    using div_times_less_eq_dividend [of "unat w" "2 ^ k"] unsigned_less [of w, where 'a = nat]
    by (rule le_less_trans)
  ultimately show ?thesis
    by (simp only: eq unsigned_push_bit_eq unat_drop_bit_div push_bit_nat_def take_bit_nat_eq_self)
qed

lemma push_or_low_add [word_facts]:
  "push_bit n p OR ((w :: 'a::len word) AND mask n) = push_bit n p + (w AND mask n)"
  by (rule disjunctive_add_eq_or [symmetric]) (auto simp: bit_eq_iff bit_simps)

end
