(* ===== verification/PteFlags.thy ===== *)
theory PteFlags
  imports Prelude
begin

text \<open>
  \<^verbatim>\<open>exercises/06_page_table/01_pte_flags/src/lib.rs\<close>: the bit layout of an SV39 page table entry.
\<close>

definition PTE_V :: u64 where "PTE_V = push_bit 0 1"
definition PTE_R :: u64 where "PTE_R = push_bit 1 1"
definition PTE_W :: u64 where "PTE_W = push_bit 2 1"
definition PTE_X :: u64 where "PTE_X = push_bit 3 1"
definition PTE_U :: u64 where "PTE_U = push_bit 4 1"
definition PTE_G :: u64 where "PTE_G = push_bit 5 1"
definition PTE_A :: u64 where "PTE_A = push_bit 6 1"
definition PTE_D :: u64 where "PTE_D = push_bit 7 1"

definition PPN_SHIFT :: nat where "PPN_SHIFT = 10"
definition PPN_MASK :: u64 where "PPN_MASK = push_bit 44 1 - 1"

definition make_pte :: "u64 \<Rightarrow> u64 \<Rightarrow> u64" where
  "make_pte ppn flags = (push_bit PPN_SHIFT (ppn AND PPN_MASK)) OR (flags AND 0xFF)"

definition extract_ppn :: "u64 \<Rightarrow> u64" where
  "extract_ppn pte = (drop_bit PPN_SHIFT pte) AND PPN_MASK"

definition extract_flags :: "u64 \<Rightarrow> u64" where
  "extract_flags pte = pte AND 0xFF"

definition is_valid :: "u64 \<Rightarrow> bool" where
  "is_valid pte \<longleftrightarrow> (pte AND PTE_V) \<noteq> 0"

definition is_leaf :: "u64 \<Rightarrow> bool" where
  "is_leaf pte \<longleftrightarrow> (pte AND (PTE_R OR PTE_W OR PTE_X)) \<noteq> 0"

definition check_permission :: "u64 \<Rightarrow> bool \<Rightarrow> bool \<Rightarrow> bool \<Rightarrow> bool" where
  "check_permission pte read write execute =
     (if \<not> is_valid pte then False
      else if read \<and> (pte AND PTE_R) = 0 then False
      else if write \<and> (pte AND PTE_W) = 0 then False
      else if execute \<and> (pte AND PTE_X) = 0 then False
      else True)"

lemmas PTE_bits = PTE_V_def PTE_R_def PTE_W_def PTE_X_def PTE_U_def PTE_G_def PTE_A_def PTE_D_def

lemma PPN_MASK_mask: "PPN_MASK = mask 44"
  by (simp add: PPN_MASK_def mask_eq_exp_minus_1)

lemma bit_PPN_MASK [bit_simps]: "bit PPN_MASK n \<longleftrightarrow> n < 44"
  by (auto simp: PPN_MASK_mask bit_simps)

lemma bit_make_pte [bit_simps]:
  "bit (make_pte ppn flags) n \<longleftrightarrow>
     (if n < 8 then bit flags n else 10 \<le> n \<and> n < 54 \<and> bit ppn (n - 10))"
  by (auto simp: make_pte_def PPN_SHIFT_def mask_lits bit_simps)

lemma and_pte_bits [word_facts]:
  "w AND PTE_V = 0 \<longleftrightarrow> \<not> bit w 0"
  "w AND PTE_R = 0 \<longleftrightarrow> \<not> bit w 1"
  "w AND PTE_W = 0 \<longleftrightarrow> \<not> bit w 2"
  "w AND PTE_X = 0 \<longleftrightarrow> \<not> bit w 3"
  unfolding PTE_V_def PTE_R_def PTE_W_def PTE_X_def by (rule and_flag_eq_0)+

lemma is_valid_bit: "is_valid pte \<longleftrightarrow> bit pte 0"
  by (simp add: is_valid_def and_pte_bits)

lemma is_leaf_bit: "is_leaf pte \<longleftrightarrow> bit pte 1 \<or> bit pte 2 \<or> bit pte 3"
proof -
  have "pte AND (PTE_R OR PTE_W OR PTE_X) = 0 \<longleftrightarrow>
      pte AND PTE_R = 0 \<and> pte AND PTE_W = 0 \<and> pte AND PTE_X = 0"
    by (auto simp: bit_eq_iff bit_simps)
  then show ?thesis
    by (auto simp: is_leaf_def and_pte_bits)
qed

text \<open>Taking an entry apart and rebuilding it keeps exactly the architected bits: the RSW
  bits 8 and 9 and the reserved bits 54 to 63 are dropped.\<close>

theorem make_pte_rebuild:
  "make_pte (extract_ppn pte) (extract_flags pte) =
     pte AND mask 54 AND NOT (push_bit 8 (mask 2))"
  by (rule bit_word_eqI)
    (auto simp: extract_ppn_def extract_flags_def PPN_SHIFT_def mask_lits bit_simps)

text \<open>The bits a request needs: the valid bit, and one bit for each kind of access asked for.\<close>

definition required_bits :: "bool \<Rightarrow> bool \<Rightarrow> bool \<Rightarrow> nat list" where
  "required_bits r w x =
     0 # (if r then [1] else []) @ (if w then [2] else []) @ (if x then [3] else [])"

lemma check_permission_bits:
  "check_permission pte r w x = list_all (bit pte) (required_bits r w x)"
  by (simp add: check_permission_def required_bits_def is_valid_bit and_pte_bits)

text \<open>C40: Constructing an entry and taking it apart: the page number comes back, cut to its 44 bits, and the
  flags, cut to their eight; and the predicates on the entry read exactly the flags given, whatever the
  page number: it is valid when the valid flag was given, a leaf when one of the three permission flags
  was, and a request is granted when the valid flag and every requested permission flag were.\<close>

theorem make_pte_roundtrip:
  "extract_ppn (make_pte ppn flags) = ppn AND PPN_MASK \<and>
   extract_flags (make_pte ppn flags) = flags AND 0xFF \<and>
   is_valid (make_pte ppn flags) = bit flags 0 \<and>
   is_leaf (make_pte ppn flags) = (bit flags 1 \<or> bit flags 2 \<or> bit flags 3) \<and>
   check_permission (make_pte ppn flags) r w x = list_all (bit flags) (required_bits r w x)"
proof (intro conjI)
  show "extract_ppn (make_pte ppn flags) = ppn AND PPN_MASK"
    by (auto simp: extract_ppn_def PPN_SHIFT_def mask_lits bit_simps intro!: bit_word_eqI)
  show "extract_flags (make_pte ppn flags) = flags AND 0xFF"
    by (auto simp: extract_flags_def mask_lits bit_simps intro!: bit_word_eqI)
qed (auto simp: check_permission_bits required_bits_def is_valid_bit is_leaf_bit bit_make_pte)

text \<open>The permission check on a constructed entry grants a request exactly when the valid flag
  and every requested permission flag were given to the constructor, whatever the PPN.\<close>

theorem check_permission_make_pte:
  "check_permission (make_pte ppn flags) r w x = list_all (bit flags) (required_bits r w x) \<and>
   is_leaf (make_pte ppn flags) = (\<exists>n \<in> {1, 2, 3}. bit flags n)"
  by (auto simp: check_permission_bits required_bits_def is_leaf_bit bit_make_pte)

end
