(* ===== verification/AddressSpace.thy ===== *)
theory AddressSpace
  imports Prelude
begin

text \<open>
  The contract the two page tables of module 6 share: mapping a page makes every address of that
  page resolve through the new entry and leaves the translation of every other page alone.
  The clients of the contract are sequences of mappings: the last mapping of a page wins.
\<close>

text \<open>A sequence of \<^verbatim>\<open>map\<close> calls; the first panic ends it.\<close>

fun map_seq :: "('t \<Rightarrow> 'va \<Rightarrow> 'e \<Rightarrow> 't res) \<Rightarrow> 't \<Rightarrow> ('va \<times> 'e) list \<Rightarrow> 't res" where
  "map_seq map_at t [] = Inr t"
| "map_seq map_at t ((v, e) # xs) = bind_res (map_at t v e) (\<lambda>t'. map_seq map_at t' xs)"

text \<open>The abstract address space after the sequence: the latest mapping of the address's page
  decides, and the base translation where there is none.\<close>

definition latest ::
  "('va \<Rightarrow> 'k) \<Rightarrow> ('e \<Rightarrow> 'va \<Rightarrow> 'r) \<Rightarrow> ('va \<Rightarrow> 'r) \<Rightarrow> ('va \<times> 'e) list \<Rightarrow> 'va \<Rightarrow> 'r" where
  "latest page resolve base xs w =
     (case List.find (\<lambda>(v, e). page v = page w) (rev xs) of
        None \<Rightarrow> base w | Some (v, e) \<Rightarrow> resolve e w)"

lemma find_append:
  "List.find P (xs @ ys) = (case List.find P xs of None \<Rightarrow> List.find P ys | Some x \<Rightarrow> Some x)"
  by (induction xs) auto

lemma latest_Nil [simp]: "latest page resolve base [] w = base w"
  by (simp add: latest_def)

lemma latest_Cons:
  "latest page resolve base ((v, e) # xs) w =
     latest page resolve (\<lambda>w. if page w = page v then resolve e w else base w) xs w"
  by (auto simp: latest_def find_append split: option.splits)

locale address_space =
  fixes inv :: "'t \<Rightarrow> bool"
    and room :: "'t \<Rightarrow> nat \<Rightarrow> bool"
    and page :: "'va \<Rightarrow> 'k"
    and ok :: "'va \<Rightarrow> 'e \<Rightarrow> bool"
    and map_at :: "'t \<Rightarrow> 'va \<Rightarrow> 'e \<Rightarrow> 't res"
    and xlate :: "'t \<Rightarrow> 'va \<Rightarrow> 'r"
    and resolve :: "'e \<Rightarrow> 'va \<Rightarrow> 'r"
  assumes map_at: "inv t \<Longrightarrow> ok v e \<Longrightarrow> room t (Suc n) \<Longrightarrow>
      \<exists>t'. map_at t v e = Inr t' \<and> inv t' \<and> room t' n \<and>
        (\<forall>w. xlate t' w = (if page w = page v then resolve e w else xlate t w))"
begin

lemma map_seq_latest:
  "inv t \<Longrightarrow> room t (length xs) \<Longrightarrow> list_all (\<lambda>(v, e). ok v e) xs \<Longrightarrow>
   \<exists>t'. map_seq map_at t xs = Inr t' \<and> inv t' \<and>
     (\<forall>w. xlate t' w = latest page resolve (xlate t) xs w)"
proof (induction xs arbitrary: t)
  case Nil
  then show ?case by simp
next
  case (Cons x xs)
  obtain v e where x: "x = (v, e)" by (cases x)
  from Cons.prems obtain t1 where t1: "map_at t v e = Inr t1" "inv t1" "room t1 (length xs)"
    and xl: "\<And>w. xlate t1 w = (if page w = page v then resolve e w else xlate t w)"
    using map_at [of t v e "length xs"] by (auto simp: x)
  from Cons.IH [OF t1(2,3)] Cons.prems(3) obtain t' where
    "map_seq map_at t1 xs = Inr t'" "inv t'"
    and "\<And>w. xlate t' w = latest page resolve (xlate t1) xs w"
    by auto
  moreover have "xlate t1 = (\<lambda>w. if page w = page v then resolve e w else xlate t w)"
    using xl by auto
  ultimately show ?case
    by (simp add: x t1(1) latest_Cons)
qed

text \<open>Two mappings of different pages can be made in either order.\<close>

lemma map_at_commute:
  assumes "inv t" "room t 2" "ok v e" "ok w f" "page v \<noteq> page w"
  shows "\<exists>t1 t2. map_seq map_at t [(v, e), (w, f)] = Inr t1 \<and>
      map_seq map_at t [(w, f), (v, e)] = Inr t2 \<and> xlate t1 = xlate t2"
proof -
  from map_seq_latest [of t "[(v, e), (w, f)]"] assms obtain t1 where
    t1: "map_seq map_at t [(v, e), (w, f)] = Inr t1"
      "\<And>u. xlate t1 u = latest page resolve (xlate t) [(v, e), (w, f)] u"
    by (auto simp: numeral_2_eq_2)
  from map_seq_latest [of t "[(w, f), (v, e)]"] assms obtain t2 where
    t2: "map_seq map_at t [(w, f), (v, e)] = Inr t2"
      "\<And>u. xlate t2 u = latest page resolve (xlate t) [(w, f), (v, e)] u"
    by (auto simp: numeral_2_eq_2)
  have "xlate t1 u = xlate t2 u" for u
    using assms(5) by (auto simp: t1(2) t2(2) latest_def)
  then have "xlate t1 = xlate t2" by (rule ext)
  with t1(1) t2(1) show ?thesis by blast
qed

end

end
