(* ===== verification/SingleLevelPageTable.thy ===== *)
theory SingleLevelPageTable
  imports AddressSpace
begin

text \<open>
  \<^verbatim>\<open>exercises/06_page_table/02_page_table_walk/src/lib.rs\<close>: a single-level page table over a
  vector of optional entries, and the translation of a 32-bit virtual address.
\<close>

definition PAGE_SIZE :: nat where "PAGE_SIZE = 4096"
definition PAGE_OFFSET_BITS :: nat where "PAGE_OFFSET_BITS = 12"

definition PTE_VALID :: u8 where "PTE_VALID = push_bit 0 1"
definition PTE_READ :: u8 where "PTE_READ = push_bit 1 1"
definition PTE_WRITE :: u8 where "PTE_WRITE = push_bit 2 1"

record PageTableEntry =
  ppn :: u32
  flags :: u8

datatype TranslateResult = Ok u32 | PageFault | PermissionDenied

record SingleLevelPageTable =
  entries :: "PageTableEntry option list"

definition new :: "nat \<Rightarrow> SingleLevelPageTable" where
  "new max_pages = \<lparr>entries = replicate max_pages None\<rparr>"

definition map_pt ::
  "SingleLevelPageTable \<Rightarrow> usize \<Rightarrow> u32 \<Rightarrow> u8 \<Rightarrow> SingleLevelPageTable res" where
  "map_pt pt vpn p f =
     bind_res (vec_set (entries pt) (unat vpn) (Some \<lparr>ppn = p, flags = f\<rparr>))
       (\<lambda>es. Inr (pt\<lparr>entries := es\<rparr>))"

definition unmap :: "SingleLevelPageTable \<Rightarrow> usize \<Rightarrow> SingleLevelPageTable res" where
  "unmap pt vpn =
     bind_res (vec_set (entries pt) (unat vpn) None) (\<lambda>es. Inr (pt\<lparr>entries := es\<rparr>))"

definition lookup :: "SingleLevelPageTable \<Rightarrow> usize \<Rightarrow> PageTableEntry option res" where
  "lookup pt vpn = vec_get (entries pt) (unat vpn)"

definition va_to_vpn :: "u32 \<Rightarrow> usize" where
  "va_to_vpn va = ucast (drop_bit PAGE_OFFSET_BITS va)"

definition va_to_offset :: "u32 \<Rightarrow> u32" where
  "va_to_offset va = va AND (push_bit PAGE_OFFSET_BITS 1 - 1)"

definition make_pa :: "u32 \<Rightarrow> u32 \<Rightarrow> u32" where
  "make_pa p offset = (push_bit PAGE_OFFSET_BITS p) OR offset"

definition translate ::
  "SingleLevelPageTable \<Rightarrow> u32 \<Rightarrow> bool \<Rightarrow> TranslateResult res" where
  "translate pt va is_write =
     (let vpn = va_to_vpn va; offset = va_to_offset va in
      bind_res (lookup pt vpn) (\<lambda>entry.
        case entry of
          None \<Rightarrow> Inr PageFault
        | Some pte \<Rightarrow>
            if (flags pte AND PTE_VALID) = 0 then Inr PageFault
            else if is_write \<and> (flags pte AND PTE_WRITE) = 0 then Inr PermissionDenied
            else Inr (Ok (make_pa (ppn pte) offset))))"

section \<open>Address arithmetic\<close>

lemma va_to_offset_mask: "va_to_offset va = va AND mask 12"
  by (simp add: va_to_offset_def PAGE_OFFSET_BITS_def mask_eq_exp_minus_1)

lemma unat_va_to_vpn: "unat (va_to_vpn va) = unat va div 4096"
proof -
  have "unat va div 4096 < 2 ^ 64"
    using unsigned_less [of va, where ?'a = nat] by (simp add: div_less_dividend)
  then have "unat (drop_bit 12 va) < 2 ^ 64"
    by (simp only: unat_drop_bit_div) simp
  then show ?thesis
    unfolding va_to_vpn_def PAGE_OFFSET_BITS_def unsigned_ucast_eq
    by (simp only: unat_drop_bit_div) (simp add: take_bit_nat_eq_self)
qed

lemma make_pa_offset: "make_pa p (va_to_offset va) = p * 4096 + va_to_offset va"
  unfolding make_pa_def PAGE_OFFSET_BITS_def va_to_offset_mask push_or_low_add
  by (simp add: push_bit_eq_mult)

text \<open>A virtual address is its page number and offset, and the physical address formed from a
  page number and an offset is the base of the frame plus the offset.\<close>

theorem va_decompose:
  "unat va = unat (va_to_vpn va) * PAGE_SIZE + unat (va_to_offset va) \<and>
   unat (va_to_vpn va) < 2 ^ 20 \<and> unat (va_to_offset va) < PAGE_SIZE \<and>
   make_pa p (va_to_offset va) = p * 4096 + va_to_offset va"
proof -
  have off: "unat (va_to_offset va) = unat va mod 4096"
    by (simp add: va_to_offset_mask unat_and_mask)
  show ?thesis
    using unsigned_less [of va, where ?'a = nat]
    by (auto simp: unat_va_to_vpn off PAGE_SIZE_def make_pa_offset)
qed

section \<open>Translation\<close>

lemma and_PTE_flags [word_facts]:
  "f AND PTE_VALID = 0 \<longleftrightarrow> \<not> bit f 0"
  "f AND PTE_WRITE = 0 \<longleftrightarrow> \<not> bit f 2"
  unfolding PTE_VALID_def PTE_WRITE_def by (rule and_flag_eq_0)+

lemma va_to_offset_eval: "va_to_offset va = va AND 0xFFF"
  by (simp add: va_to_offset_mask mask_lits)

text \<open>How an entry given to \<^verbatim>\<open>map\<close> answers an access to an address of its page.\<close>

definition resolve :: "u32 \<times> u8 \<Rightarrow> u32 \<Rightarrow> bool \<Rightarrow> TranslateResult res" where
  "resolve e va is_write =
     (if \<not> bit (snd e) 0 then Inr PageFault
      else if is_write \<and> \<not> bit (snd e) 2 then Inr PermissionDenied
      else Inr (Ok (fst e * 4096 + va_to_offset va)))"

lemma translate_cases:
  "translate pt va =
     (if length (entries pt) \<le> unat (va_to_vpn va) then (\<lambda>_. Inl IndexOutOfBounds)
      else case entries pt ! unat (va_to_vpn va) of
             None \<Rightarrow> (\<lambda>_. Inr PageFault)
           | Some e \<Rightarrow> resolve (ppn e, flags e) va)"
  by (auto simp: translate_def lookup_def resolve_def and_PTE_flags make_pa_offset Let_def
      split: option.split)

abbreviation map_va :: "SingleLevelPageTable \<Rightarrow> u32 \<Rightarrow> u32 \<times> u8 \<Rightarrow> SingleLevelPageTable res" where
  "map_va pt va e \<equiv> map_pt pt (va_to_vpn va) (fst e) (snd e)"

interpretation slpt: address_space
    "\<lambda>pt :: SingleLevelPageTable. length (entries pt) = n" "\<lambda>_ _. True" va_to_vpn
    "\<lambda>va _. unat (va_to_vpn va) < n" map_va translate resolve
  for n :: nat
proof unfold_locales
  fix pt :: SingleLevelPageTable and va e and k :: nat
  assume len: "length (entries pt) = n" and ok: "unat (va_to_vpn va) < n"
  let ?pt = "pt\<lparr>entries := (entries pt)[unat (va_to_vpn va) := Some \<lparr>ppn = fst e, flags = snd e\<rparr>]\<rparr>"
  have "translate ?pt w = (if va_to_vpn w = va_to_vpn va then resolve e w else translate pt w)" for w
    using len ok
    by (auto simp: translate_cases nth_list_update word_unat_eq_iff [of "va_to_vpn w"])
  then show "\<exists>pt'. map_va pt va e = Inr pt' \<and> length (entries pt') = n \<and> True \<and>
      (\<forall>w. translate pt' w = (if va_to_vpn w = va_to_vpn va then resolve e w else translate pt w))"
    using len ok by (simp add: map_pt_def)
qed

lemma translate_new:
  "translate (new n) va =
     (\<lambda>_. if n \<le> unat (va_to_vpn va) then Inl IndexOutOfBounds else Inr PageFault)"
  by (auto simp: translate_cases new_def)

text \<open>C38: After any sequence of \<^verbatim>\<open>map\<close> calls on pages of the table, an access resolves through the latest
  mapping of its page, with the permission check. An access to a page of the table that was never mapped
  faults; an address beyond the table panics, where the documentation promises a fault.\<close>

theorem map_seq_translate:
  assumes "list_all (\<lambda>(va, e). unat (va_to_vpn va) < n) xs"
  shows "\<exists>pt. map_seq map_va (new n) xs = Inr pt \<and>
    (\<forall>va. translate pt va = latest va_to_vpn resolve
      (\<lambda>va _. if unat va < n * PAGE_SIZE then Inr PageFault else Inl IndexOutOfBounds) xs va)"
proof -
  have "translate (new n) = (\<lambda>va _. if unat va < n * PAGE_SIZE then Inr PageFault else Inl IndexOutOfBounds)"
    by (auto simp: fun_eq_iff translate_new unat_va_to_vpn PAGE_SIZE_def less_eq_div_iff_mult_less_eq)
  then show ?thesis using slpt.map_seq_latest [of "new n" n xs] assms by (auto simp: new_def)
qed

theorem map_seq_translate_witness:
  "\<exists>pt. map_seq map_va (new 4) [(0x1100, (0x80, 3)), (0x1234, (0x90, 7))] = Inr pt \<and>
     translate pt 0x1ABC True = Inr (Ok 0x90ABC) \<and> translate pt 0x2000 False = Inr PageFault \<and>
     translate pt 0x4000 False = Inl IndexOutOfBounds"
  using map_seq_translate [of 4 "[(0x1100, (0x80, 3)), (0x1234, (0x90, 7))]"]
  by (auto simp: latest_def PAGE_SIZE_def unat_va_to_vpn resolve_def va_to_offset_eval
      word_unat_eq_iff [of "va_to_vpn _"])

text \<open>Unmapping a page of the table makes it fault and leaves every other page alone; and
  mapping it again afterwards is the same as having only mapped it.\<close>

theorem unmap_translate:
  assumes "unat v < length (entries pt)"
  shows "\<exists>pt'. unmap pt v = Inr pt' \<and>
    (\<forall>va. translate pt' va = (if va_to_vpn va = v then (\<lambda>_. Inr PageFault) else translate pt va)) \<and>
    map_pt pt' v p f = map_pt pt v p f"
  using assms
  by (auto simp: unmap_def map_pt_def translate_cases nth_list_update word_unat_eq_iff [of _ v])

theorem unmap_translate_witness:
  "\<exists>pt'. unmap \<lparr>entries = [None, Some \<lparr>ppn = 7, flags = 3\<rparr>]\<rparr> 1 = Inr pt' \<and>
     translate pt' 0x1004 False = Inr PageFault"
proof -
  let ?pt = "\<lparr>entries = [None, Some \<lparr>ppn = 7, flags = 3\<rparr>]\<rparr>"
  have page: "va_to_vpn 0x1004 = 1"
    by (simp add: word_unat_eq_iff [of "va_to_vpn _"] unat_va_to_vpn)
  from unmap_translate [of 1 ?pt 0 0] obtain pt' where "unmap ?pt 1 = Inr pt'"
    "\<forall>va. translate pt' va = (if va_to_vpn va = 1 then (\<lambda>_. Inr PageFault) else translate ?pt va)"
    by auto
  with page show ?thesis by auto
qed

text \<open>An address beyond the table does not fault: the vector index panics, on every access and
  in every profile; inside the table translation never panics.\<close>

theorem translate_panics_iff:
  "translate pt va is_write = Inl e \<longleftrightarrow>
     length (entries pt) * PAGE_SIZE \<le> unat va \<and> e = IndexOutOfBounds"
proof -
  have "length (entries pt) \<le> unat va div 4096 \<longleftrightarrow> length (entries pt) * 4096 \<le> unat va"
    by (simp add: less_eq_div_iff_mult_less_eq)
  then show ?thesis
    by (auto simp: translate_cases unat_va_to_vpn PAGE_SIZE_def resolve_def split: option.splits)
qed

end
