(* ===== verification/Sv39PageTable.thy ===== *)
theory Sv39PageTable
  imports AddressSpace
begin

text \<open>
  \<^verbatim>\<open>exercises/06_page_table/03_multi_level_pt/src/lib.rs\<close>: the simulated SV39 three-level page
  table. The \<^verbatim>\<open>HashMap\<close> of page table pages is a map from physical page numbers to nodes, a node
  is the list of its 512 entries; a missing node is a panic (\<^verbatim>\<open>unwrap\<close>) or a page fault as in the
  code.
\<close>

section \<open>Data\<close>

definition PAGE_SIZE :: nat where "PAGE_SIZE = 4096"
definition PT_ENTRIES :: nat where "PT_ENTRIES = 512"

definition PTE_V :: u64 where "PTE_V = push_bit 0 1"
definition PTE_R :: u64 where "PTE_R = push_bit 1 1"
definition PTE_W :: u64 where "PTE_W = push_bit 2 1"
definition PTE_X :: u64 where "PTE_X = push_bit 3 1"

definition PPN_SHIFT :: nat where "PPN_SHIFT = 10"

record PageTableNode =
  entries :: "u64 list"

definition node_new :: PageTableNode where
  "node_new = \<lparr>entries = replicate PT_ENTRIES 0\<rparr>"

record Sv39PageTable =
  nodes :: "u64 \<rightharpoonup> PageTableNode"
  root_ppn :: u64
  next_ppn :: u64

datatype TranslateResult = Ok u64 | PageFault

section \<open>Operations\<close>

definition new :: Sv39PageTable where
  "new = \<lparr>nodes = [0x80000 \<mapsto> node_new], root_ppn = 0x80000, next_ppn = 0x80001\<rparr>"

definition alloc_node :: "bool \<Rightarrow> Sv39PageTable \<Rightarrow> (u64 \<times> Sv39PageTable) res" where
  "alloc_node ck pt =
     (let ppn = next_ppn pt in
      bind_res (add_ck ck (next_ppn pt) 1) (\<lambda>n.
        Inr (ppn, pt\<lparr>next_ppn := n, nodes := (nodes pt)(ppn \<mapsto> node_new)\<rparr>)))"

text \<open>A shift by at least the width overflows: a panic with overflow checks, and otherwise a
  shift by the amount modulo the width.\<close>

definition extract_vpn :: "bool \<Rightarrow> u64 \<Rightarrow> nat \<Rightarrow> usize res" where
  "extract_vpn ck va level =
     (if ck \<and> 64 \<le> 12 + level * 9 then Inl Overflow
      else Inr ((drop_bit ((12 + level * 9) mod 64) va) AND 0x1FF))"

text \<open>\<^verbatim>\<open>self.nodes.get_mut(&ppn).unwrap().entries[i]\<close>, read and written.\<close>

definition read_entry :: "Sv39PageTable \<Rightarrow> u64 \<Rightarrow> usize \<Rightarrow> u64 res" where
  "read_entry pt ppn i =
     bind_res (unwrap (nodes pt ppn)) (\<lambda>node. vec_get (entries node) (unat i))"

definition write_entry :: "Sv39PageTable \<Rightarrow> u64 \<Rightarrow> usize \<Rightarrow> u64 \<Rightarrow> Sv39PageTable res" where
  "write_entry pt ppn i v =
     bind_res (unwrap (nodes pt ppn)) (\<lambda>node.
     bind_res (vec_set (entries node) (unat i) v) (\<lambda>es.
       Inr (pt\<lparr>nodes := (nodes pt)(ppn \<mapsto> node\<lparr>entries := es\<rparr>)\<rparr>)))"

text \<open>The loop of \<^verbatim>\<open>map_page\<close> over the intermediate levels; it returns the level-0 node.\<close>

fun descend :: "bool \<Rightarrow> u64 \<Rightarrow> nat list \<Rightarrow> u64 \<Rightarrow> Sv39PageTable \<Rightarrow> (u64 \<times> Sv39PageTable) res" where
  "descend ck va [] curr_ppn pt = Inr (curr_ppn, pt)"
| "descend ck va (level # levels) curr_ppn pt =
     bind_res (extract_vpn ck va level) (\<lambda>vpn.
     bind_res (read_entry pt curr_ppn vpn) (\<lambda>pte.
       if (pte AND PTE_V) = 0 then
         bind_res (alloc_node ck pt) (\<lambda>(new_ppn, pt1).
         bind_res (write_entry pt1 curr_ppn vpn (push_bit PPN_SHIFT new_ppn OR PTE_V)) (\<lambda>pt2.
           descend ck va levels new_ppn pt2))
       else descend ck va levels (drop_bit PPN_SHIFT pte) pt))"

definition map_page ::
  "bool \<Rightarrow> Sv39PageTable \<Rightarrow> u64 \<Rightarrow> u64 \<Rightarrow> u64 \<Rightarrow> Sv39PageTable res" where
  "map_page ck pt va pa flags =
     bind_res (descend ck va [2, 1] (root_ppn pt) pt) (\<lambda>(curr_ppn, pt1).
     bind_res (extract_vpn ck va 0) (\<lambda>vpn0.
       write_entry pt1 curr_ppn vpn0 (push_bit PPN_SHIFT (drop_bit 12 pa) OR flags OR PTE_V)))"

fun walk ::
  "bool \<Rightarrow> Sv39PageTable \<Rightarrow> u64 \<Rightarrow> nat list \<Rightarrow> u64 \<Rightarrow> TranslateResult res" where
  "walk ck pt va [] curr_ppn = Inr PageFault"
| "walk ck pt va (level # levels) curr_ppn =
     bind_res (extract_vpn ck va level) (\<lambda>vpn.
       case nodes pt curr_ppn of
         None \<Rightarrow> Inr PageFault
       | Some node \<Rightarrow>
           bind_res (vec_get (entries node) (unat vpn)) (\<lambda>pte.
             if (pte AND PTE_V) = 0 then Inr PageFault
             else if (pte AND (PTE_R OR PTE_W OR PTE_X)) \<noteq> 0 then
               (let base_ppn = drop_bit PPN_SHIFT pte in
                if level > 0 then
                  (let m = push_bit (12 + level * 9) 1 - 1 in
                   Inr (Ok (push_bit 12 base_ppn OR (va AND m))))
                else Inr (Ok (push_bit 12 base_ppn OR (va AND 0xFFF))))
             else walk ck pt va levels (drop_bit PPN_SHIFT pte)))"

definition translate :: "bool \<Rightarrow> Sv39PageTable \<Rightarrow> u64 \<Rightarrow> TranslateResult res" where
  "translate ck pt va = walk ck pt va [2, 1, 0] (root_ppn pt)"

definition map_superpage ::
  "bool \<Rightarrow> Sv39PageTable \<Rightarrow> u64 \<Rightarrow> u64 \<Rightarrow> u64 \<Rightarrow> Sv39PageTable res" where
  "map_superpage ck pt va pa flags =
     (let mega_size = of_nat (PAGE_SIZE * PT_ENTRIES) in
      if va mod mega_size \<noteq> 0 then Inl AssertFailed
      else if pa mod mega_size \<noteq> 0 then Inl AssertFailed
      else
        bind_res (extract_vpn ck va 2) (\<lambda>vpn2.
        bind_res (read_entry pt (root_ppn pt) vpn2) (\<lambda>pte2.
        bind_res
          (if (pte2 AND PTE_V) = 0 then
             bind_res (alloc_node ck pt) (\<lambda>(curr_ppn, pt1).
             bind_res (write_entry pt1 (curr_ppn - 1) vpn2 (push_bit PPN_SHIFT curr_ppn OR PTE_V))
               (\<lambda>pt2. Inr (curr_ppn, pt2)))
           else Inr (drop_bit PPN_SHIFT pte2, pt)) (\<lambda>(curr_ppn, pt1).
        bind_res (extract_vpn ck va 1) (\<lambda>vpn1.
          write_entry pt1 curr_ppn vpn1
            (push_bit PPN_SHIFT (drop_bit 12 pa) OR flags OR PTE_V))))))"

section \<open>Virtual page numbers and entries\<close>

text \<open>The index of an address at a level, without the shift check: levels 0 to 2 never shift by
  the width.\<close>

definition vpn :: "u64 \<Rightarrow> nat \<Rightarrow> usize" where
  "vpn va level = drop_bit (12 + level * 9) va AND mask 9"

lemma extract_vpn_ok [simp]: "level \<le> 2 \<Longrightarrow> extract_vpn ck va level = Inr (vpn va level)"
  by (simp add: extract_vpn_def vpn_def mask_lits)

lemma unat_vpn: "unat (vpn va level) < 512"
  by (simp add: vpn_def unat_and_mask)

lemma vpn_less [simp]: "vpn va level < 512"
  using unat_vpn by (simp add: word_less_nat_alt)

text \<open>The page of an address: its three indices.\<close>

definition page :: "u64 \<Rightarrow> usize \<times> usize \<times> usize" where
  "page va = (vpn va 2, vpn va 1, vpn va 0)"

abbreviation valid :: "u64 \<Rightarrow> bool" where "valid e \<equiv> bit e 0"

definition leaf :: "u64 \<Rightarrow> bool" where
  "leaf e \<longleftrightarrow> bit e 1 \<or> bit e 2 \<or> bit e 3"

definition child :: "u64 \<Rightarrow> u64" where
  "child e = drop_bit 10 e"

definition link :: "u64 \<Rightarrow> u64" where
  "link p = push_bit PPN_SHIFT p OR PTE_V"

definition leaf_pa :: "u64 \<Rightarrow> u64 \<Rightarrow> nat \<Rightarrow> u64" where
  "leaf_pa e va level = push_bit 12 (child e) OR (va AND mask (12 + level * 9))"

lemma and_PTE_sv39 [word_facts]:
  "w AND PTE_V = 0 \<longleftrightarrow> \<not> bit w 0"
  "w AND (PTE_R OR PTE_W OR PTE_X) = 0 \<longleftrightarrow> \<not> leaf w"
proof -
  have "w AND (PTE_R OR PTE_W OR PTE_X) = 0 \<longleftrightarrow>
      w AND PTE_R = 0 \<and> w AND PTE_W = 0 \<and> w AND PTE_X = 0"
    by (auto simp: bit_eq_iff bit_simps)
  then show "w AND (PTE_R OR PTE_W OR PTE_X) = 0 \<longleftrightarrow> \<not> leaf w"
    unfolding PTE_R_def PTE_W_def PTE_X_def leaf_def and_flag_eq_0 by simp
  show "w AND PTE_V = 0 \<longleftrightarrow> \<not> bit w 0"
    unfolding PTE_V_def by (rule and_flag_eq_0)
qed

lemma bit_PTE_V [bit_simps]: "bit PTE_V n \<longleftrightarrow> n = 0"
  by (auto simp: PTE_V_def bit_simps)

lemma link_props:
  "valid (link p)" "\<not> leaf (link p)"
  "unat p < 2 ^ 54 \<Longrightarrow> child (link p) = p"
proof -
  show "valid (link p)" "\<not> leaf (link p)"
    by (auto simp: link_def leaf_def PPN_SHIFT_def bit_simps)
  assume p: "unat p < 2 ^ 54"
  have "p = take_bit 54 p"
    using p by (simp add: word_unat_eq_iff unsigned_take_bit_eq take_bit_nat_eq_self)
  then have "bit p n \<Longrightarrow> n < 54" for n
    by (metis bit_take_bit_iff)
  then show "child (link p) = p"
    by (auto simp: child_def link_def PPN_SHIFT_def bit_simps intro!: bit_word_eqI)
qed

text \<open>The entry of a node as a function, and the translation over that function.\<close>

definition ent :: "Sv39PageTable \<Rightarrow> u64 \<Rightarrow> usize \<Rightarrow> u64" where
  "ent pt p i = entries (the (nodes pt p)) ! unat i"

definition xl :: "(u64 \<Rightarrow> usize \<Rightarrow> u64) \<Rightarrow> u64 \<Rightarrow> u64 \<Rightarrow> TranslateResult" where
  "xl E root va =
     (let e2 = E root (vpn va 2) in
      if \<not> valid e2 then PageFault else if leaf e2 then Ok (leaf_pa e2 va 2)
      else let e1 = E (child e2) (vpn va 1) in
        if \<not> valid e1 then PageFault else if leaf e1 then Ok (leaf_pa e1 va 1)
        else let e0 = E (child e1) (vpn va 0) in
          if valid e0 \<and> leaf e0 then Ok (leaf_pa e0 va 0) else PageFault)"

section \<open>Well-formed tables\<close>

text \<open>
  \<open>skel\<close>: the nodes are exactly the pages from the root up to the allocator's next page, and each
  has 512 entries. \<open>links\<close>: with a level for each node (a ghost), a non-leaf entry of a node
  above level 0 points to a node one level down, and no two such entries point to the same node.
\<close>

definition skel :: "Sv39PageTable \<Rightarrow> bool" where
  "skel pt \<longleftrightarrow>
     (\<forall>p. nodes pt p \<noteq> None \<longleftrightarrow> root_ppn pt \<le> p \<and> p < next_ppn pt) \<and>
     (\<forall>p n. nodes pt p = Some n \<longrightarrow> length (entries n) = 512)"

definition is_link :: "(u64 \<Rightarrow> nat) \<Rightarrow> u64 \<Rightarrow> u64 \<Rightarrow> (u64 \<Rightarrow> usize \<Rightarrow> u64) \<Rightarrow> u64 \<Rightarrow> usize \<Rightarrow> bool" where
  "is_link lvl r nx E p i \<longleftrightarrow>
     r \<le> p \<and> p < nx \<and> 0 < lvl p \<and> i < 512 \<and> valid (E p i) \<and> \<not> leaf (E p i)"

definition links :: "(u64 \<Rightarrow> nat) \<Rightarrow> u64 \<Rightarrow> u64 \<Rightarrow> (u64 \<Rightarrow> usize \<Rightarrow> u64) \<Rightarrow> bool" where
  "links lvl r nx E \<longleftrightarrow>
     r < nx \<and> lvl r = 2 \<and> (\<forall>p. r \<le> p \<and> p < nx \<longrightarrow> lvl p \<le> 2) \<and>
     (\<forall>p i. is_link lvl r nx E p i \<longrightarrow>
        r \<le> child (E p i) \<and> child (E p i) < nx \<and> Suc (lvl (child (E p i))) = lvl p) \<and>
     (\<forall>p i q j. is_link lvl r nx E p i \<longrightarrow> is_link lvl r nx E q j \<longrightarrow>
        child (E p i) = child (E q j) \<longrightarrow> p = q \<and> i = j)"

definition wf :: "(u64 \<Rightarrow> nat) \<Rightarrow> Sv39PageTable \<Rightarrow> bool" where
  "wf lvl pt \<longleftrightarrow> skel pt \<and> links lvl (root_ppn pt) (next_ppn pt) (ent pt)"

lemma links_down:
  assumes "links lvl r nx E" "is_link lvl r nx E p i"
  shows "r \<le> child (E p i)" "child (E p i) < nx" "Suc (lvl (child (E p i))) = lvl p"
  using assms by (auto simp: links_def)

lemma links_inj:
  assumes "links lvl r nx E" "is_link lvl r nx E p i" "is_link lvl r nx E q j"
    and "child (E p i) = child (E q j)"
  shows "p = q" "i = j"
  using assms unfolding links_def by blast+

lemma links_root: "links lvl r nx E \<Longrightarrow> r < nx \<and> lvl r = 2"
  by (simp add: links_def)

lemma skel_node:
  assumes "skel pt" "root_ppn pt \<le> p" "p < next_ppn pt"
  obtains n where "nodes pt p = Some n" "length (entries n) = 512"
  using assms unfolding skel_def by (metis not_None_eq)

section \<open>Reading and writing entries of a well-formed table\<close>

lemma read_entry_ent:
  assumes "skel pt" "root_ppn pt \<le> p" "p < next_ppn pt" "i < 512"
  shows "read_entry pt p i = Inr (ent pt p i)"
proof -
  from assms(1-3) obtain n where n: "nodes pt p = Some n" "length (entries n) = 512"
    by (rule skel_node)
  moreover have "unat i < 512" using assms(4) by (simp add: word_less_nat_alt)
  ultimately show ?thesis by (simp add: read_entry_def ent_def)
qed

lemma write_entry_ent:
  assumes "skel pt" "root_ppn pt \<le> p" "p < next_ppn pt" "i < 512"
  obtains pt' where "write_entry pt p i v = Inr pt'" "skel pt'"
    "root_ppn pt' = root_ppn pt" "next_ppn pt' = next_ppn pt"
    "ent pt' = (ent pt)(p := (ent pt p)(i := v))"
proof -
  from assms(1-3) obtain n where n: "nodes pt p = Some n" "length (entries n) = 512"
    by (rule skel_node)
  have i: "unat i < 512" using assms(4) by (simp add: word_less_nat_alt)
  let ?pt = "pt\<lparr>nodes := (nodes pt)(p \<mapsto> n\<lparr>entries := (entries n)[unat i := v]\<rparr>)\<rparr>"
  show ?thesis
  proof (rule that)
    show "write_entry pt p i v = Inr ?pt" using n i by (simp add: write_entry_def)
    show "skel ?pt" using assms(1-3) n by (auto simp: skel_def)
    show "ent ?pt = (ent pt)(p := (ent pt p)(i := v))"
      using n i by (auto simp: ent_def fun_eq_iff nth_list_update word_unat_eq_iff [of _ i])
  qed simp_all
qed

lemma ent_walk:
  assumes "skel pt" "root_ppn pt \<le> p" "p < next_ppn pt" "level \<le> 2"
  shows "walk ck pt va (level # levels) p =
     (let e = ent pt p (vpn va level) in
      if \<not> valid e then Inr PageFault
      else if leaf e then Inr (Ok (leaf_pa e va level))
      else walk ck pt va levels (child e))"
proof -
  from assms(1-3) obtain n where n: "nodes pt p = Some n" "length (entries n) = 512"
    by (rule skel_node)
  have m: "2 ^ (12 + level * 9) - 1 = (mask (12 + level * 9) :: u64)"
    by (simp add: mask_eq_exp_minus_1)
  have "unat (vpn va level) < 512" by (rule unat_vpn)
  then show ?thesis
    using n assms(4)
    by (simp add: ent_def and_PTE_sv39 leaf_pa_def child_def PPN_SHIFT_def Let_def m mask_lits(3))
qed

lemma translate_xl:
  assumes "wf lvl pt"
  shows "translate ck pt va = Inr (xl (ent pt) (root_ppn pt) va)"
proof -
  let ?r = "root_ppn pt" and ?nx = "next_ppn pt" and ?E = "ent pt"
  from assms have sk: "skel pt" and li: "links lvl ?r ?nx ?E"
    by (auto simp: wf_def)
  let ?e2 = "?E ?r (vpn va 2)"
  let ?e1 = "?E (child ?e2) (vpn va 1)"
  have r: "?r \<le> ?r" "?r < ?nx" "lvl ?r = 2" using links_root [OF li] by auto
  show ?thesis
  proof (cases "valid ?e2 \<and> \<not> leaf ?e2")
    case False
    then show ?thesis
      using ent_walk [OF sk r(1,2), of 2 ck va "[1, 0]"] by (auto simp: translate_def xl_def Let_def)
  next
    case True
    then have l2: "is_link lvl ?r ?nx ?E ?r (vpn va 2)" using r by (simp add: is_link_def)
    note c1 = links_down [OF li l2]
    show ?thesis
    proof (cases "valid ?e1 \<and> \<not> leaf ?e1")
      case False
      then show ?thesis
        using True ent_walk [OF sk r(1,2), of 2 ck va "[1, 0]"]
          ent_walk [OF sk c1(1,2), of 1 ck va "[0]"]
        by (auto simp: translate_def xl_def Let_def)
    next
      case e1: True
      then have l1: "is_link lvl ?r ?nx ?E (child ?e2) (vpn va 1)"
        using c1 r by (simp add: is_link_def)
      note c0 = links_down [OF li l1]
      show ?thesis
        using True e1 ent_walk [OF sk r(1,2), of 2 ck va "[1, 0]"]
          ent_walk [OF sk c1(1,2), of 1 ck va "[0]"] ent_walk [OF sk c0(1,2), of 0 ck va "[]"]
        by (auto simp: translate_def xl_def Let_def)
    qed
  qed
qed

section \<open>Allocating and linking a child\<close>

text \<open>A fresh node is empty: linking it under an invalid entry changes no translation and keeps the
  table well-formed, with the new node one level below its parent.\<close>

lemma less_Suc_word:
  assumes "unat (nx :: u64) < 2 ^ 54"
  shows "q < nx + 1 \<longleftrightarrow> q < nx \<or> q = nx"
proof -
  have "unat (nx + 1) = unat nx + 1"
    using assms by (subst unat_add_in_range) auto
  then show ?thesis by (auto simp: word_less_nat_alt word_unat_eq_iff)
qed

lemma links_alloc:
  assumes li: "links lvl r nx E" and p: "r \<le> p" "p < nx" "lvl p = Suc l" "i < 512"
    and inv: "\<not> valid (E p i)" and nx: "unat nx < 2 ^ 54"
    and E': "E' = E0(p := (E0 p)(i := link nx))"
    and E0: "\<And>q. q \<noteq> nx \<Longrightarrow> E0 q = E q" "\<And>j. j < 512 \<Longrightarrow> E0 nx j = 0"
  shows "links (lvl(nx := l)) r (nx + 1) E'" and "xl E' r va = xl E r va"
proof -
  let ?lvl = "lvl(nx := l)"
  note root = links_root [OF li]
  have pn: "p \<noteq> nx" using p by simp
  have E'_new: "E' nx j = 0" if "j < 512" for j
    using that pn E0(2) by (simp add: E')
  have E'_old: "E' q j = (if q = p \<and> j = i then link nx else E q j)" if "q \<noteq> nx" for q j
    using that E0(1) by (simp add: E')
  have lp: "child (link nx) = nx" using nx by (rule link_props(3))
  note less_Suc = less_Suc_word [OF nx]
  have new: "E' p i = link nx" using E'_old [OF pn] by simp
  have old: "is_link lvl r nx E q j \<and> q \<noteq> nx \<and> E' q j = E q j"
    if "is_link ?lvl r (nx + 1) E' q j" "\<not> (q = p \<and> j = i)" for q j
  proof -
    have "q \<noteq> nx" using that E'_new by (auto simp: is_link_def)
    then show ?thesis using that E'_old by (auto simp: is_link_def less_Suc)
  qed
  have down: "r \<le> child (E' q j) \<and> child (E' q j) < nx + 1 \<and> Suc (?lvl (child (E' q j))) = ?lvl q"
    if "is_link ?lvl r (nx + 1) E' q j" for q j
  proof (cases "q = p \<and> j = i")
    case True
    then show ?thesis using new lp p pn root by (auto simp: less_Suc)
  next
    case False
    from old [OF that False] links_down [OF li, of q j] show ?thesis
      by (auto simp: less_Suc)
  qed
  have inj: "q = q' \<and> j = j'"
    if "is_link ?lvl r (nx + 1) E' q j" "is_link ?lvl r (nx + 1) E' q' j'"
      "child (E' q j) = child (E' q' j')" for q j q' j'
  proof -
    have fresh: "child (E' q j) \<noteq> nx"
      if "is_link ?lvl r (nx + 1) E' q j" "\<not> (q = p \<and> j = i)" for q j
      using old [OF that] links_down [OF li, of q j] by auto
    show ?thesis
    proof (cases "q = p \<and> j = i")
      case True
      then show ?thesis using fresh [OF that(2)] that(3) new lp by auto
    next
      case False
      then have "\<not> (q' = p \<and> j' = i)" using fresh [OF that(1)] that(3) new lp by auto
      with old [OF that(1) False] old [OF that(2)] that(3) show ?thesis
        using links_inj [OF li, of q j q' j'] by auto
    qed
  qed
  have lvl2: "lvl q \<le> 2" if "r \<le> q" "q < nx" for q
    using li that by (simp add: links_def)
  show "links ?lvl r (nx + 1) E'"
    unfolding links_def
    using root p lvl2 [OF p(1,2)] lvl2 down inj by (auto simp: less_Suc)
  have E'_link: "E' r (vpn va 2) = E r (vpn va 2) \<or>
      \<not> valid (E r (vpn va 2)) \<and> E' r (vpn va 2) = link nx"
    using E'_old [of r] root inv by (auto split: if_splits)
  show "xl E' r va = xl E r va"
  proof (cases "valid (E r (vpn va 2)) \<and> \<not> leaf (E r (vpn va 2))")
    case False
    then show ?thesis using E'_link E'_new lp by (auto simp: xl_def Let_def link_props)
  next
    case True
    then have l2: "is_link lvl r nx E r (vpn va 2)" using root by (simp add: is_link_def)
    let ?c = "child (E r (vpn va 2))"
    have c: "r \<le> ?c" "?c < nx" "Suc (lvl ?c) = 2" using links_down [OF li l2] root by auto
    have e2: "E' r (vpn va 2) = E r (vpn va 2)" using E'_link True by auto
    have E'_c: "E' ?c (vpn va 1) = E ?c (vpn va 1) \<or>
        \<not> valid (E ?c (vpn va 1)) \<and> E' ?c (vpn va 1) = link nx"
      using E'_old [of ?c] c inv by (auto split: if_splits)
    show ?thesis
    proof (cases "valid (E ?c (vpn va 1)) \<and> \<not> leaf (E ?c (vpn va 1))")
      case False
      then show ?thesis using True e2 E'_c E'_new lp by (auto simp: xl_def Let_def link_props)
    next
      case e1: True
      then have l1: "is_link lvl r nx E ?c (vpn va 1)" using c by (simp add: is_link_def)
      let ?d = "child (E ?c (vpn va 1))"
      have d: "?d < nx" "lvl ?d = 0" using links_down [OF li l1] c by auto
      then have "E' ?d (vpn va 0) = E ?d (vpn va 0)" using E'_old [of ?d] p by auto
      then show ?thesis using True e1 e2 E'_c by (auto simp: xl_def Let_def)
    qed
  qed
qed

text \<open>Tables built by \<^verbatim>\<open>map_page\<close> alone have no leaf above level 0.\<close>

definition page_only :: "(u64 \<Rightarrow> nat) \<Rightarrow> Sv39PageTable \<Rightarrow> bool" where
  "page_only lvl pt \<longleftrightarrow>
     (\<forall>p i. root_ppn pt \<le> p \<longrightarrow> p < next_ppn pt \<longrightarrow> 0 < lvl p \<longrightarrow> i < 512 \<longrightarrow>
        \<not> (valid (ent pt p i) \<and> leaf (ent pt p i)))"

lemma alloc_node_ent:
  assumes sk: "skel pt" "root_ppn pt < next_ppn pt" and nx: "unat (next_ppn pt) < 2 ^ 54"
  obtains pt1 where "alloc_node ck pt = Inr (next_ppn pt, pt1)" "skel pt1"
    "root_ppn pt1 = root_ppn pt" "next_ppn pt1 = next_ppn pt + 1"
    "\<And>q. q \<noteq> next_ppn pt \<Longrightarrow> ent pt1 q = ent pt q" "\<And>j. j < 512 \<Longrightarrow> ent pt1 (next_ppn pt) j = 0"
proof (rule that)
  let ?nx = "next_ppn pt"
  let ?pt = "pt\<lparr>next_ppn := ?nx + 1, nodes := (nodes pt)(?nx \<mapsto> node_new)\<rparr>"
  have "unat ?nx + unat (1 :: u64) < 2 ^ LENGTH(64)" using nx by simp
  then show "alloc_node ck pt = Inr (?nx, ?pt)"
    by (simp add: alloc_node_def add_ck_in_range Let_def)
  show "skel ?pt"
    using sk by (auto simp: skel_def less_Suc_word [OF nx] node_new_def PT_ENTRIES_def)
  show "ent ?pt q = ent pt q" if "q \<noteq> ?nx" for q
    using that by (simp add: ent_def fun_eq_iff)
  show "ent ?pt ?nx j = 0" if "j < 512" for j
    using that by (simp add: ent_def node_new_def PT_ENTRIES_def word_less_nat_alt)
qed simp_all

text \<open>One level of the descent: it ends at the child the entry points to, allocating and linking
  that child if need be. \<open>P\<close> collects what every caller needs of the new table.\<close>

lemma descend_level:
  assumes w: "wf lvl pt" and p: "root_ppn pt \<le> p" "p < next_ppn pt" "lvl p = level" "level = Suc l" "level \<le> 2"
    and path: "\<not> (valid (ent pt p (vpn va level)) \<and> leaf (ent pt p (vpn va level)))"
    and nx: "unat (next_ppn pt) < 2 ^ 54"
  obtains q pt1 lvl1 where
    "descend ck va (level # levels) p pt = descend ck va levels q pt1"
    "wf lvl1 pt1" "root_ppn pt1 = root_ppn pt" "unat (next_ppn pt1) \<le> unat (next_ppn pt) + 1"
    "q < next_ppn pt1" "root_ppn pt \<le> q" "lvl1 q = l"
    "valid (ent pt1 p (vpn va level))" "\<not> leaf (ent pt1 p (vpn va level))"
    "child (ent pt1 p (vpn va level)) = q"
    "\<And>w. xl (ent pt1) (root_ppn pt) w = xl (ent pt) (root_ppn pt) w"
    "page_only lvl pt \<longrightarrow> page_only lvl1 pt1"
    "valid (ent pt p (vpn va level)) \<and> ent pt1 q = ent pt q \<and> child (ent pt p (vpn va level)) = q \<or>
       (\<forall>j < 512. ent pt1 q j = 0)"
    "\<And>s. s < next_ppn pt \<Longrightarrow> s \<noteq> p \<Longrightarrow> ent pt1 s = ent pt s"
proof -
  let ?i = "vpn va level" and ?r = "root_ppn pt" and ?nx = "next_ppn pt"
  let ?e = "ent pt p ?i"
  from w have sk: "skel pt" and li: "links lvl ?r ?nx (ent pt)" by (auto simp: wf_def)
  have rd: "read_entry pt p ?i = Inr ?e" by (rule read_entry_ent [OF sk p(1,2)]) simp
  show thesis
  proof (cases "valid ?e")
    case True
    then have l: "is_link lvl ?r ?nx (ent pt) p ?i" using p path by (simp add: is_link_def)
    note c = links_down [OF li l]
    show thesis
    proof (rule that [of "child ?e" pt lvl])
      show "descend ck va (level # levels) p pt = descend ck va levels (child ?e) pt"
        using True rd p(5) by (simp add: and_PTE_sv39 child_def PPN_SHIFT_def)
    qed (use w p c True path in auto)
  next
    case False
    from alloc_node_ent [OF sk _ nx, of ck] links_root [OF li] obtain pt0 where
      pt0: "alloc_node ck pt = Inr (?nx, pt0)" "skel pt0" "root_ppn pt0 = ?r"
        "next_ppn pt0 = ?nx + 1" "\<And>q. q \<noteq> ?nx \<Longrightarrow> ent pt0 q = ent pt q"
        "\<And>j. j < 512 \<Longrightarrow> ent pt0 ?nx j = 0" by auto
    have p': "p < ?nx + 1" "p \<noteq> ?nx" using p less_Suc_word [OF nx] by auto
    from write_entry_ent [OF pt0(2), of p ?i "link ?nx"] p p' pt0(3,4) obtain pt1 where
      pt1: "write_entry pt0 p ?i (link ?nx) = Inr pt1" "skel pt1" "root_ppn pt1 = ?r"
        "next_ppn pt1 = ?nx + 1" "ent pt1 = (ent pt0)(p := (ent pt0 p)(?i := link ?nx))" by auto
    let ?lvl = "lvl(?nx := l)"
    have al: "links ?lvl ?r (?nx + 1) (ent pt1)" "xl (ent pt1) ?r w = xl (ent pt) ?r w" for w
      using links_alloc [OF li p(1,2) _ _ False nx pt1(5) pt0(5,6), of l] p(3,4) by auto
    have e: "ent pt1 p ?i = link ?nx" using pt1(5) by simp
    have z: "ent pt1 ?nx j = 0" if "j < 512" for j using pt1(5) p'(2) pt0(6) [OF that] by auto
    show thesis
    proof (rule that [of ?nx pt1 ?lvl])
      show "descend ck va (level # levels) p pt = descend ck va levels ?nx pt1"
        using False rd p(5) pt0(1) pt1(1) by (simp add: and_PTE_sv39 link_def)
      show "wf ?lvl pt1" using al pt1 by (simp add: wf_def)
      have "unat (?nx + 1) = unat ?nx + 1" using nx by (subst unat_add_in_range) auto
      then show "unat (next_ppn pt1) \<le> unat ?nx + 1" using pt1(4) by simp
      show "?nx < next_ppn pt1" using pt1(4) less_Suc_word [OF nx] by simp
      show "?r \<le> ?nx" using links_root [OF li] by (simp add: order_less_imp_le)
      show "child (ent pt1 p ?i) = ?nx" "valid (ent pt1 p ?i)" "\<not> leaf (ent pt1 p ?i)"
        using e nx by (simp_all add: link_props)
      show "page_only lvl pt \<longrightarrow> page_only ?lvl pt1"
        using pt0(5) z pt1(3-5) p' by (auto simp: page_only_def less_Suc_word [OF nx] link_props)
    qed (use al pt1 pt0(5) z in auto)
  qed
qed

text \<open>The level-0 node an address's walk ends in, where it gets that far.\<close>

definition node0 :: "(u64 \<Rightarrow> usize \<Rightarrow> u64) \<Rightarrow> u64 \<Rightarrow> u64 \<Rightarrow> u64 option" where
  "node0 E root va =
     (let e2 = E root (vpn va 2); e1 = E (child e2) (vpn va 1) in
      if valid e2 \<and> \<not> leaf e2 \<and> valid e1 \<and> \<not> leaf e1 then Some (child e1) else None)"

text \<open>No superpage on the way of an address.\<close>

definition no_super :: "Sv39PageTable \<Rightarrow> u64 \<Rightarrow> bool" where
  "no_super pt va \<longleftrightarrow>
     (let e2 = ent pt (root_ppn pt) (vpn va 2); e1 = ent pt (child e2) (vpn va 1) in
      \<not> (valid e2 \<and> leaf e2) \<and> (valid e2 \<longrightarrow> \<not> (valid e1 \<and> leaf e1)))"

lemma descend_spec:
  assumes w: "wf lvl pt" and path: "no_super pt va" and nx: "unat (next_ppn pt) + 1 < 2 ^ 54"
  obtains q pt' lvl' where
    "descend ck va [2, 1] (root_ppn pt) pt = Inr (q, pt')"
    "wf lvl' pt'" "root_ppn pt' = root_ppn pt" "unat (next_ppn pt') \<le> unat (next_ppn pt) + 2"
    "q < next_ppn pt'" "root_ppn pt \<le> q" "lvl' q = 0"
    "node0 (ent pt') (root_ppn pt) va = Some q"
    "\<And>w. xl (ent pt') (root_ppn pt) w = xl (ent pt) (root_ppn pt) w"
    "page_only lvl pt \<longrightarrow> page_only lvl' pt'"
proof -
  let ?r = "root_ppn pt"
  from w have li: "links lvl ?r (next_ppn pt) (ent pt)" by (auto simp: wf_def)
  note r = links_root [OF li]
  have path2: "\<not> (valid (ent pt ?r (vpn va 2)) \<and> leaf (ent pt ?r (vpn va 2)))"
    using path by (auto simp: no_super_def Let_def)
  from nx have nx': "unat (next_ppn pt) < 2 ^ 54" by simp
  obtain p pt1 lvl1 where
    d1: "descend ck va [2, 1] ?r pt = descend ck va [1] p pt1"
    and w1: "wf lvl1 pt1" and r1: "root_ppn pt1 = ?r"
    and n1: "unat (next_ppn pt1) \<le> unat (next_ppn pt) + 1"
    and p: "p < next_ppn pt1" "?r \<le> p" "lvl1 p = 1"
    and e2: "valid (ent pt1 ?r (vpn va 2))" "\<not> leaf (ent pt1 ?r (vpn va 2))"
      "child (ent pt1 ?r (vpn va 2)) = p"
    and x1: "\<And>w. xl (ent pt1) ?r w = xl (ent pt) ?r w"
    and po1: "page_only lvl pt \<longrightarrow> page_only lvl1 pt1"
    and c1: "valid (ent pt ?r (vpn va 2)) \<and> ent pt1 p = ent pt p \<and>
        child (ent pt ?r (vpn va 2)) = p \<or> (\<forall>j < 512. ent pt1 p j = 0)"
    by (rule descend_level [OF w order_refl _ _ _ _ path2 nx', of 1 ck "[1]"]) (use r in simp_all)
  have path1: "\<not> (valid (ent pt1 p (vpn va 1)) \<and> leaf (ent pt1 p (vpn va 1)))"
    using c1 path by (auto simp: no_super_def Let_def)
  from w1 have li1: "links lvl1 ?r (next_ppn pt1) (ent pt1)" by (simp add: wf_def r1)
  have rp: "?r < next_ppn pt1" "?r \<noteq> p" using links_root [OF li1] p by auto
  from nx n1 have n1': "unat (next_ppn pt1) < 2 ^ 54" by simp
  have p': "root_ppn pt1 \<le> p" "lvl1 p = 1" using p r1 by simp_all
  obtain q pt2 lvl2 where d2: "descend ck va [1] p pt1 = descend ck va [] q pt2"
    "wf lvl2 pt2" "root_ppn pt2 = root_ppn pt1"
    "unat (next_ppn pt2) \<le> unat (next_ppn pt1) + 1" "q < next_ppn pt2" "root_ppn pt1 \<le> q"
    "lvl2 q = 0" "valid (ent pt2 p (vpn va 1))" "\<not> leaf (ent pt2 p (vpn va 1))"
    "child (ent pt2 p (vpn va 1)) = q"
    "\<And>w. xl (ent pt2) (root_ppn pt1) w = xl (ent pt1) (root_ppn pt1) w"
    "page_only lvl1 pt1 \<longrightarrow> page_only lvl2 pt2"
    "\<And>s. s < next_ppn pt1 \<Longrightarrow> s \<noteq> p \<Longrightarrow> ent pt2 s = ent pt1 s"
    by (rule descend_level [OF w1 p'(1) p(1) p'(2) _ _ path1 n1', of 0 ck "[]"]) simp_all
  have "ent pt2 ?r = ent pt1 ?r" by (rule d2(13)) (use rp in simp_all)
  with d1 d2 e2 x1 po1 n1 r1 show thesis
    by (intro that [of q pt2 lvl2]) (auto simp: node0_def Let_def)
qed

section \<open>Writing a page's entry\<close>

text \<open>Two addresses that reach the same level-0 node have the same upper indices.\<close>

lemma node0_inj:
  assumes li: "links lvl r nx E" and "node0 E r va = Some q" "node0 E r wa = Some q"
  shows "vpn va 2 = vpn wa 2" "vpn va 1 = vpn wa 1" "r \<le> q" "q < nx" "lvl q = 0"
proof -
  have links2: "is_link lvl r nx E r (vpn a 2)"
    "is_link lvl r nx E (child (E r (vpn a 2))) (vpn a 1)"
    "child (E (child (E r (vpn a 2))) (vpn a 1)) = q" if "node0 E r a = Some q" for a
  proof -
    show l2: "is_link lvl r nx E r (vpn a 2)"
      using that links_root [OF li] by (auto simp: node0_def is_link_def Let_def split: if_splits)
    show "is_link lvl r nx E (child (E r (vpn a 2))) (vpn a 1)"
      using that links_down [OF li l2] links_root [OF li]
      by (auto simp: node0_def is_link_def Let_def split: if_splits)
    show "child (E (child (E r (vpn a 2))) (vpn a 1)) = q"
      using that by (auto simp: node0_def Let_def split: if_splits)
  qed
  note v = links2 [OF assms(2)] and w = links2 [OF assms(3)]
  have "child (E (child (E r (vpn va 2))) (vpn va 1)) = child (E (child (E r (vpn wa 2))) (vpn wa 1))"
    using v(3) w(3) by simp
  note same = links_inj [OF li v(2) w(2) this]
  show "vpn va 1 = vpn wa 1" using same by simp
  show "vpn va 2 = vpn wa 2" using links_inj [OF li v(1) w(1)] same by simp
  show "r \<le> q" "q < nx" "lvl q = 0"
    using links_down [OF li v(2)] links_down [OF li v(1)] links_root [OF li] v(3) by auto
qed

lemma write_level0:
  assumes li: "links lvl r nx E" and q: "node0 E r va = Some q"
    and E': "E' = E(q := (E q)(vpn va 0 := v))"
  shows "links lvl r nx E'"
    and "xl E' r w = (if page w = page va
           then (if valid v \<and> leaf v then Ok (leaf_pa v w 0) else PageFault) else xl E r w)"
proof -
  note q0 = node0_inj(3-5) [OF li q q]
  have same: "E' p j = E p j" if "0 < lvl p" for p j
    using that q0 by (auto simp: E')
  then have il: "is_link lvl r nx E' = is_link lvl r nx E"
    by (auto simp: is_link_def fun_eq_iff)
  have "is_link lvl r nx E p i \<Longrightarrow> E' p i = E p i" for p i
    using same by (simp add: is_link_def)
  then show "links lvl r nx E'"
    using li unfolding links_def il by metis
  have page_eq: "page w = page va \<longleftrightarrow> node0 E r w = Some q \<and> vpn w 0 = vpn va 0"
  proof
    assume "page w = page va"
    then show "node0 E r w = Some q \<and> vpn w 0 = vpn va 0"
      using q by (auto simp: page_def node0_def)
  next
    assume a: "node0 E r w = Some q \<and> vpn w 0 = vpn va 0"
    with node0_inj(1,2) [OF li _ q, of w] show "page w = page va" by (simp add: page_def)
  qed
  have r: "E' r (vpn w 2) = E r (vpn w 2)" using links_root [OF li] by (simp add: same)
  let ?c = "child (E r (vpn w 2))"
  show "xl E' r w = (if page w = page va
           then (if valid v \<and> leaf v then Ok (leaf_pa v w 0) else PageFault) else xl E r w)"
  proof (cases "valid (E r (vpn w 2)) \<and> \<not> leaf (E r (vpn w 2))")
    case False
    then show ?thesis using r page_eq by (auto simp: xl_def node0_def Let_def)
  next
    case True
    then have "is_link lvl r nx E r (vpn w 2)" using links_root [OF li] by (simp add: is_link_def)
    from links_down(3) [OF li this] have "0 < lvl ?c" using links_root [OF li] by simp
    then have c: "E' ?c (vpn w 1) = E ?c (vpn w 1)" by (rule same)
    show ?thesis
      using True r c page_eq by (auto simp: xl_def node0_def Let_def E')
  qed
qed

section \<open>Mapping pages\<close>

text \<open>What the entry that \<^verbatim>\<open>map_page\<close> and \<^verbatim>\<open>map_superpage\<close> write holds, for flags below the PPN field.\<close>

definition leaf_pte :: "u64 \<Rightarrow> u64 \<Rightarrow> u64" where
  "leaf_pte pa flags = push_bit PPN_SHIFT (drop_bit 12 pa) OR flags OR PTE_V"

lemma leaf_pte_props:
  assumes "unat flags < 1024"
  shows "valid (leaf_pte pa flags)" "leaf (leaf_pte pa flags) = leaf flags"
    "child (leaf_pte pa flags) = drop_bit 12 pa"
proof -
  have "flags = take_bit 10 flags"
    using assms by (simp add: word_unat_eq_iff unsigned_take_bit_eq take_bit_nat_eq_self)
  then have f: "bit flags n \<Longrightarrow> n < 10" for n by (metis bit_take_bit_iff)
  have pa: "bit pa n \<Longrightarrow> n < 64" for n by (auto dest: bit_imp_le_length)
  show "valid (leaf_pte pa flags)" "leaf (leaf_pte pa flags) = leaf flags"
    by (auto simp: leaf_pte_def leaf_def PPN_SHIFT_def bit_simps)
  show "child (leaf_pte pa flags) = drop_bit 12 pa"
    by (rule bit_word_eqI) (auto simp: leaf_pte_def child_def PPN_SHIFT_def bit_simps dest: f pa)
qed

text \<open>How a page mapped to \<open>pa\<close> with \<open>flags\<close> answers an address of the page.\<close>

definition resolve :: "u64 \<times> u64 \<Rightarrow> u64 \<Rightarrow> TranslateResult res" where
  "resolve e w = Inr (if leaf (snd e)
     then Ok (push_bit 12 (drop_bit 12 (fst e)) OR (w AND mask 12)) else PageFault)"

lemma map_page_spec:
  assumes w: "wf lvl pt" and path: "no_super pt va" and nx: "unat (next_ppn pt) + 1 < 2 ^ 54"
    and fl: "unat flags < 1024"
  obtains pt' lvl' where "map_page ck pt va pa flags = Inr pt'" "wf lvl' pt'"
    "unat (next_ppn pt') \<le> unat (next_ppn pt) + 2"
    "page_only lvl pt \<longrightarrow> page_only lvl' pt'"
    "\<And>ck w. translate ck pt' w = (if page w = page va then resolve (pa, flags) w else translate ck pt w)"
proof -
  let ?r = "root_ppn pt"
  from descend_spec [OF w path nx, of ck] obtain q pt1 lvl1 where
    d: "descend ck va [2, 1] ?r pt = Inr (q, pt1)" and w1: "wf lvl1 pt1" and r1: "root_ppn pt1 = ?r"
    and n1: "unat (next_ppn pt1) \<le> unat (next_ppn pt) + 2"
    and q: "q < next_ppn pt1" "?r \<le> q" "lvl1 q = 0" "node0 (ent pt1) ?r va = Some q"
    and x1: "\<And>w. xl (ent pt1) ?r w = xl (ent pt) ?r w"
    and po1: "page_only lvl pt \<longrightarrow> page_only lvl1 pt1" by blast
  from w1 have sk1: "skel pt1" and li1: "links lvl1 ?r (next_ppn pt1) (ent pt1)"
    by (auto simp: wf_def r1)
  from write_entry_ent [OF sk1, of q "vpn va 0" "leaf_pte pa flags"] q r1 obtain pt2 where
    pt2: "write_entry pt1 q (vpn va 0) (leaf_pte pa flags) = Inr pt2" "skel pt2"
      "root_ppn pt2 = ?r" "next_ppn pt2 = next_ppn pt1"
      "ent pt2 = (ent pt1)(q := (ent pt1 q)(vpn va 0 := leaf_pte pa flags))" by auto
  note wr = write_level0 [OF li1 q(4) pt2(5)]
  have w2: "wf lvl1 pt2" using wr(1) pt2 by (simp add: wf_def)
  show thesis
  proof (rule that [OF _ w2])
    show "map_page ck pt va pa flags = Inr pt2"
      using d pt2(1) by (simp add: map_page_def leaf_pte_def del: descend.simps)
    show "unat (next_ppn pt2) \<le> unat (next_ppn pt) + 2" using n1 pt2(4) by simp
    show "page_only lvl pt \<longrightarrow> page_only lvl1 pt2"
      using po1 pt2(3-5) r1 q(3) by (auto simp: page_only_def)
    show "translate ck' pt2 w = (if page w = page va then resolve (pa, flags) w else translate ck' pt w)"
      for ck' w
      using wr(2) [of w] x1 leaf_pte_props [OF fl, of pa]
      by (auto simp: translate_xl [OF w2] translate_xl [OF w] pt2(3) resolve_def leaf_pa_def)
  qed
qed

lemma page_only_no_super:
  assumes "wf lvl pt" "page_only lvl pt" shows "no_super pt va"
proof -
  let ?r = "root_ppn pt" and ?nx = "next_ppn pt"
  from assms(1) have li: "links lvl ?r ?nx (ent pt)" by (simp add: wf_def)
  have po: "\<not> (valid (ent pt p i) \<and> leaf (ent pt p i))"
    if "?r \<le> p" "p < ?nx" "0 < lvl p" "i < 512" for p i
    using assms(2) that by (simp add: page_only_def)
  have e2: "\<not> (valid (ent pt ?r (vpn va 2)) \<and> leaf (ent pt ?r (vpn va 2)))"
    using po [of ?r] links_root [OF li] by simp
  moreover have "\<not> (valid e1 \<and> leaf e1)"
    if "valid (ent pt ?r (vpn va 2))" "e1 = ent pt (child (ent pt ?r (vpn va 2))) (vpn va 1)" for e1
  proof -
    have "is_link lvl ?r ?nx (ent pt) ?r (vpn va 2)"
      using that e2 links_root [OF li] by (simp add: is_link_def)
    from links_down [OF li this] show ?thesis using po that links_root [OF li] by auto
  qed
  ultimately show ?thesis by (auto simp: no_super_def Let_def)
qed

lemma new_ent: "i < 512 \<Longrightarrow> ent new 0x80000 i = 0"
  by (simp add: ent_def new_def node_new_def PT_ENTRIES_def word_less_nat_alt)

lemma between_new: "(0x80000 :: u64) \<le> p \<and> p < 0x80001 \<longleftrightarrow> p = 0x80000"
  by (auto simp: word_le_nat_alt word_less_nat_alt word_unat_eq_iff)

lemma wf_new: "wf (\<lambda>_. 2) new" and page_only_new: "page_only (\<lambda>_. 2) new"
proof -
  have "skel new"
    using between_new by (auto simp: skel_def new_def node_new_def PT_ENTRIES_def)
  moreover have "\<not> is_link (\<lambda>_. 2) 0x80000 0x80001 (ent new) p i" for p i
    using between_new [of p] by (auto simp: is_link_def new_ent)
  then have "links (\<lambda>_. 2) 0x80000 0x80001 (ent new)" by (simp add: links_def)
  ultimately show "wf (\<lambda>_. 2) new" by (simp add: wf_def new_def)
  show "page_only (\<lambda>_. 2) new"
    unfolding page_only_def
  proof (intro allI impI)
    fix p i
    assume "root_ppn new \<le> p" "p < next_ppn new" "i < (512 :: usize)"
    then have "p = 0x80000" using between_new [of p] by (simp add: new_def)
    then show "\<not> (valid (ent new p i) \<and> leaf (ent new p i))"
      using \<open>i < 512\<close> by (simp add: new_ent)
  qed
qed

abbreviation map_va :: "bool \<Rightarrow> Sv39PageTable \<Rightarrow> u64 \<Rightarrow> u64 \<times> u64 \<Rightarrow> Sv39PageTable res" where
  "map_va ck pt va e \<equiv> map_page ck pt va (fst e) (snd e)"

definition pages_inv :: "Sv39PageTable \<Rightarrow> bool" where
  "pages_inv pt \<longleftrightarrow> (\<exists>lvl. wf lvl pt \<and> page_only lvl pt)"

interpretation sv39: address_space
    pages_inv "\<lambda>pt n. unat (next_ppn pt) + 2 * n \<le> 2 ^ 54" page "\<lambda>_ e. unat (snd e) < 1024"
    "map_va ck" "translate ck" resolve
  for ck :: bool
proof unfold_locales
  fix pt va and e :: "u64 \<times> u64" and n :: nat
  assume "pages_inv pt" and fl: "unat (snd e) < 1024"
    and room: "unat (next_ppn pt) + 2 * Suc n \<le> 2 ^ 54"
  then obtain lvl where w: "wf lvl pt" "page_only lvl pt" by (auto simp: pages_inv_def)
  from room have nx: "unat (next_ppn pt) + 1 < 2 ^ 54" by simp
  obtain pt' lvl' where "map_va ck pt va e = Inr pt'" "wf lvl' pt'"
    "unat (next_ppn pt') \<le> unat (next_ppn pt) + 2" "page_only lvl pt \<longrightarrow> page_only lvl' pt'"
    "\<And>ck w. translate ck pt' w =
       (if page w = page va then resolve (fst e, snd e) w else translate ck pt w)"
    by (rule map_page_spec [OF w(1) page_only_no_super [OF w, of va] nx fl, where ck = ck and pa = "fst e"])
      (rule that)
  with w(2) room show "\<exists>pt'. map_va ck pt va e = Inr pt' \<and> pages_inv pt' \<and>
      unat (next_ppn pt') + 2 * n \<le> 2 ^ 54 \<and>
      (\<forall>w. translate ck pt' w = (if page w = page va then resolve e w else translate ck pt w))"
    unfolding pages_inv_def by (intro exI [of _ pt']) auto
qed

lemma translate_new_sv39: "translate ck new va = Inr PageFault"
proof -
  have "root_ppn new = 0x80000" by (simp add: new_def)
  then show ?thesis by (simp add: translate_xl [OF wf_new] xl_def new_ent)
qed

text \<open>C1: after any sequence of \<^verbatim>\<open>map_page\<close> calls on a new table (with flags below the PPN field, and
  fewer calls than the allocator has page numbers for) no call panics, and every address
  translates through the latest mapping of its page; a page never mapped faults.\<close>

theorem map_pages_translate:
  assumes "list_all (\<lambda>(va, pa, flags). unat flags < 1024) xs" and "length xs < 2 ^ 52"
  shows "\<exists>pt. map_seq (map_va ck) new xs = Inr pt \<and>
    (\<forall>va. translate ck pt va = latest page resolve (\<lambda>_. Inr PageFault) xs va)"
proof -
  have "pages_inv new" using wf_new page_only_new by (auto simp: pages_inv_def)
  moreover have "unat (next_ppn new) + 2 * length xs \<le> 2 ^ 54" using assms(2) by (simp add: new_def)
  moreover have "translate ck new = (\<lambda>_. Inr PageFault)" by (simp add: fun_eq_iff translate_new_sv39)
  ultimately show ?thesis
    using sv39.map_seq_latest [of new xs ck] assms(1) by (auto simp: case_prod_unfold)
qed

theorem map_pages_translate_witness:
  "\<exists>pt. map_seq (map_va True) new [(0x1000, 0x80001000, 3), (0x1ABC, 0x90002000, 7)] = Inr pt \<and>
     translate True pt 0x1234 = Inr (Ok 0x90002234) \<and> translate True pt 0x3000 = Inr PageFault"
proof -
  have m: "mask 9 = (511 :: u64)" "mask 12 = (4095 :: u64)"
    by (simp_all add: mask_eq_exp_minus_1)
  have "leaf 7" by (simp add: leaf_def bit_numeral_rec)
  then show ?thesis
    using map_pages_translate [of "[(0x1000, 0x80001000, 3), (0x1ABC, 0x90002000, 7)]" True]
    by (auto simp: latest_def page_def vpn_def m resolve_def)
qed

section \<open>Superpages\<close>

lemma write_level1:
  assumes li: "links lvl r nx E" and e2: "is_link lvl r nx E r (vpn va 2)"
    and v: "valid v" "leaf v"
    and E': "E' = E(child (E r (vpn va 2)) := (E (child (E r (vpn va 2))))(vpn va 1 := v))"
  shows "links lvl r nx E'"
    and "xl E' r w = (if vpn w 2 = vpn va 2 \<and> vpn w 1 = vpn va 1
           then Ok (leaf_pa v w 1) else xl E r w)"
proof -
  let ?q = "child (E r (vpn va 2))"
  have q: "lvl ?q = 1" using links_down [OF li e2] links_root [OF li] by simp
  have same: "E' p j = E p j" if "\<not> (p = ?q \<and> j = vpn va 1)" for p j
    using that by (auto simp: E')
  have at: "E' ?q (vpn va 1) = v" by (simp add: E')
  have old: "is_link lvl r nx E p j \<and> E' p j = E p j" if "is_link lvl r nx E' p j" for p j
  proof -
    have "\<not> (p = ?q \<and> j = vpn va 1)" using that at v by (auto simp: is_link_def)
    then show ?thesis using that same by (auto simp: is_link_def)
  qed
  show "links lvl r nx E'"
    using li old unfolding links_def by (metis (no_types, lifting))
  have "lvl ?q \<noteq> lvl r" using q links_root [OF li] by simp
  then have "r \<noteq> ?q" by metis
  then have r: "E' r j = E r j" for j using same by simp
  let ?e = "E r (vpn w 2)"
  show "xl E' r w = (if vpn w 2 = vpn va 2 \<and> vpn w 1 = vpn va 1
           then Ok (leaf_pa v w 1) else xl E r w)"
  proof (cases "valid ?e \<and> \<not> leaf ?e")
    case False
    then have "vpn w 2 \<noteq> vpn va 2" using e2 by (auto simp: is_link_def)
    then show ?thesis using False r by (auto simp: xl_def Let_def)
  next
    case True
    then have l: "is_link lvl r nx E r (vpn w 2)" using links_root [OF li] by (simp add: is_link_def)
    have iff: "child ?e = ?q \<longleftrightarrow> vpn w 2 = vpn va 2"
      using links_inj(2) [OF li l e2] by auto
    show ?thesis
    proof (cases "vpn w 2 = vpn va 2 \<and> vpn w 1 = vpn va 1")
      case eq: True
      then show ?thesis using e2 r at v by (auto simp: xl_def is_link_def Let_def)
    next
      case neq: False
      then have e1: "E' (child ?e) (vpn w 1) = E (child ?e) (vpn w 1)" using same iff by auto
      let ?d = "child (E (child ?e) (vpn w 1))"
      have e0: "E' ?d j = E ?d j"
        if "valid (E (child ?e) (vpn w 1)) \<and> \<not> leaf (E (child ?e) (vpn w 1))" for j
      proof -
        have "is_link lvl r nx E (child ?e) (vpn w 1)"
          using links_down [OF li l] links_root [OF li] that by (simp add: is_link_def)
        from links_down(3) [OF li this] links_down(3) [OF li l] links_root [OF li]
        have "lvl ?d \<noteq> lvl ?q" using q by simp
        then have "?d \<noteq> ?q" by metis
        then show ?thesis using same by simp
      qed
      show ?thesis using neq True r e1 e0 by (auto simp: xl_def Let_def)
    qed
  qed
qed

text \<open>The step of \<^verbatim>\<open>map_superpage\<close> that finds or makes the level-1 node, as the code does it: the
  entry for a new node goes to the page before the new one, which is the root only while no other
  node was allocated.\<close>

definition super_ok :: "Sv39PageTable \<Rightarrow> u64 \<Rightarrow> bool" where
  "super_ok pt va \<longleftrightarrow>
     (let e2 = ent pt (root_ppn pt) (vpn va 2) in
      if valid e2 then \<not> leaf e2 else next_ppn pt = root_ppn pt + 1)"

lemma map_superpage_descend:
  assumes w: "wf lvl pt" and ok: "super_ok pt va" and nx: "unat (next_ppn pt) < 2 ^ 54"
    and al: "va mod 0x200000 = 0" "pa mod 0x200000 = 0"
  shows "map_superpage ck pt va pa flags =
    bind_res (descend ck va [2] (root_ppn pt) pt) (\<lambda>(curr_ppn, pt1).
      write_entry pt1 curr_ppn (vpn va 1) (leaf_pte pa flags))"
proof -
  let ?r = "root_ppn pt"
  from w have sk: "skel pt" and li: "links lvl ?r (next_ppn pt) (ent pt)" by (auto simp: wf_def)
  have rd: "read_entry pt ?r (vpn va 2) = Inr (ent pt ?r (vpn va 2))"
    by (rule read_entry_ent [OF sk]) (use links_root [OF li] in simp_all)
  have "?r < next_ppn pt" using links_root [OF li] by simp
  then obtain pt0 where "alloc_node ck pt = Inr (next_ppn pt, pt0)"
    by (rule alloc_node_ent [OF sk _ nx, of ck])
  with ok rd al show ?thesis
    by (auto simp: map_superpage_def PAGE_SIZE_def PT_ENTRIES_def Let_def super_ok_def and_PTE_sv39 leaf_pte_def child_def
        PPN_SHIFT_def bind_res_def split: sum.splits)
qed

lemma map_superpage_spec:
  assumes w: "wf lvl pt" and ok: "super_ok pt va" and nx: "unat (next_ppn pt) < 2 ^ 54"
    and al: "va mod 0x200000 = 0" "pa mod 0x200000 = 0"
    and fl: "unat flags < 1024" "leaf flags"
  shows "\<exists>pt' lvl'. map_superpage ck pt va pa flags = Inr pt' \<and> wf lvl' pt' \<and>
    (\<forall>w. translate ck pt' w =
       (if vpn w 2 = vpn va 2 \<and> vpn w 1 = vpn va 1 then Inr (Ok (pa OR (w AND mask 21)))
        else translate ck pt w))"
proof -
  let ?r = "root_ppn pt"
  from w have sk: "skel pt" and li: "links lvl ?r (next_ppn pt) (ent pt)" by (auto simp: wf_def)
  note r = links_root [OF li]
  have path: "\<not> (valid (ent pt ?r (vpn va 2)) \<and> leaf (ent pt ?r (vpn va 2)))"
    using ok by (auto simp: super_ok_def Let_def split: if_splits)
  obtain q pt1 lvl1 where
    d: "descend ck va [2] ?r pt = descend ck va [] q pt1"
    and w1: "wf lvl1 pt1" and r1: "root_ppn pt1 = ?r"
    and q: "q < next_ppn pt1" "?r \<le> q" "lvl1 q = 1"
    and e2: "valid (ent pt1 ?r (vpn va 2))" "\<not> leaf (ent pt1 ?r (vpn va 2))"
      "child (ent pt1 ?r (vpn va 2)) = q"
    and x1: "\<And>w. xl (ent pt1) ?r w = xl (ent pt) ?r w"
    by (rule descend_level [OF w order_refl _ _ _ _ path nx, of 1 ck "[]"]) (use r in simp_all)
  from w1 have sk1: "skel pt1" and li1: "links lvl1 ?r (next_ppn pt1) (ent pt1)"
    by (auto simp: wf_def r1)
  let ?v = "leaf_pte pa flags"
  from write_entry_ent [OF sk1, of q "vpn va 1" ?v] q r1 obtain pt2 where
    pt2: "write_entry pt1 q (vpn va 1) ?v = Inr pt2" "skel pt2" "root_ppn pt2 = ?r"
      "next_ppn pt2 = next_ppn pt1" "ent pt2 = (ent pt1)(q := (ent pt1 q)(vpn va 1 := ?v))" by auto
  have l2: "is_link lvl1 ?r (next_ppn pt1) (ent pt1) ?r (vpn va 2)"
    using e2 links_root [OF li1] by (simp add: is_link_def)
  have v: "valid ?v" "leaf ?v" using leaf_pte_props [OF fl(1)] fl(2) by auto
  note wr = write_level1 [OF li1 l2 v pt2(5) [folded e2(3)]]
  have w2: "wf lvl1 pt2" using wr(1) pt2 by (simp add: wf_def)
  have "pa = push_bit 21 (drop_bit 21 pa)"
    using al(2) by (simp add: push_bit_eq_mult drop_bit_eq_div mult.commute flip: minus_mod_eq_mult_div)
  then have "bit pa n \<Longrightarrow> 21 \<le> n" for n by (metis bit_push_bit_iff)
  then have "push_bit 12 (drop_bit 12 pa) = pa"
    by (intro bit_word_eqI) (force simp: bit_simps)
  then have pa: "leaf_pa ?v w 1 = pa OR (w AND mask 21)" for w
    by (simp add: leaf_pa_def leaf_pte_props [OF fl(1)])
  have "map_superpage ck pt va pa flags = Inr pt2"
    using d pt2(1) by (simp add: map_superpage_descend [OF w ok nx al] del: descend.simps(2))
  moreover have "translate ck pt2 w = (if vpn w 2 = vpn va 2 \<and> vpn w 1 = vpn va 1
      then Inr (Ok (pa OR (w AND mask 21))) else translate ck pt w)" for w
    using wr(2) [of w] x1 pa by (simp add: translate_xl [OF w2] translate_xl [OF w] pt2(3))
  ultimately show ?thesis using w2 by blast
qed

text \<open>C21: where the level-2 entry already points to a node, or nothing was allocated yet, a 2MB
  mapping serves every address of its 2MB region with the region's offset of 21 bits, and leaves
  every other translation alone.\<close>

theorem map_superpage_translate:
  assumes "wf lvl pt" "super_ok pt va" "unat (next_ppn pt) < 2 ^ 54"
    and "va mod 0x200000 = 0" "pa mod 0x200000 = 0" "unat flags < 1024" "leaf flags"
  shows "\<exists>pt' lvl'. map_superpage ck pt va pa flags = Inr pt' \<and> wf lvl' pt' \<and>
    (\<forall>w. translate ck pt' w =
       (if vpn w 2 = vpn va 2 \<and> vpn w 1 = vpn va 1 then Inr (Ok (pa OR (w AND mask 21)))
        else translate ck pt w))"
  using assms by (rule map_superpage_spec)

text \<open>A concrete table for the witnesses: one page mapped in a new table, which allocates a level-1
  and a level-0 node.\<close>

definition one_page :: Sv39PageTable where
  "one_page = \<lparr>nodes = [0x80000 \<mapsto> node_new\<lparr>entries := (replicate 512 0)[0 := link 0x80001]\<rparr>,
     0x80001 \<mapsto> node_new\<lparr>entries := (replicate 512 0)[0 := link 0x80002]\<rparr>,
     0x80002 \<mapsto> node_new\<lparr>entries := (replicate 512 0)[1 := leaf_pte 0x80001000 3]\<rparr>],
     root_ppn = 0x80000, next_ppn = 0x80003\<rparr>"

lemma one_page_map: "map_page ck new 0x1000 0x80001000 3 = Inr one_page"
proof -
  have m: "mask 9 = (511 :: u64)" "mask 12 = (4095 :: u64)"
    by (simp_all add: mask_eq_exp_minus_1)
  show ?thesis
    by (simp add: map_page_def one_page_def new_def node_new_def PT_ENTRIES_def PTE_V_def link_def
        leaf_pte_def PPN_SHIFT_def alloc_node_def add_ck_def read_entry_def write_entry_def vpn_def
        m nth_list_update Let_def fun_upd_twist)
qed

lemma one_page_wf:
  obtains lvl where "wf lvl one_page" "page_only lvl one_page"
proof -
  have "no_super new va" for va by (rule page_only_no_super [OF wf_new page_only_new])
  moreover have "unat (next_ppn new) + 1 < 2 ^ 54" by (simp add: new_def)
  moreover have "unat (3 :: u64) < 1024" by simp
  ultimately obtain pt lvl where "map_page True new 0x1000 0x80001000 3 = Inr pt" "wf lvl pt"
    "page_only (\<lambda>_. 2) new \<longrightarrow> page_only lvl pt"
    using map_page_spec [OF wf_new, where ck = True and va = "0x1000" and pa = "0x80001000"] by metis
  with page_only_new show thesis by (intro that [of lvl]) (auto simp: one_page_map)
qed

theorem map_superpage_translate_witness:
  "\<exists>pt'. map_superpage True new 0x200000 0x80200000 7 = Inr pt' \<and>
     translate True pt' 0x2FF123 = Inr (Ok 0x802FF123)"
proof -
  have m: "mask 9 = (511 :: u64)" "mask 21 = (0x1FFFFF :: u64)"
    by (simp_all add: mask_eq_exp_minus_1)
  have "root_ppn new = 0x80000" "next_ppn new = 0x80001" by (simp_all add: new_def)
  then have "super_ok new 0x200000" by (simp add: super_ok_def new_ent)
  moreover have "unat (next_ppn new) < 2 ^ 54" by (simp add: new_def)
  moreover have "leaf 7" by (simp add: leaf_def bit_numeral_rec)
  ultimately obtain pt' where "map_superpage True new 0x200000 0x80200000 7 = Inr pt'"
    "\<forall>w. translate True pt' w =
       (if vpn w 2 = vpn 0x200000 2 \<and> vpn w 1 = vpn 0x200000 1
        then Inr (Ok (0x80200000 OR (w AND mask 21))) else translate True new w)"
    using map_superpage_translate [OF wf_new, of "0x200000" "0x80200000" 7 True] by auto
  then show ?thesis by (auto simp: vpn_def m)
qed

text \<open>C22: otherwise the mapping is lost. With an empty level-2 entry and a table that has allocated
  any node, \<^verbatim>\<open>map_superpage\<close> returns normally and the address it mapped still faults: the entry for
  the new level-1 node went to the page before it, which is not the root.\<close>

theorem map_superpage_lost:
  assumes w: "wf lvl pt" and e2: "\<not> valid (ent pt (root_ppn pt) (vpn va 2))"
    and used: "next_ppn pt \<noteq> root_ppn pt + 1" and nx: "unat (next_ppn pt) < 2 ^ 54"
    and al: "va mod 0x200000 = 0" "pa mod 0x200000 = 0"
  shows "\<exists>pt'. map_superpage ck pt va pa flags = Inr pt' \<and> translate ck pt' va = Inr PageFault \<and>
    ent pt' (next_ppn pt - 1) (vpn va 2) = link (next_ppn pt)"
proof -
  let ?r = "root_ppn pt" and ?nx = "next_ppn pt"
  from w have sk: "skel pt" and li: "links lvl ?r ?nx (ent pt)" by (auto simp: wf_def)
  note r = links_root [OF li]
  have rd: "read_entry pt ?r (vpn va 2) = Inr (ent pt ?r (vpn va 2))"
    by (rule read_entry_ent [OF sk]) (use r in simp_all)
  have rlt: "?r < ?nx" using r by simp
  obtain pt0 where
    pt0: "alloc_node ck pt = Inr (?nx, pt0)" "skel pt0" "root_ppn pt0 = ?r"
      "next_ppn pt0 = ?nx + 1" "\<And>q. q \<noteq> ?nx \<Longrightarrow> ent pt0 q = ent pt q"
    by (rule alloc_node_ent [OF sk rlt nx, of ck]) (rule that)
  have n1: "unat (?nx - 1) = unat ?nx - 1" "0 < unat ?nx"
    using r by (auto simp: word_less_nat_alt unat_sub_if' unat_1)
  have n2: "unat (?nx + 1) = unat ?nx + 1" using nx by (subst unat_add_in_range) auto
  have "?nx - 1 \<noteq> ?r" using used by (metis diff_add_cancel)
  then have prev: "?r \<le> ?nx - 1" "?nx - 1 < ?nx + 1" "?nx - 1 \<noteq> ?nx" "?nx - 1 \<noteq> ?r"
    using r n1 n2 by (auto simp: word_le_nat_alt word_less_nat_alt)
  from write_entry_ent [OF pt0(2), of "?nx - 1" "vpn va 2" "link ?nx"] prev pt0(3,4) obtain pt1 where
    pt1: "write_entry pt0 (?nx - 1) (vpn va 2) (link ?nx) = Inr pt1" "skel pt1" "root_ppn pt1 = ?r"
      "next_ppn pt1 = ?nx + 1"
      "ent pt1 = (ent pt0)(?nx - 1 := (ent pt0 (?nx - 1))(vpn va 2 := link ?nx))" by auto
  have "?r \<le> ?nx" using rlt by (rule order_less_imp_le)
  with write_entry_ent [OF pt1(2), of ?nx "vpn va 1" "leaf_pte pa flags"] pt1(3,4)
  obtain pt2 where
    pt2: "write_entry pt1 ?nx (vpn va 1) (leaf_pte pa flags) = Inr pt2" "skel pt2"
      "root_ppn pt2 = ?r" "next_ppn pt2 = ?nx + 1"
      "ent pt2 = (ent pt1)(?nx := (ent pt1 ?nx)(vpn va 1 := leaf_pte pa flags))"
    by (auto simp: less_Suc_word [OF nx])
  have "map_superpage ck pt va pa flags = Inr pt2"
    using rd e2 al pt0(1) pt1(1) pt2(1)
    by (simp add: map_superpage_def PAGE_SIZE_def PT_ENTRIES_def Let_def and_PTE_sv39 leaf_pte_def link_def)
  moreover have "ent pt2 ?r = ent pt ?r" using prev r pt0(5) pt1(5) pt2(5) by auto
  then have "translate ck pt2 va = Inr PageFault"
    using ent_walk [OF pt2(2), of ?r 2 ck va "[1, 0]"] r e2 pt2(3,4)
    by (simp add: translate_def Let_def less_Suc_word [OF nx] del: walk.simps)
  moreover have "ent pt2 (?nx - 1) (vpn va 2) = link ?nx" using prev pt1(5) pt2(5) by auto
  ultimately show ?thesis by blast
qed

theorem map_superpage_lost_witness:
  "\<exists>pt'. map_superpage True one_page 0x40000000 0x80200000 3 = Inr pt' \<and>
     translate True pt' 0x40000000 = Inr PageFault"
proof -
  obtain lvl where w: "wf lvl one_page" by (rule one_page_wf)
  have m: "mask 9 = (511 :: u64)" by (simp add: mask_eq_exp_minus_1)
  have v: "\<not> valid (ent one_page (root_ppn one_page) (vpn 0x40000000 2))"
    by (simp add: one_page_def ent_def vpn_def m nth_list_update)
  have n: "next_ppn one_page \<noteq> root_ppn one_page + 1" "unat (next_ppn one_page) < 2 ^ 54"
    by (simp_all add: one_page_def)
  show ?thesis
    using map_superpage_lost [OF w v n, of "0x80200000" True 3] by auto
qed

text \<open>And it can destroy a mapping: here the entry of the page at \<^verbatim>\<open>0x1000\<close> is overwritten.\<close>

theorem map_superpage_corrupts:
  "\<exists>pt1 pt2. map_page True new 0x1000 0x80001000 3 = Inr pt1 \<and>
     translate True pt1 0x1000 = Inr (Ok 0x80001000) \<and>
     map_superpage True pt1 0x40000000 0x80200000 3 = Inr pt2 \<and>
     translate True pt2 0x40000000 = Inr PageFault \<and> translate True pt2 0x1000 = Inr PageFault"
proof -
  have m: "mask 9 = (511 :: u64)" "mask 12 = (4095 :: u64)"
    by (simp_all add: mask_eq_exp_minus_1)
  note ev = new_def node_new_def PT_ENTRIES_def PAGE_SIZE_def PTE_V_def PTE_R_def PTE_W_def
    PTE_X_def PPN_SHIFT_def alloc_node_def add_ck_def read_entry_def write_entry_def vpn_def m
    nth_list_update Let_def
  show ?thesis
    by (simp add: map_page_def translate_def map_superpage_def ev)
qed

text \<open>\<^verbatim>\<open>map_page\<close> inside a superpage does not look at the leaf bits: it takes the superpage's
  frame for a page table page, and panics when no such page exists.\<close>

theorem map_page_in_superpage:
  assumes w: "wf lvl pt"
    and e2: "valid (ent pt (root_ppn pt) (vpn va 2))" "\<not> leaf (ent pt (root_ppn pt) (vpn va 2))"
    and e1: "e1 = ent pt (child (ent pt (root_ppn pt) (vpn va 2))) (vpn va 1)"
    and sup: "valid e1" "leaf e1" "nodes pt (child e1) = None"
  shows "map_page ck pt va pa flags = Inl UnwrapNone"
proof -
  let ?r = "root_ppn pt"
  from w have sk: "skel pt" and li: "links lvl ?r (next_ppn pt) (ent pt)" by (auto simp: wf_def)
  note r = links_root [OF li]
  have l2: "is_link lvl ?r (next_ppn pt) (ent pt) ?r (vpn va 2)" using e2 r by (simp add: is_link_def)
  note c = links_down [OF li l2]
  have "read_entry pt ?r (vpn va 2) = Inr (ent pt ?r (vpn va 2))"
    by (rule read_entry_ent [OF sk]) (use r in simp_all)
  moreover have "read_entry pt (child (ent pt ?r (vpn va 2))) (vpn va 1) = Inr e1"
    unfolding e1 by (rule read_entry_ent [OF sk]) (use c in simp_all)
  ultimately show ?thesis
    using e2 sup by (simp add: map_page_def and_PTE_sv39 child_def PPN_SHIFT_def write_entry_def)
qed

theorem map_page_in_superpage_witness:
  "\<exists>pt. map_superpage True new 0 0x80200000 3 = Inr pt \<and>
     map_page True pt 0x1000 0x90000000 3 = Inl UnwrapNone"
proof -
  have m: "mask 9 = (511 :: u64)" by (simp add: mask_eq_exp_minus_1)
  have "root_ppn new = 0x80000" "next_ppn new = 0x80001" by (simp_all add: new_def)
  then have "super_ok new 0" by (simp add: super_ok_def new_ent)
  moreover have "unat (next_ppn new) < 2 ^ 54" by (simp add: new_def)
  moreover have "leaf 3" by (simp add: leaf_def bit_numeral_rec)
  ultimately obtain pt' lvl where s: "map_superpage True new 0 0x80200000 3 = Inr pt'" "wf lvl pt'"
    using map_superpage_spec [OF wf_new, of 0 "0x80200000" 3 True] by auto
  have pt: "pt' = \<lparr>nodes = [0x80000 \<mapsto> node_new\<lparr>entries := (replicate 512 0)[0 := link 0x80001]\<rparr>,
     0x80001 \<mapsto> node_new\<lparr>entries := (replicate 512 0)[0 := leaf_pte 0x80200000 3]\<rparr>],
     root_ppn = 0x80000, next_ppn = 0x80002\<rparr>"
    using s(1) by (simp add: map_superpage_def new_def node_new_def PT_ENTRIES_def PAGE_SIZE_def
        PTE_V_def link_def leaf_pte_def PPN_SHIFT_def alloc_node_def add_ck_def read_entry_def
        write_entry_def vpn_def m Let_def fun_upd_twist)
  have l: "unat (0x80001 :: u64) < 2 ^ 54" "unat (3 :: u64) < 1024" "leaf 3"
    by (simp_all add: leaf_def bit_numeral_rec)
  show ?thesis
    using map_page_in_superpage [OF s(2), of "0x1000" _ True "0x90000000" 3] s(1) l(1)
    by (simp add: pt ent_def vpn_def m link_props leaf_pte_props [OF l(2)] l(3))
qed

end
