(* ===== verification/Sv39Types.thy ===== *)
theory Sv39Types
  imports Sv39PageTable
begin

text \<open>
  Type soundness of the three-level page table: whatever is mapped, with whatever flags and in
  whatever order, the nodes keep their shape, and the ways an operation can go wrong are
  known. In particular no index is ever out of bounds, and \<^verbatim>\<open>translate\<close> never panics.
\<close>

section \<open>Sequences of mappings\<close>

datatype mapping = Page u64 u64 u64 | Superpage u64 u64 u64

fun map_one :: "bool \<Rightarrow> Sv39PageTable \<Rightarrow> mapping \<Rightarrow> Sv39PageTable res" where
  "map_one ck pt (Page va pa flags) = map_page ck pt va pa flags"
| "map_one ck pt (Superpage va pa flags) = map_superpage ck pt va pa flags"

fun map_all :: "bool \<Rightarrow> Sv39PageTable \<Rightarrow> mapping list \<Rightarrow> Sv39PageTable res" where
  "map_all ck pt [] = Inr pt"
| "map_all ck pt (x # xs) = bind_res (map_one ck pt x) (\<lambda>pt. map_all ck pt xs)"

fun is_superpage :: "mapping \<Rightarrow> bool" where
  "is_superpage (Page va pa flags) = False"
| "is_superpage (Superpage va pa flags) = True"

fun misaligned :: "mapping \<Rightarrow> bool" where
  "misaligned (Page va pa flags) = False"
| "misaligned (Superpage va pa flags) = (va mod 0x200000 \<noteq> 0 \<or> pa mod 0x200000 \<noteq> 0)"

section \<open>Computations with known failures\<close>

text \<open>The computation fails only with a panic in \<open>E\<close>, and otherwise yields \<open>Q\<close>.\<close>

definition safe :: "panic set \<Rightarrow> 'a res \<Rightarrow> ('a \<Rightarrow> bool) \<Rightarrow> bool" where
  "safe E m Q = (case m of Inl e \<Rightarrow> e \<in> E | Inr x \<Rightarrow> Q x)"

lemma safe_simps [simp]: "safe E (Inl e) Q \<longleftrightarrow> e \<in> E" "safe E (Inr x) Q \<longleftrightarrow> Q x"
  by (simp_all add: safe_def)

lemma safe_bind: "safe E m P \<Longrightarrow> (\<And>x. P x \<Longrightarrow> safe E (f x) Q) \<Longrightarrow> safe E (bind_res m f) Q"
  by (cases m) simp_all

lemma safe_mono: "safe E m P \<Longrightarrow> E \<subseteq> F \<Longrightarrow> (\<And>x. P x \<Longrightarrow> Q x) \<Longrightarrow> safe F m Q"
  by (cases m) auto

section \<open>The shape of a table\<close>

text \<open>The nodes are the pages from the root up to the next free one, each with 512 entries.\<close>

definition typed :: "Sv39PageTable \<Rightarrow> bool" where
  "typed pt \<longleftrightarrow> skel pt \<and> root_ppn pt < next_ppn pt"

definition typed_below :: "nat \<Rightarrow> Sv39PageTable \<Rightarrow> bool" where
  "typed_below n pt \<longleftrightarrow> typed pt \<and> unat (next_ppn pt) \<le> n"

lemma typed_read:
  assumes "typed pt" "i < 512"
  shows "safe {UnwrapNone} (read_entry pt p i) (\<lambda>_. True)"
  using assms read_entry_ent [of pt p i] unfolding typed_def
  by (cases "root_ppn pt \<le> p \<and> p < next_ppn pt") (auto simp: skel_def read_entry_def)

lemma typed_write:
  assumes "typed_below n pt" "i < 512"
  shows "safe {UnwrapNone} (write_entry pt p i v) (typed_below n)"
proof (cases "root_ppn pt \<le> p \<and> p < next_ppn pt")
  case True
  with assms obtain pt' where "write_entry pt p i v = Inr pt'" "skel pt'"
    "root_ppn pt' = root_ppn pt" "next_ppn pt' = next_ppn pt"
    using write_entry_ent [of pt p i v] unfolding typed_below_def typed_def by metis
  then show ?thesis using assms by (simp add: typed_below_def typed_def)
next
  case False
  then have "nodes pt p = None" using assms unfolding typed_below_def typed_def skel_def by blast
  then show ?thesis by (simp add: write_entry_def)
qed

lemma typed_alloc:
  assumes "typed_below n pt" "n < 2 ^ 54"
    and "\<And>p pt1. typed_below (Suc n) pt1 \<Longrightarrow> safe E (f (p, pt1)) Q"
  shows "safe E (bind_res (alloc_node ck pt) f) Q"
proof -
  have nx: "unat (next_ppn pt) < 2 ^ 54" using assms by (simp add: typed_below_def)
  obtain pt1 where pt1: "alloc_node ck pt = Inr (next_ppn pt, pt1)" "skel pt1"
    "root_ppn pt1 = root_ppn pt" "next_ppn pt1 = next_ppn pt + 1"
    using assms alloc_node_ent [OF _ _ nx, of ck] unfolding typed_below_def typed_def by metis
  moreover have "unat (next_ppn pt + 1) = unat (next_ppn pt) + 1"
    using nx by (subst unat_add_in_range) auto
  ultimately have "typed_below (Suc n) pt1"
    using assms less_Suc_word [OF nx] by (auto simp: typed_below_def typed_def)
  then show ?thesis using pt1(1) assms(3) by simp
qed

lemma typed_below_mono: "typed_below n pt \<Longrightarrow> n \<le> m \<Longrightarrow> typed_below m pt"
  by (simp add: typed_below_def)

lemma typed_descend:
  assumes "typed_below n pt" "n + length levels < 2 ^ 54" "list_all (\<lambda>l. l \<le> 2) levels"
  shows "safe {UnwrapNone} (descend ck va levels p pt) (\<lambda>(q, pt'). typed_below (n + length levels) pt')"
  using assms
proof (induction levels arbitrary: n p pt)
  case (Cons level levels)
  then have lv: "level \<le> 2" and n: "n < 2 ^ 54" by simp_all
  have rd: "safe {UnwrapNone} (read_entry pt p (vpn va level)) (\<lambda>_. True)"
    using Cons.prems by (intro typed_read) (simp_all add: typed_below_def)
  have fresh: "safe {UnwrapNone}
      (bind_res (alloc_node ck pt) (\<lambda>(new_ppn, pt1).
         bind_res (write_entry pt1 p (vpn va level) (push_bit PPN_SHIFT new_ppn OR PTE_V)) (\<lambda>pt2.
           descend ck va levels new_ppn pt2)))
      (\<lambda>(q, pt'). typed_below (n + length (level # levels)) pt')"
  proof (rule typed_alloc [OF Cons.prems(1) n], unfold prod.case, rule safe_bind [OF typed_write])
    show "safe {UnwrapNone} (descend ck va levels q pt2)
        (\<lambda>(q, pt'). typed_below (n + length (level # levels)) pt')" if "typed_below (Suc n) pt2" for q pt2
      using Cons.IH [OF that, of q] Cons.prems by simp
  qed simp_all
  have old: "safe {UnwrapNone} (descend ck va levels q pt)
      (\<lambda>(q, pt'). typed_below (n + length (level # levels)) pt')" for q
    by (rule safe_mono [OF Cons.IH [OF Cons.prems(1), of q]])
      (use Cons.prems in \<open>auto intro: typed_below_mono\<close>)
  from lv show ?case using fresh old by (auto intro!: safe_bind [OF rd])
qed simp

lemma typed_map_page:
  assumes "typed_below n pt" "n + 2 < 2 ^ 54"
  shows "safe {UnwrapNone} (map_page ck pt va pa flags) (typed_below (n + 2))"
  unfolding map_page_def
proof (rule safe_bind)
  show "safe {UnwrapNone} (descend ck va [2, 1] (root_ppn pt) pt) (\<lambda>(q, pt'). typed_below (n + 2) pt')"
    using typed_descend [OF assms(1), of "[2, 1]" ck va "root_ppn pt"] assms(2) by simp
qed (auto intro: typed_write)

lemma typed_map_superpage:
  assumes "typed_below n pt" "n + 2 < 2 ^ 54"
  shows "safe (if misaligned (Superpage va pa flags) then {AssertFailed} else {UnwrapNone})
    (map_superpage ck pt va pa flags) (typed_below (n + 2))"
proof (cases "misaligned (Superpage va pa flags)")
  case True
  then show ?thesis by (auto simp: map_superpage_def PAGE_SIZE_def PT_ENTRIES_def Let_def)
next
  case False
  have n: "n < 2 ^ 54" using assms(2) by simp
  have "safe {UnwrapNone}
    (bind_res (alloc_node ck pt) (\<lambda>(curr_ppn, pt1).
       bind_res (write_entry pt1 (curr_ppn - 1) (vpn va 2) (push_bit PPN_SHIFT curr_ppn OR PTE_V))
         (\<lambda>pt2. Inr (curr_ppn, pt2)))) (\<lambda>(q, pt'). typed_below (n + 2) pt')"
    by (rule typed_alloc [OF assms(1) n], unfold prod.case, rule safe_bind [OF typed_write])
      (auto intro: typed_below_mono)
  moreover have "typed_below (n + 2) pt" using assms(1) by (rule typed_below_mono) simp
  ultimately have level1: "safe {UnwrapNone}
    (if pte2 AND PTE_V = 0 then
       bind_res (alloc_node ck pt) (\<lambda>(curr_ppn, pt1).
         bind_res (write_entry pt1 (curr_ppn - 1) (vpn va 2) (push_bit PPN_SHIFT curr_ppn OR PTE_V))
           (\<lambda>pt2. Inr (curr_ppn, pt2)))
     else Inr (drop_bit PPN_SHIFT pte2, pt)) (\<lambda>(q, pt'). typed_below (n + 2) pt')" for pte2
    by simp
  have "safe {UnwrapNone} (read_entry pt (root_ppn pt) (vpn va 2)) (\<lambda>_. True)"
    using assms(1) by (intro typed_read) (simp_all add: typed_below_def)
  moreover have "map_superpage ck pt va pa flags =
    bind_res (read_entry pt (root_ppn pt) (vpn va 2)) (\<lambda>pte2.
    bind_res
      (if pte2 AND PTE_V = 0 then
         bind_res (alloc_node ck pt) (\<lambda>(curr_ppn, pt1).
           bind_res (write_entry pt1 (curr_ppn - 1) (vpn va 2) (push_bit PPN_SHIFT curr_ppn OR PTE_V))
             (\<lambda>pt2. Inr (curr_ppn, pt2)))
       else Inr (drop_bit PPN_SHIFT pte2, pt)) (\<lambda>(curr_ppn, pt1).
    write_entry pt1 curr_ppn (vpn va 1) (push_bit PPN_SHIFT (drop_bit 12 pa) OR flags OR PTE_V)))"
    using False by (simp add: map_superpage_def PAGE_SIZE_def PT_ENTRIES_def Let_def)
  ultimately have "safe {UnwrapNone} (map_superpage ck pt va pa flags) (typed_below (n + 2))"
    by (simp only:, elim safe_bind, intro safe_bind [OF level1]) (auto intro: typed_write)
  then show ?thesis using False by simp
qed

text \<open>A walk reads nodes of 512 entries only, so that it always has an answer.\<close>

lemma typed_walk:
  assumes "skel pt" "list_all (\<lambda>l. l \<le> 2) levels"
  shows "\<exists>r. walk ck pt va levels p = Inr r"
  using assms(2)
proof (induction levels arbitrary: p)
  case (Cons level levels)
  have "length (entries n) = 512" if "nodes pt p = Some n" for n
    using assms(1) that by (simp add: skel_def)
  then show ?case using Cons unat_vpn [of va level] by (auto simp: Let_def split: option.splits)
qed simp

lemma typed_translate: "typed pt \<Longrightarrow> \<exists>r. translate ck pt va = Inr r"
  unfolding translate_def typed_def by (intro typed_walk) auto

section \<open>Tables of pages alone\<close>

text \<open>Without superpages the levels of the nodes are as they should be, whatever the flags are.\<close>

lemma pages_inv_map_page:
  assumes "pages_inv pt" "unat (next_ppn pt) + 1 < 2 ^ 54"
  shows "\<exists>pt'. map_page ck pt va pa flags = Inr pt' \<and> pages_inv pt'"
proof -
  let ?r = "root_ppn pt"
  from assms(1) obtain lvl where w: "wf lvl pt" and po: "page_only lvl pt" by (auto simp: pages_inv_def)
  obtain q pt1 lvl1 where
    d: "descend ck va [2, 1] ?r pt = Inr (q, pt1)" and w1: "wf lvl1 pt1" and r1: "root_ppn pt1 = ?r"
    and "unat (next_ppn pt1) \<le> unat (next_ppn pt) + 2"
    and q: "q < next_ppn pt1" "?r \<le> q" "lvl1 q = 0" "node0 (ent pt1) ?r va = Some q"
    and "\<And>w. xl (ent pt1) ?r w = xl (ent pt) ?r w"
    and po1: "page_only lvl pt \<longrightarrow> page_only lvl1 pt1"
    by (rule descend_spec [OF w page_only_no_super [OF w po, of va] assms(2), of ck]) (rule that)
  from w1 have sk1: "skel pt1" and li1: "links lvl1 ?r (next_ppn pt1) (ent pt1)"
    by (auto simp: wf_def r1)
  from write_entry_ent [OF sk1, of q "vpn va 0" "leaf_pte pa flags"] q r1 obtain pt2 where
    pt2: "write_entry pt1 q (vpn va 0) (leaf_pte pa flags) = Inr pt2" "skel pt2"
      "root_ppn pt2 = ?r" "next_ppn pt2 = next_ppn pt1"
      "ent pt2 = (ent pt1)(q := (ent pt1 q)(vpn va 0 := leaf_pte pa flags))" by auto
  have "wf lvl1 pt2" using write_level0(1) [OF li1 q(4) pt2(5)] pt2 by (simp add: wf_def)
  moreover have "page_only lvl1 pt2" using po po1 pt2(3-5) r1 q(3) by (auto simp: page_only_def)
  moreover have "map_page ck pt va pa flags = Inr pt2"
    using d pt2(1) by (simp add: map_page_def leaf_pte_def del: descend.simps)
  ultimately show ?thesis by (auto simp: pages_inv_def)
qed

section \<open>Type soundness\<close>

text \<open>The panics a sequence of mappings can end with.\<close>

definition map_panics :: "mapping list \<Rightarrow> panic set" where
  "map_panics xs =
     (if \<exists>x \<in> set xs. misaligned x then {AssertFailed} else {}) \<union>
     (if \<exists>x \<in> set xs. is_superpage x then {UnwrapNone} else {})"

lemma map_all_typed:
  assumes "typed_below n pt" "n + 2 * length xs < 2 ^ 54" "list_ex is_superpage (ys @ xs) \<or> pages_inv pt"
  shows "safe (map_panics (ys @ xs)) (map_all ck pt xs) typed"
  using assms
proof (induction xs arbitrary: n pt ys)
  case Nil
  then show ?case by (simp add: typed_below_def)
next
  case (Cons x xs)
  have n: "n + 2 < 2 ^ 54" using Cons.prems(2) by simp
  have one: "safe (map_panics (ys @ x # xs)) (map_one ck pt x)
      (\<lambda>pt'. typed_below (n + 2) pt' \<and> (list_ex is_superpage ((ys @ [x]) @ xs) \<or> pages_inv pt'))"
  proof (cases x)
    case (Page va pa flags)
    have t: "safe {UnwrapNone} (map_one ck pt x) (typed_below (n + 2))"
      using typed_map_page [OF Cons.prems(1) n] Page by simp
    show ?thesis
    proof (cases "list_ex is_superpage ((ys @ [x]) @ xs)")
      case True
      then have "UnwrapNone \<in> map_panics (ys @ x # xs)" by (auto simp: map_panics_def list_ex_iff)
      with True show ?thesis by (intro safe_mono [OF t]) auto
    next
      case False
      then have "pages_inv pt" using Cons.prems(3) by simp
      moreover have "unat (next_ppn pt) + 1 < 2 ^ 54" using Cons.prems(1) n by (simp add: typed_below_def)
      ultimately obtain pt' where "map_one ck pt x = Inr pt'" "pages_inv pt'"
        using pages_inv_map_page [of pt ck va pa flags] Page by auto
      with t show ?thesis by simp
    qed
  next
    case (Superpage va pa flags)
    have "(if misaligned x then {AssertFailed} else {UnwrapNone}) \<subseteq> map_panics (ys @ x # xs)"
      using Superpage by (auto simp: map_panics_def)
    from safe_mono [OF typed_map_superpage [OF Cons.prems(1) n, of va pa flags ck, folded Superpage] this] show ?thesis
      using Superpage by simp
  qed
  show ?case unfolding map_all.simps
    by (rule safe_bind [OF one])
      (use Cons.IH [of "n + 2" _ "ys @ [x]"] Cons.prems(2) in auto)
qed

text \<open>C9: Whatever sequence of mappings is made of a new table, it either ends with a table whose nodes have
  their shape, on which no translation panics, or panics in one of two ways: the alignment
  assertion of \<^verbatim>\<open>map_superpage\<close>, when some superpage is misaligned, or the \<^verbatim>\<open>unwrap\<close> of a missing node, when
  there is some superpage. No index is out of bounds, no arithmetic overflows, and pages alone
  never panic, whatever their flags.\<close>

theorem sv39_type_sound:
  assumes "length xs < 2 ^ 52"
  shows "(case map_all ck new xs of
      Inl e \<Rightarrow>
        (e = AssertFailed \<and> (\<exists>x \<in> set xs. misaligned x)) \<or>
        (e = UnwrapNone \<and> (\<exists>x \<in> set xs. is_superpage x))
    | Inr pt \<Rightarrow> typed pt \<and> (\<forall>va. \<exists>r. translate ck pt va = Inr r))"
proof -
  have "typed_below 0x80001 new" using page_only_new wf_new by (auto simp: typed_below_def typed_def wf_def new_def)
  moreover have "pages_inv new" using wf_new page_only_new by (auto simp: pages_inv_def)
  moreover have "0x80001 + 2 * length xs < 2 ^ 54" using assms by simp
  ultimately have "safe (map_panics xs) (map_all ck new xs) typed"
    using map_all_typed [of "0x80001" new xs "[]" ck] by simp
  then show ?thesis
    by (auto simp: safe_def map_panics_def intro: typed_translate split: sum.splits if_splits)
qed

theorem sv39_type_sound_witness:
  "\<exists>pt. map_all True new [Page 0x1000 0x80001000 3] = Inr pt \<and> typed pt \<and>
     (\<forall>va. \<exists>r. translate True pt va = Inr r)"
  using sv39_type_sound [of "[Page 0x1000 0x80001000 3]" True] by (simp add: one_page_map)

end
