(* ===== verification/TranslationCache.thy ===== *)
theory TranslationCache
  imports Prelude
begin

text \<open>
  The contract between the MMU and its TLB: a cache that returns what was last filled in for a key,
  may forget any other key when it fills one, and never makes up a binding. The client is a cached
  read: with a cache whose bindings all agree with the backing table, it returns exactly what the
  table holds, whatever the cache has forgotten.
\<close>

text \<open>Every binding of the cache is a binding of the table.\<close>

definition coherent :: "('c \<Rightarrow> 'k \<Rightarrow> 'v option) \<Rightarrow> 'c \<Rightarrow> ('k \<Rightarrow> 'v option) \<Rightarrow> bool" where
  "coherent get c table \<longleftrightarrow> (\<forall>k v. get c k = Some v \<longrightarrow> table k = Some v)"

text \<open>One cache state knows no more than another.\<close>

definition forgets :: "('c \<Rightarrow> 'k \<Rightarrow> 'v option) \<Rightarrow> 'c \<Rightarrow> 'c \<Rightarrow> bool" where
  "forgets get c' c \<longleftrightarrow> (\<forall>k. get c' k = None \<or> get c' k = get c k)"

text \<open>Reading through the cache: a hit is the answer; on a miss the table is walked and a table hit
  is filled in.\<close>

definition cached_read ::
  "('c \<Rightarrow> 'k \<Rightarrow> 'v option) \<Rightarrow> ('c \<Rightarrow> 'k \<Rightarrow> 'v \<Rightarrow> 'c) \<Rightarrow> ('k \<Rightarrow> 'v option) \<Rightarrow> 'c \<Rightarrow> 'k \<Rightarrow> 'v option \<times> 'c" where
  "cached_read get fill table c k =
     (case get c k of Some v \<Rightarrow> (Some v, c)
      | None \<Rightarrow> (case table k of Some v \<Rightarrow> (Some v, fill c k v) | None \<Rightarrow> (None, c)))"

locale translation_cache =
  fixes inv :: "'c \<Rightarrow> bool"
    and get :: "'c \<Rightarrow> 'k \<Rightarrow> 'v option"
    and fill :: "'c \<Rightarrow> 'k \<Rightarrow> 'v \<Rightarrow> 'c"
  assumes fill_inv: "inv c \<Longrightarrow> inv (fill c k v)"
    and get_fill: "inv c \<Longrightarrow> get (fill c k v) k = Some v"
    and get_fill_other:
      "inv c \<Longrightarrow> j \<noteq> k \<Longrightarrow> get (fill c k v) j = None \<or> get (fill c k v) j = get c j"
begin

lemma coherent_fill:
  assumes "inv c" "coherent get c table" "table k = Some v"
  shows "coherent get (fill c k v) table"
  unfolding coherent_def
proof (intro allI impI)
  fix j w
  assume j: "get (fill c k v) j = Some w"
  show "table j = Some w"
  proof (cases "j = k")
    case True
    then show ?thesis using j get_fill [OF assms(1)] assms(3) by simp
  next
    case False
    then have "get c j = Some w" using j get_fill_other [OF assms(1) False, of v] by auto
    then show ?thesis using assms(2) by (simp add: coherent_def)
  qed
qed

lemma coherent_forget:
  "forgets get c' c \<Longrightarrow> coherent get c table \<Longrightarrow> coherent get c' table"
  unfolding coherent_def forgets_def by (metis option.distinct(1))

text \<open>The table may grow by keys it did not have.\<close>

lemma coherent_extend:
  "coherent get c table \<Longrightarrow> (\<And>k v. table k = Some v \<Longrightarrow> table' k = Some v) \<Longrightarrow>
   coherent get c table'"
  unfolding coherent_def by blast

text \<open>The cache is transparent.\<close>

lemma cached_read_transparent:
  assumes "inv c" "coherent get c table"
  shows "fst (cached_read get fill table c k) = table k"
    and "inv (snd (cached_read get fill table c k))"
    and "coherent get (snd (cached_read get fill table c k)) table"
proof -
  show "fst (cached_read get fill table c k) = table k"
    using assms(2) by (auto simp: cached_read_def coherent_def split: option.split)
  show "inv (snd (cached_read get fill table c k))"
    using assms(1) by (auto simp: cached_read_def fill_inv split: option.split)
  show "coherent get (snd (cached_read get fill table c k)) table"
    using assms by (auto simp: cached_read_def intro: coherent_fill split: option.split)
qed

text \<open>Two reads of the same key in a row: the second is a hit.\<close>

lemma cached_read_hit:
  assumes "inv c" "coherent get c table" "table k = Some v"
  shows "get (snd (cached_read get fill table c k)) k = Some v"
  using assms by (auto simp: cached_read_def coherent_def get_fill split: option.split)

end

end
