(* ===== verification/TlbSim.thy ===== *)
theory TlbSim
  imports TranslationCache
begin

text \<open>
  \<^verbatim>\<open>exercises/06_page_table/04_tlb_sim/src/lib.rs\<close>: a TLB with FIFO replacement and the MMU that
  looks addresses up in it before walking its page table. Indices into the TLB's vector are \<open>nat\<close>
  (a \<^verbatim>\<open>Vec\<close> is shorter than the address space, so \<^verbatim>\<open>fifo_ptr + 1\<close> cannot overflow); the statistics
  are 64-bit words.
\<close>

section \<open>The TLB\<close>

record TlbEntry =
  valid :: bool
  asid :: u16
  vpn :: u64
  ppn :: u64
  flags :: u64

definition empty :: TlbEntry where
  "empty = \<lparr>valid = False, asid = 0, vpn = 0, ppn = 0, flags = 0\<rparr>"

record TlbStats =
  hits :: u64
  misses :: u64

record Tlb =
  entries :: "TlbEntry list"
  capacity :: nat
  fifo_ptr :: nat
  stats :: TlbStats

definition tlb_new :: "nat \<Rightarrow> Tlb" where
  "tlb_new cap = \<lparr>entries = replicate cap empty, capacity = cap, fifo_ptr = 0,
     stats = \<lparr>hits = 0, misses = 0\<rparr>\<rparr>"

text \<open>The test both loops make: valid, and page number and address space agree.\<close>

definition matches :: "u64 \<Rightarrow> u16 \<Rightarrow> TlbEntry \<Rightarrow> bool" where
  "matches v a e \<longleftrightarrow> valid e \<and> vpn e = v \<and> asid e = a"

definition lookup :: "bool \<Rightarrow> Tlb \<Rightarrow> u64 \<Rightarrow> u16 \<Rightarrow> (u64 option \<times> Tlb) res" where
  "lookup ck t v a =
     (case List.find (matches v a) (entries t) of
        Some entry \<Rightarrow>
          bind_res (add_ck ck (hits (stats t)) 1) (\<lambda>h.
            Inr (Some (ppn entry), t\<lparr>stats := (stats t)\<lparr>hits := h\<rparr>\<rparr>))
      | None \<Rightarrow>
          bind_res (add_ck ck (misses (stats t)) 1) (\<lambda>m.
            Inr (None, t\<lparr>stats := (stats t)\<lparr>misses := m\<rparr>\<rparr>)))"

text \<open>The first loop of \<^verbatim>\<open>insert\<close>: it updates the first matching entry and returns; \<open>None\<close> when the
  loop runs to its end.\<close>

fun update_first :: "TlbEntry list \<Rightarrow> u64 \<Rightarrow> u64 \<Rightarrow> u16 \<Rightarrow> u64 \<Rightarrow> TlbEntry list option" where
  "update_first [] v p a f = None"
| "update_first (e # es) v p a f =
     (if matches v a e then Some (e\<lparr>ppn := p, flags := f\<rparr> # es)
      else map_option ((#) e) (update_first es v p a f))"

definition tlb_insert :: "Tlb \<Rightarrow> u64 \<Rightarrow> u64 \<Rightarrow> u16 \<Rightarrow> u64 \<Rightarrow> Tlb res" where
  "tlb_insert t v p a f =
     (case update_first (entries t) v p a f of
        Some es \<Rightarrow> Inr (t\<lparr>entries := es\<rparr>)
      | None \<Rightarrow>
          bind_res (vec_set (entries t) (fifo_ptr t)
              \<lparr>valid = True, asid = a, vpn = v, ppn = p, flags = f\<rparr>) (\<lambda>es.
            if capacity t = 0 then Inl DivByZero
            else Inr (t\<lparr>entries := es, fifo_ptr := (fifo_ptr t + 1) mod capacity t\<rparr>)))"

definition flush_all :: "Tlb \<Rightarrow> Tlb" where
  "flush_all t = t\<lparr>entries := map (\<lambda>e. e\<lparr>valid := False\<rparr>) (entries t)\<rparr>"

definition flush_by_vpn :: "Tlb \<Rightarrow> u64 \<Rightarrow> Tlb" where
  "flush_by_vpn t v =
     t\<lparr>entries := map (\<lambda>e. if vpn e = v then e\<lparr>valid := False\<rparr> else e) (entries t)\<rparr>"

definition flush_by_asid :: "Tlb \<Rightarrow> u16 \<Rightarrow> Tlb" where
  "flush_by_asid t a =
     t\<lparr>entries := map (\<lambda>e. if asid e = a then e\<lparr>valid := False\<rparr> else e) (entries t)\<rparr>"

definition valid_count :: "Tlb \<Rightarrow> nat" where
  "valid_count t = length (filter valid (entries t))"

section \<open>The MMU\<close>

record PageMapping =
  m_vpn :: u64
  m_ppn :: u64
  m_flags :: u64

record Mmu =
  tlb :: Tlb
  page_table :: "(u16 \<times> PageMapping) list"
  current_asid :: u16

definition mmu_new :: "nat \<Rightarrow> Mmu" where
  "mmu_new tlb_capacity =
     \<lparr>tlb = tlb_new tlb_capacity, page_table = [], current_asid = 0\<rparr>"

definition add_mapping :: "Mmu \<Rightarrow> u16 \<Rightarrow> u64 \<Rightarrow> u64 \<Rightarrow> u64 \<Rightarrow> Mmu" where
  "add_mapping m a v p f =
     m\<lparr>page_table := page_table m @ [(a, \<lparr>m_vpn = v, m_ppn = p, m_flags = f\<rparr>)]\<rparr>"

definition switch_asid :: "Mmu \<Rightarrow> u16 \<Rightarrow> Mmu" where
  "switch_asid m new_asid = m\<lparr>current_asid := new_asid\<rparr>"

definition translate :: "bool \<Rightarrow> Mmu \<Rightarrow> u64 \<Rightarrow> (u64 option \<times> Mmu) res" where
  "translate ck m v =
     bind_res (lookup ck (tlb m) v (current_asid m)) (\<lambda>(r, t).
       case r of
         Some p \<Rightarrow> Inr (Some p, m\<lparr>tlb := t\<rparr>)
       | None \<Rightarrow>
           (case List.find (\<lambda>(a, mp). a = current_asid m \<and> m_vpn mp = v) (page_table m) of
              Some (_, mp) \<Rightarrow>
                bind_res (tlb_insert t (m_vpn mp) (m_ppn mp) (current_asid m) (m_flags mp))
                  (\<lambda>t'. Inr (Some (m_ppn mp), m\<lparr>tlb := t'\<rparr>))
            | None \<Rightarrow> Inr (None, m\<lparr>tlb := t\<rparr>)))"

section \<open>The TLB's invariant\<close>

text \<open>The vector has its capacity, the FIFO pointer is inside it, and at most one valid entry
  answers for a page and address space.\<close>

definition tlb_inv :: "Tlb \<Rightarrow> bool" where
  "tlb_inv t \<longleftrightarrow> length (entries t) = capacity t \<and> fifo_ptr t < capacity t \<and>
     (\<forall>i j. i < capacity t \<longrightarrow> j < capacity t \<longrightarrow> valid (entries t ! i) \<longrightarrow> valid (entries t ! j) \<longrightarrow>
        vpn (entries t ! i) = vpn (entries t ! j) \<longrightarrow> asid (entries t ! i) = asid (entries t ! j) \<longrightarrow> i = j)"

lemma tlb_inv_unique:
  assumes "tlb_inv t" "i < capacity t" "j < capacity t"
    and "valid (entries t ! i)" "valid (entries t ! j)"
    and "vpn (entries t ! i) = vpn (entries t ! j)" "asid (entries t ! i) = asid (entries t ! j)"
  shows "i = j"
  using assms by (simp add: tlb_inv_def)

text \<open>What the TLB holds, as a map, and the page table as a map.\<close>

definition tlb_find :: "Tlb \<Rightarrow> u16 \<times> u64 \<Rightarrow> u64 option" where
  "tlb_find t k = map_option ppn (List.find (matches (snd k) (fst k)) (entries t))"

definition walk :: "(u16 \<times> PageMapping) list \<Rightarrow> u16 \<times> u64 \<Rightarrow> u64 option" where
  "walk pt k = map_option (m_ppn \<circ> snd) (List.find (\<lambda>(a, mp). a = fst k \<and> m_vpn mp = snd k) pt)"

lemma tlb_find_iff:
  assumes "tlb_inv t"
  shows "tlb_find t (a, v) = Some p \<longleftrightarrow>
    (\<exists>i < capacity t. matches v a (entries t ! i) \<and> ppn (entries t ! i) = p)"
proof
  assume "tlb_find t (a, v) = Some p"
  then show "\<exists>i < capacity t. matches v a (entries t ! i) \<and> ppn (entries t ! i) = p"
    using assms by (auto simp: tlb_find_def find_Some_index tlb_inv_def)
next
  assume "\<exists>i < capacity t. matches v a (entries t ! i) \<and> ppn (entries t ! i) = p"
  then obtain i where i: "i < capacity t" "matches v a (entries t ! i)" "ppn (entries t ! i) = p"
    by blast
  have "List.find (matches v a) (entries t) = Some (entries t ! i)"
  proof (rule find_unique)
    show "i < length (entries t)" using i assms by (simp add: tlb_inv_def)
    show "j = i" if "j < length (entries t)" "matches v a (entries t ! j)" for j
      using that i assms by (simp add: tlb_inv_def matches_def)
  qed (rule i(2))
  then show "tlb_find t (a, v) = Some p" using i by (simp add: tlb_find_def)
qed

lemma tlb_find_None_iff:
  "length (entries t) = capacity t \<Longrightarrow>
   tlb_find t (a, v) = None \<longleftrightarrow> (\<forall>i < capacity t. \<not> matches v a (entries t ! i))"
  by (simp add: tlb_find_def find_None_index)

lemma update_first_None:
  "update_first es v p a f = None \<longleftrightarrow> (\<forall>i < length es. \<not> matches v a (es ! i))"
proof (induction es)
  case (Cons e es)
  then show ?case by (auto simp: All_less_Suc2)
qed simp

lemma update_first_Some:
  "update_first es v p a f = Some es' \<Longrightarrow>
   \<exists>i < length es. matches v a (es ! i) \<and> es' = es[i := (es ! i)\<lparr>ppn := p, flags := f\<rparr>]"
proof (induction es arbitrary: es')
  case (Cons e es)
  show ?case
  proof (cases "matches v a e")
    case True
    with Cons.prems show ?thesis by (intro exI [of _ 0]) simp
  next
    case False
    with Cons.prems obtain es1 where "update_first es v p a f = Some es1" "es' = e # es1" by auto
    with Cons.IH [of es1] obtain i where
      "i < length es" "matches v a (es ! i)" "es1 = es[i := (es ! i)\<lparr>ppn := p, flags := f\<rparr>]" by blast
    with \<open>es' = e # es1\<close> show ?thesis by (intro exI [of _ "Suc i"]) simp
  qed
qed simp

section \<open>Insertion\<close>

text \<open>Both branches of \<^verbatim>\<open>insert\<close> put an entry for the key at a slot while no other slot answers for
  it.\<close>

lemma put_entry:
  assumes inv: "tlb_inv t" and i: "i < capacity t" and e: "matches v a e" "ppn e = p"
    and others: "\<And>j. j < capacity t \<Longrightarrow> j \<noteq> i \<Longrightarrow> \<not> matches v a (entries t ! j)"
    and q: "q < capacity t"
    and t': "t' = t\<lparr>entries := (entries t)[i := e], fifo_ptr := q\<rparr>"
  shows "tlb_inv t'" and "tlb_find t' (a, v) = Some p"
    and "k \<noteq> (a, v) \<Longrightarrow> tlb_find t' k = None \<or> tlb_find t' k = tlb_find t k"
proof -
  have len: "length (entries t) = capacity t" using inv by (simp add: tlb_inv_def)
  have at: "entries t' ! j = (if j = i then e else entries t ! j)" if "j < capacity t" for j
    using that len i by (auto simp: t' nth_list_update)
  have key: "valid e" "vpn e = v" "asid e = a" using e by (auto simp: matches_def)
  have clash: False if "j < capacity t" "j \<noteq> i" "valid (entries t ! j)" "vpn (entries t ! j) = v"
    "asid (entries t ! j) = a" for j
    using others [OF that(1,2)] that by (simp add: matches_def)
  show inv': "tlb_inv t'"
    unfolding tlb_inv_def
  proof (intro conjI allI impI)
    fix j k
    assume jk: "j < capacity t'" "k < capacity t'" "valid (entries t' ! j)" "valid (entries t' ! k)"
      "vpn (entries t' ! j) = vpn (entries t' ! k)" "asid (entries t' ! j) = asid (entries t' ! k)"
    then have b: "j < capacity t" "k < capacity t" by (simp_all add: t')
    show "j = k"
    proof (rule ccontr)
      assume "j \<noteq> k"
      then consider "j = i" "k \<noteq> i" | "k = i" "j \<noteq> i" | "j \<noteq> i" "k \<noteq> i" by blast
      then show False
      proof cases
        case 1
        then show ?thesis using jk clash [OF b(2)] key at [OF b(1)] at [OF b(2)] by simp
      next
        case 2
        then show ?thesis using jk clash [OF b(1)] key at [OF b(1)] at [OF b(2)] by simp
      next
        case 3
        then have "j = k"
          using jk at [OF b(1)] at [OF b(2)] by (intro tlb_inv_unique [OF inv b]) simp_all
        with \<open>j \<noteq> k\<close> show ?thesis by simp
      qed
    qed
  qed (use len q in \<open>simp_all add: t'\<close>)
  have cap: "capacity t' = capacity t" by (simp add: t')
  show "tlb_find t' (a, v) = Some p"
    unfolding tlb_find_iff [OF inv'] cap using i e at by (intro exI [of _ i]) simp
  show "tlb_find t' k = None \<or> tlb_find t' k = tlb_find t k" if k: "k \<noteq> (a, v)"
  proof (cases "tlb_find t' k")
    case (Some r)
    obtain b w where bw: "k = (b, w)" by (cases k)
    from Some obtain j where j: "j < capacity t" "matches w b (entries t' ! j)"
      "ppn (entries t' ! j) = r"
      unfolding bw tlb_find_iff [OF inv'] cap by blast
    moreover have "j \<noteq> i" using j at k key bw by (auto simp: matches_def)
    ultimately have "tlb_find t k = Some r"
      unfolding bw tlb_find_iff [OF inv] using at by (intro exI [of _ j]) simp
    then show ?thesis using Some by simp
  qed simp
qed

lemma tlb_insert_spec:
  assumes inv: "tlb_inv t"
  obtains t' where "tlb_insert t v p a f = Inr t'" "tlb_inv t'"
    "tlb_find t' (a, v) = Some p"
    "\<And>k. k \<noteq> (a, v) \<Longrightarrow> tlb_find t' k = None \<or> tlb_find t' k = tlb_find t k"
    "capacity t' = capacity t" "stats t' = stats t"
proof -
  have len: "length (entries t) = capacity t" and ptr: "fifo_ptr t < capacity t"
    using inv by (auto simp: tlb_inv_def)
  show thesis
  proof (cases "update_first (entries t) v p a f")
    case None
    let ?e = "\<lparr>valid = True, asid = a, vpn = v, ppn = p, flags = f\<rparr>"
    let ?t = "t\<lparr>entries := (entries t)[fifo_ptr t := ?e],
      fifo_ptr := (fifo_ptr t + 1) mod capacity t\<rparr>"
    have none: "\<not> matches v a (entries t ! j)" if "j < capacity t" for j
      using None that len by (simp add: update_first_None)
    note put = put_entry [OF inv ptr _ _ none, of ?e p, OF _ _ _ _ refl]
    have "(fifo_ptr t + 1) mod capacity t < capacity t" using ptr by simp
    moreover have "matches v a ?e" by (simp add: matches_def)
    moreover have "tlb_insert t v p a f = Inr ?t" using None ptr len by (simp add: tlb_insert_def)
    ultimately show thesis using put by (intro that [of ?t]) auto
  next
    case (Some es)
    then obtain i where i: "i < capacity t" "matches v a (entries t ! i)"
      "es = (entries t)[i := (entries t ! i)\<lparr>ppn := p, flags := f\<rparr>]"
      using update_first_Some [OF Some] len by auto
    have others: "\<not> matches v a (entries t ! j)" if "j < capacity t" "j \<noteq> i" for j
      using that i inv by (auto simp: matches_def tlb_inv_def)
    let ?e = "(entries t ! i)\<lparr>ppn := p, flags := f\<rparr>"
    have t': "t\<lparr>entries := es\<rparr> = t\<lparr>entries := (entries t)[i := ?e], fifo_ptr := fifo_ptr t\<rparr>"
      using i(3) by simp
    have "matches v a ?e" using i(2) by (simp add: matches_def)
    then show thesis
      using put_entry [OF inv i(1) _ _ others ptr t', of p] Some
      by (intro that [of "t\<lparr>entries := es\<rparr>"]) (auto simp: tlb_insert_def)
  qed
qed

text \<open>The fill operation the MMU uses, as a total function.\<close>

definition fill :: "u64 \<Rightarrow> Tlb \<Rightarrow> u16 \<times> u64 \<Rightarrow> u64 \<Rightarrow> Tlb" where
  "fill f t k p = (case tlb_insert t (snd k) p (fst k) f of Inr t' \<Rightarrow> t' | Inl _ \<Rightarrow> t)"

lemma tlb_insert_fill: "tlb_inv t \<Longrightarrow> tlb_insert t v p a f = Inr (fill f t (a, v) p)"
  by (rule tlb_insert_spec [of t v p a f]) (auto simp: fill_def)

interpretation tc: translation_cache tlb_inv tlb_find "fill f"
  for f :: u64
proof unfold_locales
  fix t and k j :: "u16 \<times> u64" and p
  assume inv: "tlb_inv t"
  obtain a v where k: "k = (a, v)" by (cases k)
  obtain t' where t': "tlb_insert t v p a f = Inr t'" "tlb_inv t'" "tlb_find t' (a, v) = Some p"
    "\<And>j. j \<noteq> (a, v) \<Longrightarrow> tlb_find t' j = None \<or> tlb_find t' j = tlb_find t j"
    by (rule tlb_insert_spec [OF inv, of v p a f]) (rule that)
  have "fill f t k p = t'" using t'(1) by (simp add: fill_def k)
  then show "tlb_inv (fill f t k p)" "tlb_find (fill f t k p) k = Some p"
    "j \<noteq> k \<Longrightarrow> tlb_find (fill f t k p) j = None \<or> tlb_find (fill f t k p) j = tlb_find t j"
    using t' by (auto simp: k)
qed

section \<open>Invariant and insertion contract\<close>

lemma tlb_inv_new: "0 < n \<Longrightarrow> tlb_inv (tlb_new n)"
  by (simp add: tlb_inv_def tlb_new_def empty_def)

text \<open>The statistics can count one more lookup.\<close>

definition stats_room :: "nat \<Rightarrow> Tlb \<Rightarrow> bool" where
  "stats_room n t \<longleftrightarrow> unat (hits (stats t)) + n < 2 ^ 64 \<and> unat (misses (stats t)) + n < 2 ^ 64"

definition count_lookup :: "Tlb \<Rightarrow> bool \<Rightarrow> Tlb" where
  "count_lookup t hit = t\<lparr>stats :=
     (if hit then (stats t)\<lparr>hits := hits (stats t) + 1\<rparr>
      else (stats t)\<lparr>misses := misses (stats t) + 1\<rparr>)\<rparr>"

lemma count_lookup_simps [simp]:
  "entries (count_lookup t h) = entries t" "capacity (count_lookup t h) = capacity t"
  "fifo_ptr (count_lookup t h) = fifo_ptr t"
  "tlb_find (count_lookup t h) k = tlb_find t k" "tlb_inv (count_lookup t h) = tlb_inv t"
  by (simp_all add: count_lookup_def tlb_find_def tlb_inv_def)

lemma lookup_spec:
  assumes "ck \<Longrightarrow> stats_room 1 t"
  shows "lookup ck t v a = Inr (tlb_find t (a, v), count_lookup t (tlb_find t (a, v) \<noteq> None))"
proof -
  have "add_ck ck (hits (stats t)) 1 = Inr (hits (stats t) + 1)"
    "add_ck ck (misses (stats t)) 1 = Inr (misses (stats t) + 1)"
    using assms by (cases ck; simp add: add_ck_in_range stats_room_def)+
  then show ?thesis
    by (auto simp: lookup_def tlb_find_def count_lookup_def split: option.split)
qed

lemma stats_room_count: "stats_room (Suc n) t \<Longrightarrow> stats_room n (count_lookup t h)"
  by (auto simp: stats_room_def count_lookup_def unat_add_in_range)

text \<open>Inserting keeps the TLB's invariant and never panics; afterwards a lookup of the key hits
  the new page number, and any other key is either as before or has been evicted.\<close>

theorem tlb_insert_contract:
  assumes "tlb_inv t"
  shows "\<exists>t'. tlb_insert t v p a f = Inr t' \<and> tlb_inv t' \<and>
    lookup False t' v a = Inr (Some p, count_lookup t' True) \<and>
    (\<forall>k. k \<noteq> (a, v) \<longrightarrow> tlb_find t' k = None \<or> tlb_find t' k = tlb_find t k)"
proof -
  obtain t' where "tlb_insert t v p a f = Inr t'" "tlb_inv t'" "tlb_find t' (a, v) = Some p"
    "\<And>k. k \<noteq> (a, v) \<Longrightarrow> tlb_find t' k = None \<or> tlb_find t' k = tlb_find t k"
    "stats t' = stats t"
    by (rule tlb_insert_spec [OF assms, of v p a f]) (rule that)
  then show ?thesis by (intro exI [of _ t']) (simp add: lookup_spec)
qed

theorem tlb_insert_contract_witness:
  "\<exists>t'. tlb_insert (tlb_new 2) 0x100 0x200 1 7 = Inr t' \<and>
     lookup False t' 0x100 1 = Inr (Some 0x200, count_lookup t' True)"
  using tlb_insert_contract [OF tlb_inv_new, of 2 "0x100" "0x200" 1 7] by auto

text \<open>A TLB of capacity 0 panics on its first insertion, from the vector index.\<close>

lemma tlb_insert_capacity_0: "tlb_insert (tlb_new 0) v p a f = Inl IndexOutOfBounds"
  by (simp add: tlb_insert_def tlb_new_def)

section \<open>Flushing\<close>

lemma find_invalidate:
  "List.find (matches v a) (map (\<lambda>e. if P e then e\<lparr>valid := False\<rparr> else e) es) =
   List.find (\<lambda>e. matches v a e \<and> \<not> P e) es"
  by (induction es) (auto simp: matches_def)

lemma find_all_invalid:
  "List.find (matches v a) (map (\<lambda>e. e\<lparr>valid := False\<rparr>) es) = None"
  by (induction es) (auto simp: matches_def)

lemma flush_all_if: "flush_all t =
    t\<lparr>entries := map (\<lambda>e. if True then e\<lparr>valid := False\<rparr> else e) (entries t)\<rparr>"
  by (simp add: flush_all_def)

lemma flush_inv:
  assumes "tlb_inv t"
  shows "tlb_inv (t\<lparr>entries := map (\<lambda>e. if P e then e\<lparr>valid := False\<rparr> else e) (entries t)\<rparr>)"
  unfolding tlb_inv_def
proof (intro conjI allI impI)
  let ?t = "t\<lparr>entries := map (\<lambda>e. if P e then e\<lparr>valid := False\<rparr> else e) (entries t)\<rparr>"
  fix i j
  assume a: "i < capacity ?t" "j < capacity ?t" "valid (entries ?t ! i)" "valid (entries ?t ! j)"
    "vpn (entries ?t ! i) = vpn (entries ?t ! j)" "asid (entries ?t ! i) = asid (entries ?t ! j)"
  have len: "length (entries t) = capacity t" using assms by (simp add: tlb_inv_def)
  show "i = j"
    by (rule tlb_inv_unique [OF assms]) (use a len in \<open>auto split: if_splits\<close>)
qed (use assms in \<open>simp_all add: tlb_inv_def\<close>)

lemma flush_facts:
  "tlb_find (flush_by_vpn t v) k = (if snd k = v then None else tlb_find t k) \<and>
   tlb_find (flush_by_asid t a) k = (if fst k = a then None else tlb_find t k) \<and>
   tlb_find (flush_all t) k = None \<and> valid_count (flush_all t) = 0"
proof -
  have never: "List.find (\<lambda>_. False) es = None" for es :: "TlbEntry list"
    by (induction es) auto
  have "(\<lambda>e. matches w b e \<and> vpn e \<noteq> v) = (if w = v then (\<lambda>_. False) else matches w b)"
    "(\<lambda>e. matches w b e \<and> asid e \<noteq> a) = (if b = a then (\<lambda>_. False) else matches w b)" for w b
    by (auto simp: matches_def fun_eq_iff)
  then show ?thesis
    by (simp add: tlb_find_def flush_by_vpn_def flush_by_asid_def flush_all_def find_invalidate
        find_all_invalid never valid_count_def filter_empty_conv)
qed

text \<open>Each flush removes exactly the bindings it names, for every TLB, and keeps the
  invariant's shape: after \<^verbatim>\<open>flush_by_vpn\<close> a page misses in every address space, after
  \<^verbatim>\<open>flush_by_asid\<close> an address space misses on every page, every other key is untouched, and after
  \<^verbatim>\<open>flush_all\<close> no entry is valid.\<close>

theorem flush_contract:
  "tlb_find (flush_by_vpn t v) k = (if snd k = v then None else tlb_find t k) \<and>
   tlb_find (flush_by_asid t a) k = (if fst k = a then None else tlb_find t k) \<and>
   tlb_find (flush_all t) k = None \<and> valid_count (flush_all t) = 0"
  by (rule flush_facts)

section \<open>FIFO replacement\<close>

fun insert_all :: "Tlb \<Rightarrow> ((u16 \<times> u64) \<times> u64 \<times> u64) list \<Rightarrow> Tlb res" where
  "insert_all t [] = Inr t"
| "insert_all t (((a, v), p, f) # xs) = bind_res (tlb_insert t v p a f) (\<lambda>t'. insert_all t' xs)"

lemma insert_all_append:
  "insert_all t (xs @ ys) = bind_res (insert_all t xs) (\<lambda>t'. insert_all t' ys)"
  by (induction t xs rule: insert_all.induct) (auto simp: bind_res_def split: sum.split)

definition slot_of :: "(u16 \<times> u64) \<times> u64 \<times> u64 \<Rightarrow> TlbEntry" where
  "slot_of x = \<lparr>valid = True, asid = fst (fst x), vpn = snd (fst x), ppn = fst (snd x),
     flags = snd (snd x)\<rparr>"

text \<open>The slots after inserting \<open>xs\<close> into an empty TLB: the last \<open>n\<close> entries, each at its index
  modulo the capacity, and nothing else valid.\<close>

definition fifo_state :: "nat \<Rightarrow> ((u16 \<times> u64) \<times> u64 \<times> u64) list \<Rightarrow> Tlb \<Rightarrow> bool" where
  "fifo_state n xs t \<longleftrightarrow> tlb_inv t \<and> capacity t = n \<and> fifo_ptr t = length xs mod n \<and>
     (\<forall>i < length xs. length xs \<le> i + n \<longrightarrow> entries t ! (i mod n) = slot_of (xs ! i)) \<and>
     (\<forall>s < n. valid (entries t ! s) \<longrightarrow>
        (\<exists>i < length xs. length xs \<le> i + n \<and> i mod n = s \<and> entries t ! s = slot_of (xs ! i)))"

lemma mod_close_eq:
  fixes i m n :: nat
  assumes "i < m" "m < i + n" shows "i mod n \<noteq> m mod n"
proof
  assume "i mod n = m mod n"
  then have "n dvd m - i" using assms(1) by (metis less_imp_le_nat mod_eq_dvd_iff_nat)
  then show False using assms by (auto dest: dvd_imp_le)
qed

lemma fifo_state_step:
  assumes st: "fifo_state n xs t" and n: "0 < n" and fresh: "k \<notin> fst ` set xs"
  shows "\<exists>t'. tlb_insert t (snd k) p (fst k) f = Inr t' \<and> fifo_state n (xs @ [(k, p, f)]) t'"
proof -
  let ?m = "length xs" and ?e = "slot_of (k, p, f)"
  from st have inv: "tlb_inv t" and cap: "capacity t = n" and ptr: "fifo_ptr t = ?m mod n"
    and held: "\<And>i. i < ?m \<Longrightarrow> ?m \<le> i + n \<Longrightarrow> entries t ! (i mod n) = slot_of (xs ! i)"
    and only: "\<And>s. s < n \<Longrightarrow> valid (entries t ! s) \<Longrightarrow>
        \<exists>i < ?m. ?m \<le> i + n \<and> i mod n = s \<and> entries t ! s = slot_of (xs ! i)"
    by (auto simp: fifo_state_def)
  have len: "length (entries t) = n" using inv cap by (simp add: tlb_inv_def)
  have none: "\<not> matches (snd k) (fst k) (entries t ! j)" if j: "j < n" for j
  proof
    assume m: "matches (snd k) (fst k) (entries t ! j)"
    then obtain i where "i < ?m" "entries t ! j = slot_of (xs ! i)"
      using only [OF j] by (auto simp: matches_def)
    with m have "fst (xs ! i) = k" by (auto simp: matches_def slot_of_def prod_eq_iff)
    with fresh \<open>i < ?m\<close> show False by (metis image_eqI nth_mem)
  qed
  let ?t = "t\<lparr>entries := (entries t)[?m mod n := ?e], fifo_ptr := (?m + 1) mod n\<rparr>"
  have mn: "?m mod n < n" using n by simp
  have ins: "tlb_insert t (snd k) p (fst k) f = Inr ?t"
    using none mn n by (simp add: tlb_insert_def update_first_None len cap ptr mod_Suc_eq slot_of_def
        iffD2 [OF update_first_None])
  have inv': "tlb_inv ?t"
  proof (rule put_entry(1) [OF inv _ _ refl])
    show "matches (snd k) (fst k) ?e" by (simp add: matches_def slot_of_def)
    show "\<And>j. j < capacity t \<Longrightarrow> j \<noteq> ?m mod n \<Longrightarrow> \<not> matches (snd k) (fst k) (entries t ! j)"
      using none cap by simp
    show "(?m + 1) mod n < capacity t" using n cap by simp
  qed (use mn cap in simp_all)
  have "entries ?t ! (i mod n) = slot_of ((xs @ [(k, p, f)]) ! i)"
    if "i < ?m + 1" "?m + 1 \<le> i + n" for i
  proof (cases "i = ?m")
    case True
    then show ?thesis using mn len by simp
  next
    case False
    then have "i mod n \<noteq> ?m mod n" using that by (intro mod_close_eq) auto
    then show ?thesis using held [of i] that False by (simp add: nth_append)
  qed
  moreover have "\<exists>i < ?m + 1. ?m + 1 \<le> i + n \<and> i mod n = s \<and>
      entries ?t ! s = slot_of ((xs @ [(k, p, f)]) ! i)"
    if "s < n" "valid (entries ?t ! s)" for s
  proof (cases "s = ?m mod n")
    case True
    then show ?thesis using n len by (intro exI [of _ ?m]) simp
  next
    case False
    with that only [of s] obtain i where i: "i < ?m" "?m \<le> i + n" "i mod n = s"
      "entries t ! s = slot_of (xs ! i)" by auto
    then have "?m \<noteq> i + n" using False by auto
    with i False show ?thesis by (intro exI [of _ i]) (simp add: nth_append)
  qed
  ultimately have "fifo_state n (xs @ [(k, p, f)]) ?t"
    using inv' cap by (simp add: fifo_state_def)
  with ins show ?thesis by blast
qed

lemma fifo_state_insert_all:
  assumes "0 < n" "distinct (map fst xs)"
  shows "\<exists>t. insert_all (tlb_new n) xs = Inr t \<and> fifo_state n xs t"
  using assms(2)
proof (induction xs rule: rev_induct)
  case Nil
  have "fifo_state n [] (tlb_new n)"
    using tlb_inv_new [OF assms(1)] by (simp add: fifo_state_def tlb_new_def empty_def)
  then show ?case by simp
next
  case (snoc x xs)
  obtain k p f where x: "x = (k, p, f)" by (cases x)
  from snoc obtain t where t: "insert_all (tlb_new n) xs = Inr t" "fifo_state n xs t" by auto
  from snoc.prems have "k \<notin> fst ` set xs" by (auto simp: x)
  from fifo_state_step [OF t(2) assms(1) this, of p f] t(1) show ?case
    by (cases k) (auto simp: insert_all_append x)
qed

text \<open>Filling an empty TLB of capacity \<open>n\<close> with distinct keys keeps exactly the last \<open>n\<close> of
  them: replacement is first-in first-out.\<close>

theorem fifo_eviction:
  assumes "0 < n" "distinct (map fst xs)" "i < length xs"
  shows "\<exists>t. insert_all (tlb_new n) xs = Inr t \<and>
    tlb_find t (fst (xs ! i)) = (if length xs \<le> i + n then Some (fst (snd (xs ! i))) else None)"
proof -
  obtain t where t: "insert_all (tlb_new n) xs = Inr t" and st: "fifo_state n xs t"
    using fifo_state_insert_all [OF assms(1,2)] by blast
  obtain a v p f where x: "xs ! i = ((a, v), p, f)" by (metis surj_pair)
  from st have inv: "tlb_inv t" and cap: "capacity t = n" by (auto simp: fifo_state_def)
  have "tlb_find t (a, v) = (if length xs \<le> i + n then Some p else None)"
  proof (cases "length xs \<le> i + n")
    case True
    then have "entries t ! (i mod n) = slot_of (xs ! i)" using st assms(3) by (simp add: fifo_state_def)
    then have "tlb_find t (a, v) = Some p"
      unfolding tlb_find_iff [OF inv] cap using assms(1)
      by (intro exI [of _ "i mod n"]) (simp add: matches_def slot_of_def x)
    with True show ?thesis by simp
  next
    case False
    have "\<not> matches v a (entries t ! s)" if s: "s < n" for s
    proof
      assume m: "matches v a (entries t ! s)"
      with st s obtain j where j: "j < length xs" "length xs \<le> j + n" "entries t ! s = slot_of (xs ! j)"
        unfolding fifo_state_def matches_def by metis
      with m have "fst (xs ! j) = fst (xs ! i)" by (auto simp: matches_def slot_of_def x prod_eq_iff)
      then have "j = i" using assms(2,3) j(1) by (simp add: distinct_conv_nth) metis
      with j False show False by simp
    qed
    then have "tlb_find t (a, v) = None"
      using inv cap by (subst tlb_find_None_iff) (auto simp: tlb_inv_def)
    with False show ?thesis by simp
  qed
  with t x show ?thesis by auto
qed

theorem fifo_eviction_witness:
  "\<exists>t. insert_all (tlb_new 2) [((0, 0x10), 0x20, 7), ((0, 0x30), 0x40, 7), ((0, 0x50), 0x60, 7)] = Inr t \<and>
     tlb_find t (0, 0x10) = None"
  using fifo_eviction [of 2 "[((0, 0x10), 0x20, 7), ((0, 0x30), 0x40, 7), ((0, 0x50), 0x60, 7)]" 0]
  by simp

section \<open>The MMU through its TLB\<close>

definition mmu_inv :: "Mmu \<Rightarrow> bool" where
  "mmu_inv m \<longleftrightarrow> tlb_inv (tlb m) \<and> coherent tlb_find (tlb m) (walk (page_table m))"

lemma walk_find:
  "walk pt (a, v) = map_option (m_ppn \<circ> snd) (List.find (\<lambda>(b, mp). b = a \<and> m_vpn mp = v) pt)"
  by (simp add: walk_def)

lemma walk_Some_entry:
  assumes "List.find (\<lambda>(b, mp). b = a \<and> m_vpn mp = v) pt = Some (c, mp)"
  shows "c = a" "m_vpn mp = v"
  using assms by (auto simp: find_Some_iff)

text \<open>Translation is the cached read of the contract, counted by the statistics.\<close>

lemma translate_cached_read:
  assumes inv: "mmu_inv m" and room: "ck \<Longrightarrow> stats_room 1 (tlb m)"
  shows "\<exists>f h. translate ck m v =
    (let k = (current_asid m, v);
         (r, t) = cached_read tlb_find (fill f) (walk (page_table m)) (count_lookup (tlb m) h) k
     in Inr (r, m\<lparr>tlb := t\<rparr>))"
proof -
  let ?k = "(current_asid m, v)"
  from inv have ti: "tlb_inv (tlb m)" by (simp add: mmu_inv_def)
  note lk = lookup_spec [of ck "tlb m" v "current_asid m", OF room]
  show ?thesis
  proof (cases "tlb_find (tlb m) ?k")
    case (Some p)
    then show ?thesis using lk by (auto simp: translate_def cached_read_def)
  next
    case None
    note tf = this
    show ?thesis
    proof (cases "List.find (\<lambda>(a, mp). a = current_asid m \<and> m_vpn mp = v) (page_table m)")
      case None
      then show ?thesis using tf lk by (auto simp: translate_def cached_read_def walk_find)
    next
      case (Some x)
      obtain c mp where x: "x = (c, mp)" by (cases x)
      note mp = walk_Some_entry [OF Some [unfolded x]]
      have "tlb_insert (count_lookup (tlb m) False) v (m_ppn mp) (current_asid m) (m_flags mp) =
          Inr (fill (m_flags mp) (count_lookup (tlb m) False) ?k (m_ppn mp))"
        by (rule tlb_insert_fill) (simp add: ti)
      then have "translate ck m v =
          Inr (Some (m_ppn mp), m\<lparr>tlb := fill (m_flags mp) (count_lookup (tlb m) False) ?k (m_ppn mp)\<rparr>)"
        using lk tf Some mp by (simp add: translate_def x)
      then show ?thesis
        using Some tf
        by (intro exI [of _ "m_flags mp"] exI [of _ False]) (simp add: cached_read_def walk_find x)
    qed
  qed
qed

lemma stats_fill: "tlb_inv t \<Longrightarrow> stats (fill f t k p) = stats t"
  by (rule tlb_insert_spec [of t "snd k" p "fst k" f]) (auto simp: fill_def)

lemma translate_spec:
  assumes inv: "mmu_inv m" and room: "ck \<Longrightarrow> stats_room (Suc n) (tlb m)"
  obtains m' where "translate ck m v = Inr (walk (page_table m) (current_asid m, v), m')"
    "mmu_inv m'" "page_table m' = page_table m" "current_asid m' = current_asid m"
    "ck \<Longrightarrow> stats_room n (tlb m')"
proof -
  let ?k = "(current_asid m, v)" and ?w = "walk (page_table m)"
  have room1: "ck \<Longrightarrow> stats_room 1 (tlb m)" using room by (simp add: stats_room_def)
  from translate_cached_read [OF inv room1, of ck v, simplified] obtain f h where tr: "translate ck m v =
    (let (r, t) = cached_read tlb_find (fill f) ?w (count_lookup (tlb m) h) ?k in Inr (r, m\<lparr>tlb := t\<rparr>))"
    by (auto simp: Let_def)
  let ?t = "count_lookup (tlb m) h"
  let ?r = "cached_read tlb_find (fill f) ?w ?t ?k"
  have c: "tlb_inv ?t" "coherent tlb_find ?t ?w"
    using inv by (auto simp: mmu_inv_def coherent_def)
  note tp = tc.cached_read_transparent [OF c, of f ?k]
  have st: "stats (snd ?r) = stats ?t"
    using c(1) by (auto simp: cached_read_def stats_fill split: option.split)
  show thesis
  proof (rule that [of "m\<lparr>tlb := snd ?r\<rparr>"])
    show "translate ck m v = Inr (?w ?k, m\<lparr>tlb := snd ?r\<rparr>)"
      using tr tp(1) by (simp add: case_prod_unfold)
    show "mmu_inv (m\<lparr>tlb := snd ?r\<rparr>)" using tp(2,3) by (simp add: mmu_inv_def)
    show "stats_room n (tlb (m\<lparr>tlb := snd ?r\<rparr>))" if ck
      using stats_room_count [OF room [OF that], of h] st by (simp add: stats_room_def)
  qed simp_all
qed

text \<open>What a user of the MMU does: the MMU's own operations, and the TLB's flushes through its
  public field.\<close>

datatype mmu_op =
    Translate u64
  | AddMapping u16 u64 u64 u64
  | SwitchAsid u16
  | FlushAll
  | FlushVpn u64
  | FlushAsid u16

fun mmu_step :: "bool \<Rightarrow> Mmu \<Rightarrow> mmu_op \<Rightarrow> (u64 option list \<times> Mmu) res" where
  "mmu_step ck m (Translate v) = bind_res (translate ck m v) (\<lambda>(r, m'). Inr ([r], m'))"
| "mmu_step ck m (AddMapping a v p f) = Inr ([], add_mapping m a v p f)"
| "mmu_step ck m (SwitchAsid a) = Inr ([], switch_asid m a)"
| "mmu_step ck m FlushAll = Inr ([], m\<lparr>tlb := flush_all (tlb m)\<rparr>)"
| "mmu_step ck m (FlushVpn v) = Inr ([], m\<lparr>tlb := flush_by_vpn (tlb m) v\<rparr>)"
| "mmu_step ck m (FlushAsid a) = Inr ([], m\<lparr>tlb := flush_by_asid (tlb m) a\<rparr>)"

fun mmu_run :: "bool \<Rightarrow> Mmu \<Rightarrow> mmu_op list \<Rightarrow> (u64 option list \<times> Mmu) res" where
  "mmu_run ck m [] = Inr ([], m)"
| "mmu_run ck m (x # xs) =
     bind_res (mmu_step ck m x) (\<lambda>(r, m').
     bind_res (mmu_run ck m' xs) (\<lambda>(rs, m''). Inr (r @ rs, m'')))"

text \<open>The abstract machine has no TLB: a page table and the current address space.\<close>

fun ref_run :: "(u16 \<times> PageMapping) list \<Rightarrow> u16 \<Rightarrow> mmu_op list \<Rightarrow> u64 option list" where
  "ref_run pt a [] = []"
| "ref_run pt a (Translate v # xs) = walk pt (a, v) # ref_run pt a xs"
| "ref_run pt a (AddMapping b v p f # xs) =
     ref_run (pt @ [(b, \<lparr>m_vpn = v, m_ppn = p, m_flags = f\<rparr>)]) a xs"
| "ref_run pt a (SwitchAsid b # xs) = ref_run pt b xs"
| "ref_run pt a (x # xs) = ref_run pt a xs"

lemma coherent_flush:
  assumes "mmu_inv m"
  shows "mmu_inv (m\<lparr>tlb := flush_all (tlb m)\<rparr>)" "mmu_inv (m\<lparr>tlb := flush_by_vpn (tlb m) v\<rparr>)"
    "mmu_inv (m\<lparr>tlb := flush_by_asid (tlb m) a\<rparr>)"
proof -
  from assms have ti: "tlb_inv (tlb m)" and co: "coherent tlb_find (tlb m) (walk (page_table m))"
    by (auto simp: mmu_inv_def)
  have "forgets tlb_find (flush_all (tlb m)) (tlb m)" "forgets tlb_find (flush_by_vpn (tlb m) v) (tlb m)"
    "forgets tlb_find (flush_by_asid (tlb m) a) (tlb m)"
    by (auto simp: forgets_def flush_facts)
  from this [THEN tc.coherent_forget, OF co]
  show "mmu_inv (m\<lparr>tlb := flush_all (tlb m)\<rparr>)" "mmu_inv (m\<lparr>tlb := flush_by_vpn (tlb m) v\<rparr>)"
    "mmu_inv (m\<lparr>tlb := flush_by_asid (tlb m) a\<rparr>)"
    using flush_inv [OF ti, of "\<lambda>_. True"] flush_inv [OF ti, of "\<lambda>e. vpn e = v"]
      flush_inv [OF ti, of "\<lambda>e. asid e = a"]
    by (simp_all add: mmu_inv_def flush_all_def flush_by_vpn_def flush_by_asid_def)
qed

lemma mmu_inv_add_mapping:
  assumes "mmu_inv m" shows "mmu_inv (add_mapping m a v p f)"
proof -
  have "walk pt k = Some q \<Longrightarrow> walk (pt @ ys) k = Some q" for pt ys k q
    by (induction pt) (auto simp: walk_def split: if_splits)
  then show ?thesis
    using assms by (auto simp: mmu_inv_def add_mapping_def intro: tc.coherent_extend)
qed

lemma stats_flush [simp]:
  "stats_room n (flush_all t) = stats_room n t" "stats_room n (flush_by_vpn t v) = stats_room n t"
  "stats_room n (flush_by_asid t a) = stats_room n t"
  by (simp_all add: stats_room_def flush_all_def flush_by_vpn_def flush_by_asid_def)

lemma mmu_run_refines:
  "mmu_inv m \<Longrightarrow> (ck \<Longrightarrow> stats_room (length xs) (tlb m)) \<Longrightarrow>
   \<exists>m'. mmu_run ck m xs = Inr (ref_run (page_table m) (current_asid m) xs, m') \<and> mmu_inv m'"
proof (induction xs arbitrary: m)
  case Nil
  then show ?case by simp
next
  case (Cons x xs)
  have room: "ck \<Longrightarrow> stats_room (length xs) (tlb m)" using Cons.prems(2) by (simp add: stats_room_def)
  show ?case
  proof (cases x)
    case (Translate v)
    obtain m' where m': "translate ck m v = Inr (walk (page_table m) (current_asid m, v), m')"
      "mmu_inv m'" "page_table m' = page_table m" "current_asid m' = current_asid m"
      "ck \<Longrightarrow> stats_room (length xs) (tlb m')"
      by (rule translate_spec [of m ck "length xs" v]) (use Cons.prems in auto)
    with Cons.IH [OF m'(2,5)] show ?thesis by (auto simp: Translate)
  next
    case (AddMapping a v p f)
    with Cons.IH [OF mmu_inv_add_mapping [OF Cons.prems(1)], of a v p f] room show ?thesis
      by (auto simp: add_mapping_def)
  next
    case (SwitchAsid a)
    with Cons.IH [of "switch_asid m a"] Cons.prems(1) room show ?thesis
      by (auto simp: switch_asid_def mmu_inv_def)
  next
    case FlushAll
    with Cons.IH [OF coherent_flush(1) [OF Cons.prems(1)]] room show ?thesis by auto
  next
    case (FlushVpn v)
    with Cons.IH [OF coherent_flush(2) [OF Cons.prems(1), of v]] room show ?thesis by auto
  next
    case (FlushAsid a)
    with Cons.IH [OF coherent_flush(3) [OF Cons.prems(1), of a]] room show ?thesis by auto
  qed
qed

text \<open>C2: the TLB is transparent. Any sequence of translations, mappings, address space switches
  and flushes on a new MMU (with a TLB of positive capacity) returns exactly what the page table
  alone would answer at each translation, without a panic. In particular a mapping added for a page
  that already has one never takes effect, and no flush is ever needed for correctness.\<close>

theorem mmu_transparent:
  assumes "0 < cap" and "length xs < 2 ^ 64"
  shows "\<exists>m. mmu_run ck (mmu_new cap) xs = Inr (ref_run [] 0 xs, m) \<and> mmu_inv m"
proof -
  have "mmu_inv (mmu_new cap)"
  proof -
    have "tlb_find (tlb_new cap) k = None" for k
      by (simp add: tlb_find_def tlb_new_def find_None_iff matches_def empty_def)
    then show ?thesis using tlb_inv_new [OF assms(1)] by (simp add: mmu_inv_def mmu_new_def coherent_def)
  qed
  moreover have "stats_room (length xs) (tlb (mmu_new cap))"
    using assms(2) by (simp add: stats_room_def mmu_new_def tlb_new_def)
  ultimately show ?thesis using mmu_run_refines [of "mmu_new cap" ck xs] by (simp add: mmu_new_def)
qed

theorem mmu_transparent_witness:
  "\<exists>m. mmu_run True (mmu_new 1) [AddMapping 1 0x100 0x200 7, AddMapping 2 0x100 0x300 7,
       SwitchAsid 1, Translate 0x100, SwitchAsid 2, Translate 0x100, Translate 0x101] =
     Inr ([Some 0x200, Some 0x300, None], m)"
  using mmu_transparent [of 1 "[AddMapping 1 0x100 0x200 7, AddMapping 2 0x100 0x300 7,
       SwitchAsid 1, Translate 0x100, SwitchAsid 2, Translate 0x100, Translate 0x101]" True]
  by (auto simp: walk_def)

end
