(* ===== verification/Float64.thy ===== *)
theory Float64
  imports Complex_Main
begin

text \<open>
  The \<^verbatim>\<open>f64\<close> arithmetic the sources use: conversion of an integer and division, on numbers that are not
  negative. A finite number is the rational it stands for. Results are rounded to 53 significant
  bits, to nearest with ties to even, below the normal range to a multiple of the least
  subnormal number. The theory proves what follows for every rounding: it is monotone, and
  its relative error is at most \<open>2\<^sup>-\<^sup>5\<^sup>3\<close> in the normal range.
\<close>

section \<open>Rounding\<close>

datatype f64 = Finite rat | Infinite | NaN

definition round_even :: "rat \<Rightarrow> int" where
  "round_even y =
     (let d = y - of_int \<lfloor>y\<rfloor> in
      if d < 1 / 2 then \<lfloor>y\<rfloor>
      else if 1 / 2 < d then \<lfloor>y\<rfloor> + 1
      else if even \<lfloor>y\<rfloor> then \<lfloor>y\<rfloor> else \<lfloor>y\<rfloor> + 1)"

text \<open>The exponent of a number, from the least one; its spacing is \<open>2\<^sup>5\<^sup>2\<close> times smaller.\<close>

definition exponents :: "int list" where
  "exponents = [- 1022..1023]"

definition exponent :: "rat \<Rightarrow> int option" where
  "exponent x = find (\<lambda>e. x < 2 powi (e + 1)) exponents"

definition round_at :: "int \<Rightarrow> rat \<Rightarrow> rat" where
  "round_at e x = of_int (round_even (x / 2 powi (e - 52))) * 2 powi (e - 52)"

definition f64_round :: "rat \<Rightarrow> f64" where
  "f64_round x =
     (case exponent x of
        None \<Rightarrow> Infinite
      | Some e \<Rightarrow> if round_at e x < 2 powi 1024 then Finite (round_at e x) else Infinite)"

fun f64_div :: "f64 \<Rightarrow> f64 \<Rightarrow> f64" where
  "f64_div (Finite a) (Finite b) =
     (if b \<noteq> 0 then f64_round (a / b) else if a = 0 then NaN else Infinite)"
| "f64_div (Finite a) Infinite = Finite 0"
| "f64_div Infinite (Finite b) = Infinite"
| "f64_div x y = NaN"

definition as_f64 :: "nat \<Rightarrow> f64" where
  "as_f64 n = f64_round (of_nat n)"

section \<open>Rounding to an integer\<close>

lemma round_even_near: "\<bar>of_int (round_even y) - y\<bar> \<le> 1 / 2"
proof -
  have "of_int \<lfloor>y\<rfloor> \<le> y" "y < of_int \<lfloor>y\<rfloor> + 1" by linarith+
  then show ?thesis unfolding round_even_def Let_def abs_le_iff by (auto simp: not_less) linarith
qed

lemma round_even_of_int [simp]: "round_even (of_int n) = n"
  by (simp add: round_even_def)

lemma round_even_mono:
  assumes "y \<le> z"
  shows "round_even y \<le> round_even z"
proof (rule ccontr)
  assume "\<not> round_even y \<le> round_even z"
  then have "round_even z + 1 \<le> round_even y" by simp
  then have "of_int (round_even z) + 1 \<le> (of_int (round_even y) :: rat)"
    by (metis of_int_1 of_int_add of_int_le_iff)
  with round_even_near [of y] round_even_near [of z] assms have "y = z" by linarith
  with \<open>\<not> round_even y \<le> round_even z\<close> show False by simp
qed

section \<open>Exponents\<close>

definition exponent_of :: "rat \<Rightarrow> int \<Rightarrow> bool" where
  "exponent_of x e \<longleftrightarrow> - 1022 \<le> e \<and> x < 2 powi (e + 1) \<and> (e = - 1022 \<or> 2 powi e \<le> x)"

lemma exponents_simps:
  "length exponents = 2046" "set exponents = {- 1022..1023}"
  "i < 2046 \<Longrightarrow> exponents ! i = int i - 1022"
  unfolding exponents_def set_upto length_upto by (simp_all add: nth_upto del: upto_rec_numeral)

lemma exponent_exists:
  assumes "x < 2 powi 1023"
  obtains e where "exponent x = Some e" "exponent_of x e" "e \<le> 1022"
proof -
  let ?P = "\<lambda>e. x < 2 powi (e + 1)"
  have "1022 \<in> set exponents" "?P 1022" using assms by (simp_all add: exponents_simps)
  then have "exponent x \<noteq> None" unfolding exponent_def find_None_iff by blast
  then obtain e where e: "exponent x = Some e" by blast
  then obtain i where i: "i < 2046" "?P (exponents ! i)" "e = exponents ! i" "\<forall>j < i. \<not> ?P (exponents ! j)"
    by (auto simp: exponent_def find_Some_iff exponents_simps(1))
  have e_i: "e = int i - 1022" using i(1,3) by (simp add: exponents_simps(3))
  have low: "2 powi k \<le> x" if "- 1022 < k" "k \<le> e" for k
  proof -
    have "nat (k + 1021) < i" "exponents ! nat (k + 1021) = k - 1"
      using that e_i i(1) by (auto simp: exponents_simps(3))
    with i(4) have "\<not> ?P (k - 1)" by metis
    then show ?thesis by simp
  qed
  have "exponent_of x e" using i(2,3) e_i low [of e] by (force simp: exponent_of_def)
  moreover have "e \<le> 1022"
  proof (rule ccontr)
    assume "\<not> e \<le> 1022"
    then have "2 powi 1023 \<le> x" by (intro low) auto
    then show False using assms by simp
  qed
  ultimately show ?thesis using that e by blast
qed

lemma powi_mono: "a \<le> b \<Longrightarrow> (2 :: rat) powi a \<le> 2 powi b"
  by (rule power_int_increasing) simp_all

lemma exponent_le:
  assumes "exponent_of x e" "exponent_of y e'" "x \<le> y"
  shows "e \<le> e'"
proof (rule ccontr)
  assume c: "\<not> e \<le> e'"
  then have "e \<noteq> - 1022" using assms(2) by (auto simp: exponent_of_def)
  then have "2 powi e \<le> x" using assms(1) by (simp add: exponent_of_def)
  moreover have "y < 2 powi (e' + 1)" using assms(2) by (simp add: exponent_of_def)
  moreover have "(2 :: rat) powi (e' + 1) \<le> 2 powi e" using c by (intro powi_mono) simp
  ultimately show False using assms(3) by linarith
qed

section \<open>Rounding to a float\<close>

lemma round_at_power:
  assumes "e - 52 \<le> j"
  shows "round_at e (2 powi j) = 2 powi j"
proof -
  obtain k :: nat where k: "j = e - 52 + int k" using assms by (metis zle_iff_zadd)
  then have "(2 :: rat) powi j = of_int (2 ^ k) * 2 powi (e - 52)" by (simp add: power_int_add)
  then show ?thesis by (simp add: round_at_def del: of_int_power)
qed

lemma round_at_mono: "x \<le> y \<Longrightarrow> round_at e x \<le> round_at e y"
  by (simp add: round_at_def round_even_mono divide_right_mono)

lemma round_at_near: "\<bar>round_at e x - x\<bar> \<le> 2 powi (e - 53)"
proof -
  let ?u = "(2 :: rat) powi (e - 52)"
  have "round_at e x - x = (of_int (round_even (x / ?u)) - x / ?u) * ?u"
    by (simp add: round_at_def algebra_simps)
  then have "\<bar>round_at e x - x\<bar> = \<bar>of_int (round_even (x / ?u)) - x / ?u\<bar> * ?u"
    by (simp add: abs_mult)
  also have "\<dots> \<le> 1 / 2 * ?u" by (intro mult_right_mono round_even_near) simp
  also have "1 / 2 * ?u = 2 powi (e - 53)" using power_int_add [of "2 :: rat" "e - 53" 1] by simp
  finally show ?thesis .
qed

lemma f64_round_finite:
  assumes "x < 2 powi 1023"
  obtains e where "exponent_of x e" "f64_round x = Finite (round_at e x)"
proof -
  from assms obtain e where e: "exponent x = Some e" "exponent_of x e" "e \<le> 1022"
    by (rule exponent_exists)
  have "x \<le> 2 powi (e + 1)" using e(2) by (simp add: exponent_of_def)
  then have "round_at e x \<le> round_at e (2 powi (e + 1))" by (rule round_at_mono)
  also have "\<dots> = 2 powi (e + 1)" by (rule round_at_power) simp
  also have "\<dots> < 2 powi 1024" using e(3) by (intro power_int_strict_increasing) auto
  finally have "f64_round x = Finite (round_at e x)" using e(1) by (simp add: f64_round_def)
  with e(2) show ?thesis by (rule that)
qed

lemma f64_round_mono:
  assumes "x \<le> y" "y < 2 powi 1023" "f64_round x = Finite a" "f64_round y = Finite b"
  shows "a \<le> b"
proof -
  from assms(1,2) have "x < 2 powi 1023" by linarith
  then obtain e where e: "exponent_of x e" "f64_round x = Finite (round_at e x)" by (rule f64_round_finite)
  from assms(2) obtain e' where e': "exponent_of y e'" "f64_round y = Finite (round_at e' y)"
    by (rule f64_round_finite)
  have ab: "a = round_at e x" "b = round_at e' y" using e(2) e'(2) assms(3,4) by simp_all
  have "e \<le> e'" by (rule exponent_le [OF e(1) e'(1) assms(1)])
  show ?thesis
  proof (cases "e = e'")
    case True
    then show ?thesis using ab round_at_mono [OF assms(1)] by simp
  next
    case False
    with \<open>e \<le> e'\<close> have less: "e + 1 \<le> e'" by simp
    have "x \<le> 2 powi (e + 1)" using e(1) by (simp add: exponent_of_def)
    from round_at_mono [OF this, of e] have "a \<le> 2 powi (e + 1)"
      using round_at_power [of e "e + 1"] by (simp add: ab)
    also have "\<dots> \<le> 2 powi e'" using less by (rule powi_mono)
    also have "2 powi e' \<le> b"
    proof -
      have "e' \<noteq> - 1022" using less e(1) by (auto simp: exponent_of_def)
      then have "2 powi e' \<le> y" using e'(1) by (simp add: exponent_of_def)
      from round_at_mono [OF this, of e'] show ?thesis by (simp add: ab round_at_power)
    qed
    finally show ?thesis .
  qed
qed

text \<open>The relative error, for a number in the normal range.\<close>

lemma f64_round_near:
  assumes "2 powi (- 1022) \<le> x" "x < 2 powi 1023"
  obtains r where "f64_round x = Finite r" "\<bar>r - x\<bar> \<le> x / 2 ^ 53"
proof -
  from assms(2) obtain e where e: "exponent_of x e" "f64_round x = Finite (round_at e x)"
    by (rule f64_round_finite)
  have "2 powi e \<le> x" using e(1) assms(1) by (auto simp: exponent_of_def)
  moreover have "(2 :: rat) powi (e - 53) = 2 powi e / 2 ^ 53"
    using power_int_add [of "2 :: rat" "e - 53" 53] by (simp add: field_simps)
  ultimately have "\<bar>round_at e x - x\<bar> \<le> x / 2 ^ 53"
    using round_at_near [of e x] by (simp add: divide_right_mono order_trans)
  with e(2) show ?thesis by (rule that)
qed

text \<open>Zero and one are floats.\<close>

lemma f64_round_0: "f64_round 0 = Finite 0"
proof -
  obtain e where "f64_round 0 = Finite (round_at e 0)" by (rule f64_round_finite [of 0]) simp_all
  moreover have "round_at e 0 = 0" using round_even_of_int [of 0] by (simp add: round_at_def)
  ultimately show ?thesis by simp
qed

lemma f64_round_1: "f64_round 1 = Finite 1"
proof -
  obtain e where e: "exponent_of 1 e" "f64_round 1 = Finite (round_at e 1)"
    by (rule f64_round_finite [of 1]) simp_all
  have "e = 0"
  proof (rule antisym)
    show "e \<le> 0" using exponent_le [OF e(1), of 1 0] by (simp add: exponent_of_def)
    show "0 \<le> e" using exponent_le [of 1 0 1 e] e(1) by (simp add: exponent_of_def)
  qed
  then show ?thesis using e(2) round_at_power [of 0 0] by simp
qed

end
