(* ===== verification/HitRate.thy ===== *)
theory HitRate
  imports TlbSim Float64
begin

text \<open>
  \<^verbatim>\<open>exercises/06_page_table/04_tlb_sim/src/lib.rs\<close>, \<^verbatim>\<open>TlbStats::hit_rate\<close>: the share of the lookups that
  hit, as a floating point number (theory Float64).
\<close>

section \<open>The hit rate\<close>

definition hit_rate :: "bool \<Rightarrow> TlbStats \<Rightarrow> f64 res" where
  "hit_rate ck s =
     bind_res (add_ck ck (hits s) (misses s)) (\<lambda>all.
       Inr (if all = 0 then Finite 0 else f64_div (as_f64 (unat (hits s))) (as_f64 (unat all))))"

lemma below_max: "n < 2 ^ 64 \<Longrightarrow> (of_nat n :: rat) < 2 powi 1023"
proof -
  assume "n < 2 ^ 64"
  then have "(of_nat n :: rat) < of_nat (2 ^ 64)" by (simp only: of_nat_less_iff)
  then show ?thesis using power_int_strict_increasing [of 64 1023 "2 :: rat"] by simp
qed

lemma as_f64_near:
  assumes "n < 2 ^ 64"
  obtains r where "as_f64 n = Finite r" "\<bar>r - of_nat n\<bar> \<le> 1 / 2 ^ 53 * of_nat n"
    "r \<le> 2 powi 65" "if n = 0 then r = 0 else 1 \<le> r"
proof (cases "n = 0")
  case True
  then show ?thesis using that [of 0] f64_round_0 by (simp add: as_f64_def)
next
  case False
  have le64: "(of_nat n :: rat) \<le> 2 ^ 64"
    using assms by (metis of_nat_le_iff of_nat_numeral of_nat_power less_imp_le)
  have "1 \<le> (of_nat n :: rat)" using False by simp
  moreover have "(2 :: rat) powi (- 1022) \<le> 1" using powi_mono [of "- 1022" 0] by simp
  ultimately have "2 powi (- 1022) \<le> (of_nat n :: rat)" by linarith
  from f64_round_near [OF this below_max [OF assms]] obtain r where
    r: "f64_round (of_nat n) = Finite r" "\<bar>r - of_nat n\<bar> \<le> of_nat n / 2 ^ 53" .
  have "1 \<le> r" using f64_round_mono [OF _ below_max [OF assms] f64_round_1 r(1)] False by simp
  moreover have "r \<le> 2 powi 65"
  proof -
    have "(of_nat n :: rat) / 2 ^ 53 \<le> of_nat n" by (simp add: divide_le_eq)
    then have "r \<le> 2 * of_nat n" using r(2) by linarith
    also have "\<dots> \<le> 2 * 2 ^ 64" using le64 by simp
    finally show ?thesis by simp
  qed
  ultimately show ?thesis using that r False by (simp add: as_f64_def)
qed

text \<open>The error of the quotient: three roundings, each relative to a number that is at most one.\<close>

lemma quotient_near:
  fixes h t h' t' r e :: rat
  assumes "0 < h" "h \<le> t" "h' \<le> t'" "0 < e" "e < 1"
    and "\<bar>h' - h\<bar> \<le> e * h" "\<bar>t' - t\<bar> \<le> e * t" "\<bar>r - h' / t'\<bar> \<le> e * (h' / t')"
  shows "\<bar>r - h / t\<bar> \<le> 3 * e"
proof -
  have t: "0 < t" using assms(1,2) by simp
  have h': "h * (1 - e) \<le> h'" "h' \<le> h * (1 + e)" and t': "t * (1 - e) \<le> t'" "t' \<le> t * (1 + e)"
    using assms(6,7) by (simp_all add: abs_le_iff algebra_simps)
  have pos: "0 < h'" "0 < t'"
    using h'(1) t'(1) assms(1,5) t by (auto elim!: less_le_trans [rotated])
  define x q where "x = h / t" and "q = h' / t'"
  have x: "0 \<le> x" "x \<le> 1" "x * t = h" and q: "0 \<le> q" "q \<le> 1" "q * t' = h'"
    using assms(1-3) t pos by (simp_all add: x_def q_def)
  have "q * (1 - e) * t \<le> q * t'" "q * t' \<le> q * (1 + e) * t"
    using mult_left_mono [OF t'(1) q(1)] mult_left_mono [OF t'(2) q(1)] by (simp_all add: ac_simps)
  then have "q * (1 - e) * t \<le> x * (1 + e) * t" "x * (1 - e) * t \<le> q * (1 + e) * t"
    using h' unfolding q(3) x(3) [symmetric] by (auto simp: ac_simps intro: order_trans)
  then have "q * (1 - e) \<le> x * (1 + e)" "x * (1 - e) \<le> q * (1 + e)" using t by simp_all
  then have "q \<le> x + e * x + e * q" "x \<le> q + e * q + e * x" by (simp_all add: algebra_simps)
  moreover have "e * x \<le> e" "e * q \<le> e" using assms(4) x(2) q(2) by simp_all
  moreover have "\<bar>r - q\<bar> \<le> e * q" using assms(8) by (simp add: q_def)
  ultimately show ?thesis by (simp add: abs_le_iff x_def [symmetric])
qed

text \<open>A rate is a number from 0 to 1, as close to the share of the hits as three roundings
  allow: 0 only when nothing hit, and exactly 1 when nothing missed. Counters whose sum overflows panic
  where overflow is checked.\<close>

theorem hit_rate_bounds:
  "if unat (hits s) + unat (misses s) < 2 ^ 64
   then \<exists>r. hit_rate ck s = Inr (Finite r) \<and> 0 \<le> r \<and> r \<le> 1 \<and> (r = 0 \<longleftrightarrow> hits s = 0) \<and>
     \<bar>r - of_nat (unat (hits s)) / of_nat (unat (hits s) + unat (misses s))\<bar> \<le> 1 / 2 ^ 51 \<and>
     (if misses s = 0 \<and> hits s \<noteq> 0 then r = 1 else True)
   else hit_rate True s = Inl Overflow"
proof (cases "unat (hits s) + unat (misses s) < 2 ^ 64")
  case False
  then show ?thesis by (simp add: hit_rate_def add_ck_def)
next
  case True
  let ?h = "unat (hits s)" and ?t = "unat (hits s) + unat (misses s)"
  have sum: "unat (hits s + misses s) = ?t" using True by (simp add: unat_add_in_range)
  have rate: "hit_rate ck s =
      Inr (if ?t = 0 then Finite 0 else f64_div (as_f64 ?h) (as_f64 ?t))"
    using True sum by (simp add: hit_rate_def add_ck_in_range unat_eq_zero [symmetric])
  have zero: "hits s = 0 \<longleftrightarrow> ?h = 0" "misses s = 0 \<longleftrightarrow> unat (misses s) = 0" by (simp_all add: unat_eq_zero)
  have t64: "?t < 2 ^ 64" using True .
  then have h64: "?h < 2 ^ 64" by simp
  from t64 obtain t' where t': "as_f64 ?t = Finite t'" "\<bar>t' - of_nat ?t\<bar> \<le> 1 / 2 ^ 53 * of_nat ?t"
      "t' \<le> 2 powi 65" "if ?t = 0 then t' = 0 else 1 \<le> t'" by (rule as_f64_near)
  from h64 obtain h' where h': "as_f64 ?h = Finite h'" "\<bar>h' - of_nat ?h\<bar> \<le> 1 / 2 ^ 53 * of_nat ?h"
      "if ?h = 0 then h' = 0 else 1 \<le> h'" by (rule as_f64_near)
  show ?thesis
  proof (cases "?h = 0")
    case True
    then have "hit_rate ck s = Inr (Finite 0)"
      using rate h'(1,3) t'(1,4) f64_round_0 by (cases "?t = 0") auto
    then show ?thesis using True t64 zero by simp
  next
    case False
    have "h' \<le> t'"
      by (rule f64_round_mono [OF _ below_max [OF t64] h'(1) [unfolded as_f64_def] t'(1) [unfolded as_f64_def]])
        (simp only: of_nat_le_iff le_add1)
    let ?q = "h' / t'"
    have pos: "1 \<le> h'" "0 < t'" using h'(3) t'(4) False by auto
    have "?q \<le> 1" using pos \<open>h' \<le> t'\<close> by simp
    have "(2 :: rat) powi (- 1022) \<le> 1 / 2 powi 65" using powi_mono [of "- 1022" "- 65"] by simp
    also have "\<dots> \<le> ?q" using pos t'(3) by (intro frac_le) simp_all
    finally have q: "2 powi (- 1022) \<le> ?q" .
    have "?q < 2 powi 1023" using \<open>?q \<le> 1\<close> power_int_strict_increasing [of 0 1023 "2 :: rat"] by simp
    from f64_round_near [OF q this] obtain r where r: "f64_round ?q = Finite r" "\<bar>r - ?q\<bar> \<le> ?q / 2 ^ 53" .
    have "hit_rate ck s = Inr (Finite r)" using rate False h'(1) t'(1) pos r(1) by simp
    moreover have "r \<le> 1" using f64_round_mono [OF \<open>?q \<le> 1\<close> _ r(1) f64_round_1] by simp
    moreover have "0 < ?q" using pos by simp
    with r(2) have "0 < r" by (simp add: abs_le_iff)
    moreover have "\<bar>r - of_nat ?h / of_nat ?t\<bar> \<le> 3 * (1 / 2 ^ 53)"
    proof (rule quotient_near [OF _ _ \<open>h' \<le> t'\<close> _ _ h'(2) t'(2)])
      show "0 < (of_nat ?h :: rat)" "of_nat ?h \<le> (of_nat ?t :: rat)"
        using False by (simp_all only: of_nat_0_less_iff of_nat_le_iff neq0_conv le_add1)
    qed (use r(2) in simp_all)
    moreover have "r = 1" if "misses s = 0"
      using that r(1) h'(1) t'(1) pos f64_round_1 by simp
    ultimately show ?thesis using t64 False zero by auto
  qed
qed

end
