(* ===== verification/Memory.thy ===== *)
theory Memory
  imports Prelude
begin

text \<open>
  Byte-addressed memory, for the code that works on raw pointers. Memory is a partial map from
  addresses to bytes; reading or writing through a pointer to an address that is not mapped, or
  past the end of the address space, is undefined behaviour and is the value \<open>InvalidAccess\<close>.
\<close>

type_synonym mem = "usize \<rightharpoonup> u8"

text \<open>\<^verbatim>\<open>*p.add(i)\<close> and \<^verbatim>\<open>*p.add(i) = b\<close>.\<close>

definition load :: "mem \<Rightarrow> usize \<Rightarrow> nat \<Rightarrow> u8 res" where
  "load m p i =
     (if unat p + i < 2 ^ 64 then
        (case m (p + of_nat i) of None \<Rightarrow> Inl InvalidAccess | Some b \<Rightarrow> Inr b)
      else Inl InvalidAccess)"

definition store :: "mem \<Rightarrow> usize \<Rightarrow> nat \<Rightarrow> u8 \<Rightarrow> mem res" where
  "store m p i b =
     (if unat p + i < 2 ^ 64 \<and> m (p + of_nat i) \<noteq> None then Inr (m(p + of_nat i \<mapsto> b))
      else Inl InvalidAccess)"

text \<open>A buffer of \<open>n\<close> bytes at \<open>p\<close>: mapped, and ending before the end of the address space, as
  every Rust allocation does.\<close>

definition buffer :: "mem \<Rightarrow> usize \<Rightarrow> nat \<Rightarrow> bool" where
  "buffer m p n \<longleftrightarrow> unat p + n < 2 ^ 64 \<and> (\<forall>i < n. m (p + of_nat i) \<noteq> None)"

text \<open>Memory with the bytes at the offsets in \<open>I\<close> from \<open>p\<close> replaced.\<close>

definition patch :: "mem \<Rightarrow> usize \<Rightarrow> nat set \<Rightarrow> (nat \<Rightarrow> u8) \<Rightarrow> mem" where
  "patch m p I g =
     (\<lambda>a. if p \<le> a \<and> unat a - unat p \<in> I then Some (g (unat a - unat p)) else m a)"

lemma unat_ptr_add:
  "unat (p::usize) + i < 2 ^ 64 \<Longrightarrow> unat (p + of_nat i) = unat p + i"
  by (simp add: unat_word_ariths unat_of_nat)

lemma ptr_add_eq_iff:
  "unat (p::usize) + i < 2 ^ 64 \<Longrightarrow> unat q + j < 2 ^ 64 \<Longrightarrow>
   p + of_nat i = q + of_nat j \<longleftrightarrow> unat p + i = unat q + j"
  by (simp add: word_unat_eq_iff unat_ptr_add)

lemma ptr_offset:
  "(p::usize) \<le> a \<Longrightarrow> p + of_nat (unat a - unat p) = a"
  by (simp add: word_unat_eq_iff unat_word_ariths unat_of_nat word_le_nat_alt)

lemma load_Inr_bound: "load m p i = Inr b \<Longrightarrow> unat p + i < 2 ^ 64"
  by (auto simp: load_def split: if_splits)

lemma load_Inl: "load m p i = Inl e \<Longrightarrow> e = InvalidAccess"
  by (auto simp: load_def split: if_splits option.splits)

lemma patch_empty [simp]: "patch m p {} g = m"
  by (simp add: patch_def)

lemma patch_at:
  assumes "unat (p::usize) + i < 2 ^ 64"
  shows "patch m p I g (p + of_nat i) = (if i \<in> I then Some (g i) else m (p + of_nat i))"
  using assms by (simp add: patch_def unat_ptr_add word_le_nat_alt)

text \<open>Reading at another pointer.\<close>

lemma patch_at_other:
  assumes "unat (q::usize) + i < 2 ^ 64"
  shows "patch m p I g (q + of_nat i) =
    (if unat p \<le> unat q + i \<and> unat q + i - unat p \<in> I then Some (g (unat q + i - unat p))
     else m (q + of_nat i))"
  using assms by (simp add: patch_def unat_ptr_add word_le_nat_alt)

lemma patch_update:
  assumes "unat (p::usize) + i < 2 ^ 64"
  shows "(patch m p I g)(p + of_nat i \<mapsto> g i) = patch m p (insert i I) g"
proof
  fix a
  consider "a = p + of_nat i" | "a \<noteq> p + of_nat i" "p \<le> a \<longrightarrow> unat a - unat p \<noteq> i"
    using ptr_offset [of p a] by metis
  then show "((patch m p I g)(p + of_nat i \<mapsto> g i)) a = patch m p (insert i I) g a"
  proof cases
    case 1
    have "patch m p (insert i I) g (p + of_nat i) = Some (g i)"
      unfolding patch_at [OF assms] by (simp only: insertI1 if_True)
    then show ?thesis unfolding 1 by (simp only: fun_upd_same)
  next
    case 2
    have "(patch m p I g) a = patch m p (insert i I) g a"
      using 2(2) unfolding patch_def insert_iff by argo
    then show ?thesis by (simp only: fun_upd_other [OF 2(1)])
  qed
qed

lemma store_patch:
  assumes "buffer m p n" "i < n"
  shows "store (patch m p I g) p i (g i) = Inr (patch m p (insert i I) g)"
proof -
  from assms have "unat p + i < 2 ^ 64" "m (p + of_nat i) \<noteq> None" by (auto simp: buffer_def)
  then show ?thesis by (simp add: store_def patch_at patch_update)
qed

lemma load_buffer:
  "buffer m p n \<Longrightarrow> i < n \<Longrightarrow> load m p i = Inr (the (m (p + of_nat i)))"
  by (auto simp: buffer_def load_def)

end
