(* ===== verification/MemPrimitives.thy ===== *)
theory MemPrimitives
  imports Memory
begin

text \<open>
  \<^verbatim>\<open>exercises/02_no_std_dev/01_mem_primitives/src/lib.rs\<close>: memcpy, memset, memmove, strlen and
  strcmp over raw pointers. Each function returns its result with the memory it leaves.
\<close>

section \<open>The functions\<close>

text \<open>\<^verbatim>\<open>*dst.add(i) = *src.add(i)\<close>.\<close>

definition copy_byte :: "mem \<Rightarrow> usize \<Rightarrow> usize \<Rightarrow> nat \<Rightarrow> mem res" where
  "copy_byte m dst src i = bind_res (load m src i) (store m dst i)"

text \<open>The loop \<^verbatim>\<open>for i in 0..n\<close>, from index \<open>i\<close> with \<open>k\<close> iterations to go.\<close>

fun copy_up :: "mem \<Rightarrow> usize \<Rightarrow> usize \<Rightarrow> nat \<Rightarrow> nat \<Rightarrow> mem res" where
  "copy_up m dst src i 0 = Inr m"
| "copy_up m dst src i (Suc k) =
     bind_res (copy_byte m dst src i) (\<lambda>m'. copy_up m' dst src (Suc i) k)"

definition my_memcpy :: "mem \<Rightarrow> usize \<Rightarrow> usize \<Rightarrow> usize \<Rightarrow> (usize \<times> mem) res" where
  "my_memcpy m dst src n =
     bind_res (copy_up m dst src 0 (unat n)) (\<lambda>m'. Inr (dst, m'))"

fun fill_up :: "mem \<Rightarrow> usize \<Rightarrow> u8 \<Rightarrow> nat \<Rightarrow> nat \<Rightarrow> mem res" where
  "fill_up m dst c i 0 = Inr m"
| "fill_up m dst c i (Suc k) = bind_res (store m dst i c) (\<lambda>m'. fill_up m' dst c (Suc i) k)"

definition my_memset :: "mem \<Rightarrow> usize \<Rightarrow> u8 \<Rightarrow> usize \<Rightarrow> (usize \<times> mem) res" where
  "my_memset m dst c n =
     bind_res (fill_up m dst c 0 (unat n)) (\<lambda>m'. Inr (dst, m'))"

text \<open>The backward loop of \<^verbatim>\<open>my_memmove\<close>: \<^verbatim>\<open>while i > 0 { i -= 1; ... }\<close>.\<close>

fun copy_down :: "mem \<Rightarrow> usize \<Rightarrow> usize \<Rightarrow> nat \<Rightarrow> mem res" where
  "copy_down m dst src 0 = Inr m"
| "copy_down m dst src (Suc i) =
     bind_res (copy_byte m dst src i) (\<lambda>m'. copy_down m' dst src i)"

text \<open>The sum \<^verbatim>\<open>src as usize + n\<close> is only evaluated when \<^verbatim>\<open>dst > src\<close>.\<close>

definition my_memmove :: "bool \<Rightarrow> mem \<Rightarrow> usize \<Rightarrow> usize \<Rightarrow> usize \<Rightarrow> (usize \<times> mem) res" where
  "my_memmove ck m dst src n =
     (if n = 0 \<or> dst = src then Inr (dst, m)
      else
        bind_res
          (if dst > src then bind_res (add_ck ck src n) (\<lambda>e. Inr (dst < e)) else Inr False)
          (\<lambda>backward.
             if backward then
               bind_res (copy_down m dst src (unat n)) (\<lambda>m'. Inr (dst, m'))
             else
               bind_res (my_memcpy m dst src n) (\<lambda>(_, m'). Inr (dst, m'))))"

text \<open>The loops of \<^verbatim>\<open>my_strlen\<close> and \<^verbatim>\<open>my_strcmp\<close> stop at the latest at the end of the address
  space, where the read is an invalid access; their index therefore never overflows. The difference
  of two bytes as \<^verbatim>\<open>i32\<close> cannot overflow either.\<close>

function strlen_from :: "mem \<Rightarrow> usize \<Rightarrow> nat \<Rightarrow> nat res" where
  "strlen_from m s len =
     bind_res (load m s len) (\<lambda>b. if b \<noteq> 0 then strlen_from m s (Suc len) else Inr len)"
  by pat_completeness auto
termination
  by (relation "measure (\<lambda>(m, s, len). 2 ^ 64 - len)") (auto dest: load_Inr_bound)

definition my_strlen :: "mem \<Rightarrow> usize \<Rightarrow> usize res" where
  "my_strlen m s = bind_res (strlen_from m s 0) (\<lambda>len. Inr (of_nat len))"

function strcmp_from :: "mem \<Rightarrow> usize \<Rightarrow> usize \<Rightarrow> nat \<Rightarrow> i32 res" where
  "strcmp_from m s1 s2 i =
     bind_res (load m s1 i) (\<lambda>b1. bind_res (load m s2 i) (\<lambda>b2.
       if b1 \<noteq> b2 \<or> b1 = 0 then Inr (ucast b1 - ucast b2)
       else strcmp_from m s1 s2 (Suc i)))"
  by pat_completeness auto
termination
  by (relation "measure (\<lambda>(m, s1, s2, i). 2 ^ 64 - i)") (auto dest: load_Inr_bound)

definition my_strcmp :: "mem \<Rightarrow> usize \<Rightarrow> usize \<Rightarrow> i32 res" where
  "my_strcmp m s1 s2 = strcmp_from m s1 s2 0"

declare strlen_from.simps [simp del] strcmp_from.simps [simp del]

section \<open>Copying and filling\<close>

text \<open>Both copy loops write the bytes of a function \<open>g\<close>, as long as each byte they read is the one
  to be written there.\<close>

lemma copy_up_patch:
  assumes "buffer m dst n"
  shows "i + k \<le> n \<Longrightarrow>
     (\<And>j. i \<le> j \<Longrightarrow> j < i + k \<Longrightarrow> load (patch m dst {..<j} g) src j = Inr (g j)) \<Longrightarrow>
     copy_up (patch m dst {..<i} g) dst src i k = Inr (patch m dst {..<i + k} g)"
proof (induction k arbitrary: i)
  case (Suc k)
  have "copy_byte (patch m dst {..<i} g) dst src i = Inr (patch m dst {..<Suc i} g)"
    using Suc.prems by (simp add: copy_byte_def store_patch [OF assms] lessThan_Suc)
  then show ?case using Suc by simp
qed simp

lemma copy_down_patch:
  assumes "buffer m dst n"
  shows "i \<le> n \<Longrightarrow>
     (\<And>j. j < i \<Longrightarrow> load (patch m dst {Suc j..<n} g) src j = Inr (g j)) \<Longrightarrow>
     copy_down (patch m dst {i..<n} g) dst src i = Inr (patch m dst {..<n} g)"
proof (induction i)
  case (Suc i)
  have "insert i {Suc i..<n} = {i..<n}" using Suc.prems(1) by auto
  then have "copy_byte (patch m dst {Suc i..<n} g) dst src i = Inr (patch m dst {i..<n} g)"
    using Suc.prems by (simp add: copy_byte_def store_patch [OF assms])
  then show ?case using Suc by simp
qed (simp add: atLeast0LessThan)

lemma fill_up_patch:
  assumes "buffer m dst n"
  shows "i + k \<le> n \<Longrightarrow>
     fill_up (patch m dst {..<i} (\<lambda>_. c)) dst c i k = Inr (patch m dst {..<i + k} (\<lambda>_. c))"
proof (induction k arbitrary: i)
  case (Suc k)
  have "store (patch m dst {..<i} (\<lambda>_. c)) dst i c = Inr (patch m dst {..<Suc i} (\<lambda>_. c))"
    using store_patch [OF assms, of i "{..<i}" "\<lambda>_. c"] Suc.prems by (simp add: lessThan_Suc)
  then show ?case using Suc by simp
qed simp

abbreviation byte :: "mem \<Rightarrow> usize \<Rightarrow> nat \<Rightarrow> u8" where
  "byte m p i \<equiv> the (m (p + of_nat i))"

lemma load_patched:
  assumes "buffer m src n" "j < n"
  shows "load (patch m dst I g) src j =
    Inr (if unat dst \<le> unat src + j \<and> unat src + j - unat dst \<in> I
         then g (unat src + j - unat dst) else byte m src j)"
proof -
  from assms have "unat src + j < 2 ^ 64" "m (src + of_nat j) \<noteq> None" by (auto simp: buffer_def)
  then show ?thesis by (auto simp: load_def patch_at_other)
qed

text \<open>The byte an ascending copy puts at offset \<open>j\<close>: when the destination starts \<open>d\<close> bytes into the
  source, the first \<open>d\<close> bytes of the source repeat.\<close>

definition up_index :: "usize \<Rightarrow> usize \<Rightarrow> nat \<Rightarrow> nat" where
  "up_index dst src j = (if src < dst then j mod (unat dst - unat src) else j)"

lemma my_memcpy_patch:
  assumes "buffer m src (unat n)" "buffer m dst (unat n)"
  shows "my_memcpy m dst src n =
    Inr (dst, patch m dst {..<unat n} (\<lambda>j. byte m src (up_index dst src j)))"
proof -
  have "copy_up (patch m dst {..<0} (\<lambda>j. byte m src (up_index dst src j))) dst src 0 (unat n) =
      Inr (patch m dst {..<0 + unat n} (\<lambda>j. byte m src (up_index dst src j)))"
  proof (rule copy_up_patch [OF assms(2)])
    fix j assume j: "j < 0 + unat n"
    show "load (patch m dst {..<j} (\<lambda>j. byte m src (up_index dst src j))) src j =
      Inr (byte m src (up_index dst src j))"
    proof (cases "src < dst")
      case True
      define d where "d = unat dst - unat src"
      have d: "0 < d" "unat dst = unat src + d" using True by (auto simp: d_def word_less_nat_alt)
      show ?thesis
        using j d True
        by (auto simp: load_patched [OF assms(1)] up_index_def mod_if le_mod_geq)
    next
      case False
      then show ?thesis
        using j by (auto simp: load_patched [OF assms(1)] up_index_def word_less_nat_alt)
    qed
  qed simp
  then show ?thesis by (simp add: my_memcpy_def)
qed

lemma my_memmove_patch:
  assumes "buffer m src (unat n)" "buffer m dst (unat n)"
  shows "my_memmove ck m dst src n = Inr (dst, patch m dst {..<unat n} (byte m src))"
proof (cases "n = 0 \<or> dst = src")
  case True
  have "patch m src {..<unat n} (byte m src) = m"
  proof
    fix a
    have "m a = Some (byte m src (unat a - unat src))"
      if "src \<le> a" "unat a - unat src < unat n"
      using assms(1) that unfolding buffer_def by (metis ptr_offset option.collapse)
    then show "patch m src {..<unat n} (byte m src) a = m a" by (auto simp: patch_def)
  qed
  then show ?thesis using True by (auto simp: my_memmove_def)
next
  case False
  have sum: "add_ck ck src n = Inr (src + n)" and usum: "unat (src + n) = unat src + unat n"
    using assms(1) by (simp_all add: buffer_def add_ck_in_range unat_add_in_range)
  show ?thesis
  proof (cases "src < dst \<and> dst < src + n")
    case True
    then have lt: "unat src < unat dst" by (simp add: word_less_nat_alt)
    have "copy_down (patch m dst {unat n..<unat n} (byte m src)) dst src (unat n) =
        Inr (patch m dst {..<unat n} (byte m src))"
      by (rule copy_down_patch [OF assms(2)]) (use lt in \<open>auto simp: load_patched [OF assms(1)]\<close>)
    then show ?thesis using False True by (auto simp: my_memmove_def sum)
  next
    case far: False
    have idx: "up_index dst src j = j" if "j < unat n" for j
      using far that by (auto simp: up_index_def word_less_nat_alt usum)
    have "patch m dst {..<unat n} (\<lambda>j. byte m src (up_index dst src j)) =
        patch m dst {..<unat n} (byte m src)"
      by (rule ext) (simp add: patch_def idx)
    then show ?thesis
      using False far by (auto simp: my_memmove_def sum my_memcpy_patch [OF assms])
  qed
qed

text \<open>The contract shared by the three functions: the destination is returned and holds the bytes of
  \<open>g\<close>, and no other byte of memory changes.\<close>

definition region :: "usize \<Rightarrow> nat \<Rightarrow> usize set" where
  "region p n = (\<lambda>i. p + of_nat i) ` {..<n}"

definition writes :: "mem \<Rightarrow> usize \<Rightarrow> nat \<Rightarrow> (nat \<Rightarrow> u8) \<Rightarrow> mem \<Rightarrow> bool" where
  "writes m p n g m' \<longleftrightarrow>
     (\<forall>i < n. m' (p + of_nat i) = Some (g i)) \<and> (\<forall>a. a \<notin> region p n \<longrightarrow> m' a = m a)"

lemma writes_patch:
  assumes "buffer m p n"
  shows "writes m p n g (patch m p {..<n} g)"
  unfolding writes_def
proof (intro conjI allI impI)
  fix i assume "i < n"
  with assms show "patch m p {..<n} g (p + of_nat i) = Some (g i)"
    by (simp add: buffer_def patch_at)
next
  fix a assume "a \<notin> region p n"
  then have "\<not> (p \<le> a \<and> unat a - unat p < n)"
    using ptr_offset [of p a] unfolding region_def by (metis image_eqI lessThan_iff)
  then show "patch m p {..<n} g a = m a" by (auto simp: patch_def)
qed

text \<open>C18: memmove is a copy of the source as it was, for every layout of the two buffers,
  overlapping or not, and in every build profile: it returns the destination, whose bytes are the
  old bytes of the source, changes no other byte and makes no invalid access.\<close>

theorem my_memmove_copies:
  assumes "buffer m src (unat n)" "buffer m dst (unat n)"
  shows "\<exists>m'. my_memmove ck m dst src n = Inr (dst, m') \<and>
    writes m dst (unat n) (\<lambda>i. the (m (src + of_nat i))) m'"
  using my_memmove_patch [OF assms] writes_patch [OF assms(2)] by blast

text \<open>Memcpy gives the same as memmove unless the destination starts inside the source: then the
  bytes before it are copied over and over.\<close>

theorem my_memcpy_copies:
  assumes "buffer m src (unat n)" "buffer m dst (unat n)"
  shows "\<exists>m'. my_memcpy m dst src n = Inr (dst, m') \<and>
    writes m dst (unat n) (\<lambda>i. the (m (src + of_nat
      (if src < dst then i mod (unat dst - unat src) else i)))) m'"
  using my_memcpy_patch [OF assms] writes_patch [OF assms(2)] by (fold up_index_def) blast

text \<open>Memset fills its buffer and nothing else.\<close>

theorem my_memset_fills:
  assumes "buffer m dst (unat n)"
  shows "\<exists>m'. my_memset m dst c n = Inr (dst, m') \<and> writes m dst (unat n) (\<lambda>_. c) m'"
  using fill_up_patch [OF assms, of 0 "unat n" c] writes_patch [OF assms, of "\<lambda>_. c"]
  by (simp add: my_memset_def)

text \<open>A memory of five bytes, for the examples.\<close>

definition five :: mem where
  "five = [0x10 \<mapsto> 1, 0x11 \<mapsto> 2, 0x12 \<mapsto> 3, 0x13 \<mapsto> 4, 0x14 \<mapsto> 0]"

lemma buffer_3:
  "buffer m p 3 \<longleftrightarrow> unat p + 3 < 2 ^ 64 \<and> m p \<noteq> None \<and> m (p + 1) \<noteq> None \<and> m (p + 2) \<noteq> None"
  unfolding buffer_def numeral_3_eq_3 All_less_Suc by (auto simp: add.commute)

lemma five_buffers:
  "buffer five 0x10 (unat (3::usize))" "buffer five 0x11 (unat (3::usize))"
  by (simp_all add: buffer_3 five_def)

theorem my_memmove_copies_witness:
  "\<exists>m'. my_memmove True five 0x11 0x10 3 = Inr (0x11, m') \<and>
    writes five 0x11 3 (\<lambda>i. the (five (0x10 + of_nat i))) m' \<and>
    m' 0x11 = Some 1 \<and> m' 0x12 = Some 2 \<and> m' 0x13 = Some 3"
proof -
  from my_memmove_copies [OF five_buffers] obtain m' where
    m': "my_memmove True five 0x11 0x10 3 = Inr (0x11, m')"
      "writes five 0x11 3 (\<lambda>i. the (five (0x10 + of_nat i))) m'"
    by auto
  from m'(2) have "m' (0x11 + of_nat i) = five (0x10 + of_nat i)" if "i < 3" for i
    using that five_buffers(1) unfolding writes_def buffer_def by simp
  from this [of 0] this [of 1] this [of 2] m' show ?thesis by (auto simp: five_def)
qed

theorem my_memcpy_copies_witness:
  "\<exists>m'. my_memcpy five 0x11 0x10 3 = Inr (0x11, m') \<and>
    m' 0x11 = Some 1 \<and> m' 0x12 = Some 1 \<and> m' 0x13 = Some 1"
proof -
  from my_memcpy_copies [OF five_buffers] obtain m' where
    m': "my_memcpy five 0x11 0x10 3 = Inr (0x11, m')"
      "writes five 0x11 3 (\<lambda>i. the (five (0x10 + of_nat
        (if (0x10::usize) < 0x11 then i mod (unat (0x11::usize) - unat (0x10::usize)) else i)))) m'"
    by auto
  from m'(2) have "m' (0x11 + of_nat i) = Some (the (five (0x10 + of_nat (i mod 1))))" if "i < 3" for i
    using that unfolding writes_def by simp
  from this [of 0] this [of 1] this [of 2] m'(1) show ?thesis by (auto simp: five_def)
qed

theorem my_memset_fills_witness:
  "\<exists>m'. my_memset five 0x10 7 3 = Inr (0x10, m') \<and> writes five 0x10 3 (\<lambda>_. 7) m'"
  using my_memset_fills [OF five_buffers(1)] by simp

section \<open>Strings\<close>

text \<open>A null-terminated string at \<open>s\<close>, with its bytes.\<close>

definition cstring :: "mem \<Rightarrow> usize \<Rightarrow> u8 list \<Rightarrow> bool" where
  "cstring m s xs \<longleftrightarrow>
     0 \<notin> set xs \<and> (\<forall>i \<le> length xs. load m s i = Inr ((xs @ [0]) ! i))"

lemma cstring_upt:
  "cstring m s xs \<longleftrightarrow>
     0 \<notin> set xs \<and> (\<forall>i \<in> set [0..<Suc (length xs)]. load m s i = Inr ((xs @ [0]) ! i))"
  by (auto simp: cstring_def less_Suc_eq_le)

lemma cstring_load:
  assumes "cstring m s xs" "i \<le> length xs"
  shows "load m s i = Inr (case drop i xs of [] \<Rightarrow> 0 | x # _ \<Rightarrow> x)"
  using assms by (cases "i < length xs") (auto simp: cstring_def nth_append Cons_nth_drop_Suc [symmetric])

lemma strlen_from_cstring:
  assumes "cstring m s xs"
  shows "i \<le> length xs \<Longrightarrow> strlen_from m s i = Inr (length xs)"
proof (induction "length xs - i" arbitrary: i)
  case 0
  then show ?case using cstring_load [OF assms] by (subst strlen_from.simps) simp
next
  case (Suc k)
  then have "i < length xs" by simp
  moreover from this have "xs ! i \<noteq> 0" using assms by (metis cstring_def nth_mem)
  ultimately show ?case
    using Suc cstring_load [OF assms, of i]
    by (subst strlen_from.simps) (simp add: Cons_nth_drop_Suc [symmetric])
qed

lemma strlen_from_Inr:
  "strlen_from m s i = Inr n \<Longrightarrow>
   i \<le> n \<and> load m s n = Inr 0 \<and> (\<forall>j. i \<le> j \<longrightarrow> j < n \<longrightarrow> (\<exists>b. load m s j = Inr b \<and> b \<noteq> 0))"
proof (induction m s i rule: strlen_from.induct)
  case (1 m s i)
  from 1(2) obtain b where b: "load m s i = Inr b"
    "(if b \<noteq> 0 then strlen_from m s (Suc i) else Inr i) = Inr n"
    by (subst (asm) strlen_from.simps) (auto elim: bind_res_Inr_E)
  show ?case
  proof (cases "b = 0")
    case False
    with b have "strlen_from m s (Suc i) = Inr n" by simp
    from 1(1) [OF b(1) False this] b(1) False show ?thesis
      by (metis Suc_le_lessD le_eq_less_or_eq Suc_leI)
  qed (use b in simp)
qed

lemma strlen_from_Inl: "strlen_from m s i = Inl e \<Longrightarrow> e = InvalidAccess"
proof (induction m s i rule: strlen_from.induct)
  case (1 m s i)
  from 1(2) show ?case
    by (subst (asm) strlen_from.simps)
      (cases "load m s i"; auto dest: 1(1) load_Inl split: if_splits)
qed

lemma strlen_from_cstring_iff:
  "strlen_from m s 0 = Inr n \<longleftrightarrow> (\<exists>xs. cstring m s xs \<and> n = length xs)"
proof
  assume "strlen_from m s 0 = Inr n"
  note r = strlen_from_Inr [OF this]
  define xs where "xs = map (byte m s) [0..<n]"
  have "load m s j = Inr (byte m s j) \<and> byte m s j \<noteq> 0" if j: "j < n" for j
  proof -
    from r j obtain b where "load m s j = Inr b" "b \<noteq> 0" by auto
    then show ?thesis by (auto simp: load_def split: if_splits option.splits)
  qed
  then have "cstring m s xs" using r by (auto simp: cstring_def xs_def nth_append)
  then show "\<exists>xs. cstring m s xs \<and> n = length xs" by (auto simp: xs_def)
qed (auto simp: strlen_from_cstring)

text \<open>Strlen returns exactly on null-terminated strings, with their length; anywhere else it
  stops at memory that is not there. The length fits \<^verbatim>\<open>usize\<close>.\<close>

theorem my_strlen_iff:
  "(my_strlen m s = Inr n) = (\<exists>xs. cstring m s xs \<and> unat n = length xs) \<and>
   (my_strlen m s = Inl e) = (e = InvalidAccess \<and> (\<nexists>xs. cstring m s xs))"
proof
  have len: "unat (of_nat (length xs) :: usize) = length xs" if str: "cstring m s xs" for xs
  proof -
    from str have "load m s (length xs) = Inr 0" by (simp add: cstring_def nth_append)
    from load_Inr_bound [OF this] show ?thesis by (simp add: unat_of_nat)
  qed
  show "(my_strlen m s = Inr n) = (\<exists>xs. cstring m s xs \<and> unat n = length xs)"
    using len by (auto simp: my_strlen_def bind_res_Inr_iff strlen_from_cstring_iff word_unat_eq_iff)
  show "(my_strlen m s = Inl e) = (e = InvalidAccess \<and> (\<nexists>xs. cstring m s xs))"
    using strlen_from_Inl [of m s 0] strlen_from_cstring_iff [of m s]
    by (cases "strlen_from m s 0") (auto simp: my_strlen_def)
qed

text \<open>The reference comparison: the difference of the first bytes that differ.\<close>

fun byte_cmp :: "u8 list \<Rightarrow> u8 list \<Rightarrow> i32" where
  "byte_cmp [] [] = 0"
| "byte_cmp [] (y # ys) = 0 - ucast y"
| "byte_cmp (x # xs) [] = ucast x"
| "byte_cmp (x # xs) (y # ys) = (if x = y then byte_cmp xs ys else ucast x - ucast y)"

lemma strcmp_from_cmp:
  assumes "cstring m s1 xs" "cstring m s2 ys"
  shows "i \<le> length xs \<Longrightarrow> i \<le> length ys \<Longrightarrow>
    strcmp_from m s1 s2 i = Inr (byte_cmp (drop i xs) (drop i ys))"
proof (induction "length xs - i" arbitrary: i)
  case 0
  then have i: "i = length xs" by simp
  have "0 \<noteq> ys ! i" if "i < length ys"
    using assms(2) that by (metis cstring_def nth_mem)
  then show ?case
    using 0 cstring_load [OF assms(1), of i] cstring_load [OF assms(2), of i]
    by (subst strcmp_from.simps) (cases "i < length ys"; simp add: i Cons_nth_drop_Suc [symmetric])
next
  case (Suc k)
  then have i: "i < length xs" by simp
  then have nz: "xs ! i \<noteq> 0" using assms(1) by (metis cstring_def nth_mem)
  show ?case
    using Suc nz cstring_load [OF assms(1), of i] cstring_load [OF assms(2), of i] i
    by (subst strcmp_from.simps)
      (cases "i < length ys"; simp add: Cons_nth_drop_Suc [symmetric])
qed

lemma length_32: "LENGTH(32) - 1 = 31"
  by simp

lemma sint_byte_diff: "sint (ucast (x::u8) - ucast (y::u8) :: i32) = uint x - uint y"
proof -
  define a b where "a = uint x" and "b = uint y"
  have "a < 256" "b < 256" "0 \<le> a" "0 \<le> b"
    using unsigned_less [of x, where 'a = int] unsigned_less [of y, where 'a = int]
    by (simp_all add: a_def b_def)
  then have "- (2 ^ 31) \<le> a - b" "a - b < 2 ^ 31" by simp_all
  then have "signed_take_bit 31 (uint x - uint y) = uint x - uint y"
    by (simp only: signed_take_bit_int_eq_self a_def b_def)
  moreover have "sint (word_of_int (uint x - uint y) :: i32) = signed_take_bit 31 (uint x - uint y)"
    using sint_sbintrunc' [where 'a = 32, of "uint x - uint y"] by (simp only: length_32)
  moreover have "(ucast x - ucast y :: i32) = word_of_int (uint x - uint y)"
    by (simp only: ucast_eq of_int_diff)
  ultimately show ?thesis by (simp only:)
qed

lemma byte_cmp_sign:
  "0 \<notin> set xs \<Longrightarrow> 0 \<notin> set ys \<Longrightarrow>
   sgn (sint (byte_cmp xs ys)) =
     (if xs = ys then 0 else if ord_class.lexordp xs ys then - 1 else 1)"
proof (induction xs ys rule: byte_cmp.induct)
  case (2 y ys)
  then show ?case using sint_byte_diff [of 0 y] by (simp add: word_gt_0 [symmetric] word_less_def)
next
  case (3 x xs)
  then show ?case using sint_byte_diff [of x 0] by (simp add: word_gt_0 [symmetric] word_less_def)
next
  case (4 x xs y ys)
  show ?case
  proof (cases "x = y")
    case False
    then show ?thesis by (simp add: sint_byte_diff word_less_def word_uint_eq_iff sgn_if)
  qed (use 4 in simp)
qed auto

text \<open>Strcmp of two null-terminated strings returns the sign of their lexicographic comparison as
  unsigned bytes: zero for equal strings, negative when the first comes first, and positive
  otherwise.\<close>

theorem my_strcmp_lexicographic:
  assumes "cstring m s1 xs" "cstring m s2 ys"
  shows "\<exists>r. my_strcmp m s1 s2 = Inr r \<and>
    sgn (sint r) = (if xs = ys then 0 else if ord_class.lexordp xs ys then - 1 else 1)"
  using strcmp_from_cmp [OF assms, of 0] byte_cmp_sign [of xs ys] assms
  by (simp add: my_strcmp_def cstring_def)

theorem my_strcmp_lexicographic_witness:
  "\<exists>r. my_strcmp five 0x10 0x11 = Inr r \<and> sgn (sint r) = - 1"
proof -
  have "cstring five 0x10 [1, 2, 3, 4]" "cstring five 0x11 [2, 3, 4]"
    by (simp_all add: cstring_upt five_def load_def)
  from my_strcmp_lexicographic [OF this] show ?thesis by simp
qed

end
