(* ===== verification/Allocator.thy ===== *)
theory Allocator
  imports Prelude
begin

text \<open>
  What the two heap allocators share: layouts, aligning an address up, and the contract of
  \<^verbatim>\<open>GlobalAlloc\<close>: the blocks handed out and not yet freed are aligned, lie in the heap and do not
  overlap. Its clients are sequences of requests, which keep that contract and never panic.
\<close>

section \<open>Layouts and blocks\<close>

record Layout =
  size :: usize
  align :: usize

text \<open>What \<^verbatim>\<open>Layout\<close> guarantees, with the size that \<^verbatim>\<open>GlobalAlloc::alloc\<close> requires not to be
  zero: the alignment is a power of two, and the size is at most \<^verbatim>\<open>isize::MAX\<close>.\<close>

definition pow2 :: "usize \<Rightarrow> bool" where
  "pow2 a \<longleftrightarrow> (\<exists>k < 64. a = push_bit k 1)"

definition layout_ok :: "Layout \<Rightarrow> bool" where
  "layout_ok l \<longleftrightarrow> 0 < unat (size l) \<and> unat (size l) < 2 ^ 63 \<and> pow2 (align l)"

text \<open>A block is an address with a length in bytes.\<close>

type_synonym block = "nat \<times> nat"

definition apart :: "block \<Rightarrow> block \<Rightarrow> bool" where
  "apart a b \<longleftrightarrow> fst a + snd a \<le> fst b \<or> fst b + snd b \<le> fst a"

definition in_heap :: "usize \<Rightarrow> usize \<Rightarrow> block \<Rightarrow> bool" where
  "in_heap s e b \<longleftrightarrow> unat s \<le> fst b \<and> fst b + snd b \<le> unat e"

type_synonym allocation = "usize \<times> Layout"

definition block_of :: "allocation \<Rightarrow> block" where
  "block_of a = (unat (fst a), unat (size (snd a)))"

definition aligned :: "allocation \<Rightarrow> bool" where
  "aligned a \<longleftrightarrow> unat (align (snd a)) dvd unat (fst a)"

text \<open>The promise of the contract about the live allocations of a heap.\<close>

definition sound :: "usize \<Rightarrow> usize \<Rightarrow> allocation list \<Rightarrow> bool" where
  "sound s e live \<longleftrightarrow>
     (\<forall>a \<in> set live. layout_ok (snd a) \<and> aligned a \<and> in_heap s e (block_of a)) \<and>
     sorted_wrt (\<lambda>a b. apart (block_of a) (block_of b)) live"

lemma apart_sym: "apart a b \<longleftrightarrow> apart b a"
  by (auto simp: apart_def)

lemma sound_Nil [simp]: "sound s e []"
  by (simp add: sound_def)

lemma sorted_wrt_remove1: "sorted_wrt P xs \<Longrightarrow> sorted_wrt P (remove1 x xs)"
  by (induction xs) (auto dest: notin_set_remove1 set_remove1_subset [THEN subsetD])

lemma sound_remove1: "sound s e live \<Longrightarrow> sound s e (remove1 a live)"
  using set_remove1_subset [of a live] by (auto simp: sound_def sorted_wrt_remove1)

section \<open>Aligning up\<close>

definition align_up :: "bool \<Rightarrow> usize \<Rightarrow> usize \<Rightarrow> usize res" where
  "align_up ck addr al =
     bind_res (add_ck ck addr al) (\<lambda>a. bind_res (sub_ck ck a 1) (\<lambda>b.
       Inr (b AND NOT (al - 1))))"

lemma pow2_cases:
  assumes "pow2 a"
  obtains k where "k < 64" "a = push_bit k 1" "unat a = 2 ^ k" "a - 1 = mask k"
proof -
  from assms obtain k where k: "k < 64" "a = push_bit k 1" by (auto simp: pow2_def)
  have "(2::nat) ^ k < 2 ^ 64" using k(1) by (rule power_strict_increasing) simp
  with k(1) have "unat a = 2 ^ k"
    by (simp only: k(2) unsigned_push_bit_eq unsigned_1 push_bit_nat_def) (simp add: take_bit_nat_eq_self)
  moreover have "a - 1 = mask k" using k(2) by (simp add: mask_eq_decr_exp)
  ultimately show ?thesis using that k by blast
qed

text \<open>Where the sum does not overflow, the result is the least aligned address not below.\<close>

lemma align_up_spec:
  assumes "pow2 al" "unat addr + unat al < 2 ^ 64"
  obtains r where "align_up ck addr al = Inr r" "unat addr \<le> unat r"
    "unat r < unat addr + unat al" "unat al dvd unat r"
proof -
  from assms(1) obtain k where k: "unat al = 2 ^ k" "al - 1 = mask k" by (rule pow2_cases)
  have sum: "unat (addr + al) = unat addr + unat al"
    using assms(2) by (simp add: unat_add_in_range)
  have "1 \<le> unat al" by (simp only: k(1)) simp
  then have le: "1 \<le> addr + al" using sum by (simp add: word_le_nat_alt)
  define b where "b = addr + al - 1"
  have b: "unat b = unat addr + unat al - 1"
    using le sum by (simp add: b_def unat_sub)
  define r where "r = b AND NOT (al - 1)"
  have "\<not> addr + al < 1" using le by (rule leD)
  then have "align_up ck addr al = Inr r"
    using assms(2) by (simp add: align_up_def add_ck_in_range sub_ck_def b_def r_def del: word_less_1)
  have ur: "unat r = unat b div 2 ^ k * 2 ^ k"
    by (simp add: r_def k(2) and_not_mask_unat)
  have pos: "0 < (2::nat) ^ k" by simp
  have "unat addr \<le> unat b div 2 ^ k * 2 ^ k" "unat b div 2 ^ k * 2 ^ k < unat addr + 2 ^ k"
    using b k(1) div_mult_mod_eq [of "unat b" "2 ^ k"] mod_less_divisor [OF pos, of "unat b"] pos
    by linarith+
  with \<open>align_up ck addr al = Inr r\<close> ur show ?thesis using that k(1) by simp
qed

section \<open>The contract\<close>

text \<open>Requests: an allocation, or freeing the \<open>i\<close>-th live allocation.\<close>

datatype request = Alloc Layout | Dealloc nat

fun serve ::
  "('a \<Rightarrow> Layout \<Rightarrow> (usize \<times> 'a) res) \<Rightarrow> ('a \<Rightarrow> usize \<Rightarrow> Layout \<Rightarrow> 'a res) \<Rightarrow>
   'a \<Rightarrow> allocation list \<Rightarrow> request list \<Rightarrow> ('a \<times> allocation list) res" where
  "serve alloc dealloc a live [] = Inr (a, live)"
| "serve alloc dealloc a live (Alloc l # rs) =
     bind_res (alloc a l) (\<lambda>(p, a').
       serve alloc dealloc a' (if p = 0 then live else (p, l) # live) rs)"
| "serve alloc dealloc a live (Dealloc i # rs) =
     (if i < length live then
        bind_res (dealloc a (fst (live ! i)) (snd (live ! i))) (\<lambda>a'.
          serve alloc dealloc a' (remove1 (live ! i) live) rs)
      else serve alloc dealloc a live rs)"

definition requests_ok :: "request list \<Rightarrow> bool" where
  "requests_ok rs \<longleftrightarrow> (\<forall>l. Alloc l \<in> set rs \<longrightarrow> layout_ok l)"

locale global_alloc =
  fixes inv :: "'a \<Rightarrow> allocation list \<Rightarrow> bool"
    and heap :: "'a \<Rightarrow> usize \<times> usize"
    and alloc :: "'a \<Rightarrow> Layout \<Rightarrow> (usize \<times> 'a) res"
    and dealloc :: "'a \<Rightarrow> usize \<Rightarrow> Layout \<Rightarrow> 'a res"
  assumes inv_sound: "inv a live \<Longrightarrow> sound (fst (heap a)) (snd (heap a)) live"
    and alloc: "inv a live \<Longrightarrow> layout_ok l \<Longrightarrow>
      \<exists>p a'. alloc a l = Inr (p, a') \<and> heap a' = heap a \<and>
        inv a' (if p = 0 then live else (p, l) # live)"
    and dealloc: "inv a live \<Longrightarrow> (p, l) \<in> set live \<Longrightarrow>
      \<exists>a'. dealloc a p l = Inr a' \<and> heap a' = heap a \<and> inv a' (remove1 (p, l) live)"
begin

lemma serve_inv:
  "inv a live \<Longrightarrow> requests_ok rs \<Longrightarrow>
   \<exists>a' live'. serve alloc dealloc a live rs = Inr (a', live') \<and> inv a' live' \<and> heap a' = heap a"
proof (induction rs arbitrary: a live)
  case Nil
  then show ?case by simp
next
  case (Cons r rs)
  have rs: "requests_ok rs" using Cons.prems(2) by (simp add: requests_ok_def)
  show ?case
  proof (cases r)
    case (Alloc l)
    then have "layout_ok l" using Cons.prems(2) by (simp add: requests_ok_def)
    from alloc [OF Cons.prems(1) this] obtain p a' where
      a': "alloc a l = Inr (p, a')" "heap a' = heap a"
        "inv a' (if p = 0 then live else (p, l) # live)"
      by blast
    from Cons.IH [OF a'(3) rs] show ?thesis unfolding Alloc serve.simps a'(1)
      by (simp only: bind_res_simps prod.case a'(2))
  next
    case (Dealloc i)
    show ?thesis
    proof (cases "i < length live")
      case True
      then have "(fst (live ! i), snd (live ! i)) \<in> set live" by simp
      from dealloc [OF Cons.prems(1) this] obtain a' where
        a': "dealloc a (fst (live ! i)) (snd (live ! i)) = Inr a'" "heap a' = heap a"
          "inv a' (remove1 (live ! i) live)"
        by auto
      from Cons.IH [OF a'(3) rs] True show ?thesis unfolding Dealloc serve.simps a'(1)
        by (simp only: bind_res_simps if_True a'(2))
    next
      case False
      with Cons.IH [OF Cons.prems(1) rs] show ?thesis by (simp add: Dealloc)
    qed
  qed
qed

lemma serve_sound:
  assumes "inv a live" "requests_ok rs"
  shows "\<exists>a' live'. serve alloc dealloc a live rs = Inr (a', live') \<and>
    sound (fst (heap a)) (snd (heap a)) live'"
  using serve_inv [OF assms] inv_sound by metis

end

end
