(* ===== verification/BumpAllocator.thy ===== *)
theory BumpAllocator
  imports Allocator
begin

text \<open>
  \<^verbatim>\<open>exercises/02_no_std_dev/02_bump_allocator/src/lib.rs\<close>: the bump allocator, first as it runs
  undisturbed, then with threads that race for the bump pointer. The field \<^verbatim>\<open>next\<close> is called
  \<open>next_free\<close> here.
\<close>

section \<open>The allocator\<close>

record BumpAllocator =
  heap_start :: usize
  heap_end :: usize
  next_free :: usize

definition new :: "usize \<Rightarrow> usize \<Rightarrow> BumpAllocator" where
  "new s e = \<lparr>heap_start = s, heap_end = e, next_free = s\<rparr>"

definition reset :: "BumpAllocator \<Rightarrow> BumpAllocator" where
  "reset a = a\<lparr>next_free := heap_start a\<rparr>"

text \<open>The loop body up to the exchange: the start and the end of the new block, or \<open>None\<close> where the
  body returns a null pointer.\<close>

definition attempt :: "bool \<Rightarrow> BumpAllocator \<Rightarrow> Layout \<Rightarrow> usize \<Rightarrow> (usize \<times> usize) option res" where
  "attempt ck a l prev_next =
     bind_res (align_up ck prev_next (align l)) (\<lambda>alloc_start.
       Inr (case checked_add alloc_start (size l) of
              Some e \<Rightarrow> if e \<le> heap_end a then Some (alloc_start, e) else None
            | None \<Rightarrow> None))"

text \<open>Without other threads the exchange finds the value that was loaded; \<^verbatim>\<open>compare_exchange_weak\<close>
  may still fail, here \<open>spurious\<close> times.\<close>

fun alloc_loop ::
  "bool \<Rightarrow> BumpAllocator \<Rightarrow> Layout \<Rightarrow> usize \<Rightarrow> nat \<Rightarrow> (usize \<times> BumpAllocator) res" where
  "alloc_loop ck a l prev_next spurious =
     bind_res (attempt ck a l prev_next) (\<lambda>r.
       case r of
         None \<Rightarrow> Inr (0, a)
       | Some (alloc_start, alloc_end) \<Rightarrow>
           (case spurious of
              0 \<Rightarrow> Inr (alloc_start, a\<lparr>next_free := alloc_end\<rparr>)
            | Suc n \<Rightarrow> alloc_loop ck a l (next_free a) n))"

definition alloc :: "bool \<Rightarrow> nat \<Rightarrow> BumpAllocator \<Rightarrow> Layout \<Rightarrow> (usize \<times> BumpAllocator) res" where
  "alloc ck spurious a l = alloc_loop ck a l (next_free a) spurious"

definition dealloc :: "BumpAllocator \<Rightarrow> usize \<Rightarrow> Layout \<Rightarrow> BumpAllocator res" where
  "dealloc a ptr l = Inr a"

declare alloc_loop.simps [simp del]

section \<open>Correctness of a single caller\<close>

text \<open>A heap in the lower half of the address space, not starting at the null address.\<close>

definition bump_ok :: "BumpAllocator \<Rightarrow> bool" where
  "bump_ok a \<longleftrightarrow> 0 < heap_start a \<and> heap_start a \<le> next_free a \<and> next_free a \<le> heap_end a \<and>
     unat (heap_end a) < 2 ^ 63"

lemma layout_ok_bounds:
  assumes "layout_ok l"
  shows "0 < unat (size l)" "unat (size l) < 2 ^ 63" "0 < unat (align l)" "unat (align l) \<le> 2 ^ 63"
    "pow2 (align l)"
proof -
  from assms have "pow2 (align l)" by (simp add: layout_ok_def)
  then obtain k where k: "k < 64" "unat (align l) = 2 ^ k" by (rule pow2_cases)
  then have "(2::nat) ^ k \<le> 2 ^ 63" by (intro power_increasing) simp_all
  with k assms show "0 < unat (size l)" "unat (size l) < 2 ^ 63" "0 < unat (align l)"
    "unat (align l) \<le> 2 ^ 63" "pow2 (align l)"
    by (simp_all add: layout_ok_def)
qed

text \<open>An attempt that starts from an address up to the end of the heap does not panic; the block it
  proposes is aligned, starts there or above and ends in the heap.\<close>

lemma attempt_spec:
  assumes "layout_ok l" "unat (heap_end a) < 2 ^ 63" "prev \<le> heap_end a"
  obtains r where "align_up ck prev (align l) = Inr r" "unat prev \<le> unat r"
    "unat (align l) dvd unat r" "unat r < unat prev + unat (align l)"
    "attempt ck a l prev =
      Inr (if unat r + unat (size l) \<le> unat (heap_end a) then Some (r, r + size l) else None)"
    "unat r + unat (size l) < 2 ^ 64 + 2 ^ 63"
proof -
  note l = layout_ok_bounds [OF assms(1)]
  have p: "unat prev + unat (align l) < 2 ^ 64"
    using assms(2,3) l(4) by (simp add: word_le_nat_alt)
  obtain r where r: "align_up ck prev (align l) = Inr r" "unat prev \<le> unat r"
    "unat r < unat prev + unat (align l)" "unat (align l) dvd unat r"
    by (rule align_up_spec [OF l(5) p])
  have "(case checked_add r (size l) of
      Some e \<Rightarrow> if e \<le> heap_end a then Some (r, e) else None | None \<Rightarrow> None) =
    (if unat r + unat (size l) \<le> unat (heap_end a) then Some (r, r + size l) else None)"
    using assms(2) by (auto simp: checked_add_def word_le_nat_alt unat_add_in_range)
  then have "attempt ck a l prev =
      Inr (if unat r + unat (size l) \<le> unat (heap_end a) then Some (r, r + size l) else None)"
    by (simp add: attempt_def r(1))
  with r p l show ?thesis using that by simp
qed

lemma alloc_loop_spurious:
  "alloc_loop ck a l (next_free a) n = alloc_loop ck a l (next_free a) 0"
proof (induction n)
  case (Suc n)
  then show ?case
    by (cases "attempt ck a l (next_free a)")
      (auto simp: alloc_loop.simps [where spurious = "Suc n"] alloc_loop.simps [where spurious = 0]
        split: option.split)
qed simp

lemma alloc_least:
  assumes "bump_ok a" "layout_ok l"
  shows "\<exists>r. unat (align l) dvd unat r \<and> next_free a \<le> r \<and>
    (\<forall>q. next_free a \<le> q \<longrightarrow> unat (align l) dvd unat q \<longrightarrow> r \<le> q) \<and>
    alloc ck spurious a l = Inr
      (if unat r + unat (size l) \<le> unat (heap_end a) then (r, a\<lparr>next_free := r + size l\<rparr>)
       else (0, a))"
proof -
  have h: "unat (heap_end a) < 2 ^ 63" "next_free a \<le> heap_end a"
    using assms(1) by (auto simp: bump_ok_def)
  obtain r where r: "unat (next_free a) \<le> unat r" "unat (align l) dvd unat r"
    "unat r < unat (next_free a) + unat (align l)"
    "attempt ck a l (next_free a) =
      Inr (if unat r + unat (size l) \<le> unat (heap_end a) then Some (r, r + size l) else None)"
    by (rule attempt_spec [OF assms(2) h])
  have "r \<le> q" if q: "next_free a \<le> q" "unat (align l) dvd unat q" for q
  proof (rule ccontr)
    assume "\<not> r \<le> q"
    then have "0 < unat r - unat q" by (simp add: word_le_nat_alt)
    moreover have "unat (align l) dvd unat r - unat q" using r(2) q(2) by (rule dvd_diff_nat)
    ultimately have "unat (align l) \<le> unat r - unat q" by (simp add: dvd_imp_le)
    then show False using r(3) q(1) \<open>0 < unat r - unat q\<close> by (simp add: word_le_nat_alt)
  qed
  moreover have "alloc ck spurious a l = Inr
      (if unat r + unat (size l) \<le> unat (heap_end a) then (r, a\<lparr>next_free := r + size l\<rparr>)
       else (0, a))"
    unfolding alloc_def alloc_loop_spurious [of ck a l spurious]
    by (subst alloc_loop.simps) (simp add: r(4))
  ultimately show ?thesis using r(1,2) by (auto simp: word_le_nat_alt)
qed

text \<open>Undisturbed, \<^verbatim>\<open>alloc\<close> returns the least aligned address from the bump pointer on, and moves
  the pointer behind the block, exactly when the block fits the heap; otherwise it returns a null
  pointer and changes nothing. Spurious failures of the exchange make no difference, and there is
  no panic in any build profile.\<close>

theorem alloc_first_aligned:
  assumes "bump_ok a" "layout_ok l"
  shows "\<exists>r. unat (align l) dvd unat r \<and> next_free a \<le> r \<and>
    (\<forall>q. next_free a \<le> q \<longrightarrow> unat (align l) dvd unat q \<longrightarrow> r \<le> q) \<and>
    alloc ck spurious a l = Inr
      (if unat r + unat (size l) \<le> unat (heap_end a) then (r, a\<lparr>next_free := r + size l\<rparr>)
       else (0, a))"
  by (rule alloc_least [OF assms])

theorem alloc_first_aligned_witness:
  "alloc True 2 \<lparr>heap_start = 0x1000, heap_end = 0x2000, next_free = 0x1003\<rparr>
     \<lparr>size = 5, align = 8\<rparr> =
   Inr (0x1008, \<lparr>heap_start = 0x1000, heap_end = 0x2000, next_free = 0x100D\<rparr>)"
proof -
  let ?a = "\<lparr>heap_start = 0x1000, heap_end = 0x2000, next_free = 0x1003\<rparr>"
  let ?l = "\<lparr>size = 5, align = 8\<rparr>"
  have ok: "bump_ok ?a" "layout_ok ?l"
    by (simp_all add: bump_ok_def layout_ok_def pow2_def) (rule exI [of _ 3], simp)
  obtain r where r: "unat (8::usize) dvd unat r" "0x1003 \<le> r"
    "\<forall>q. 0x1003 \<le> q \<longrightarrow> unat (8::usize) dvd unat q \<longrightarrow> r \<le> q"
    "alloc True 2 ?a ?l = Inr (if unat r + 5 \<le> 0x2000 then (r, ?a\<lparr>next_free := r + 5\<rparr>) else (0, ?a))"
    using alloc_first_aligned [OF ok, of True 2] by auto
  have "r \<le> 0x1008" using r(3) by simp
  then have "unat r \<le> 0x1008" "0x1003 \<le> unat r" using r(2) by (simp_all add: word_le_nat_alt)
  moreover obtain k where "unat r = 8 * k" using r(1) by (auto elim: dvdE)
  ultimately have "unat r = 0x1008" by simp
  then have "r = 0x1008" by (simp add: word_unat_eq_iff)
  then show ?thesis using r(4) by simp
qed

section \<open>The contract of GlobalAlloc\<close>

definition bump_inv :: "BumpAllocator \<Rightarrow> allocation list \<Rightarrow> bool" where
  "bump_inv a live \<longleftrightarrow> bump_ok a \<and> sound (heap_start a) (next_free a) live"

lemma sound_mono: "sound s e live \<Longrightarrow> unat e \<le> unat e' \<Longrightarrow> sound s e' live"
  by (fastforce simp: sound_def in_heap_def)

text \<open>A block between the bump pointer and the end of the heap can be added.\<close>

lemma bump_inv_take:
  assumes "bump_inv a live" "layout_ok l" "unat (next_free a) \<le> unat r"
    "unat (align l) dvd unat r" "unat r + unat (size l) \<le> unat (heap_end a)"
  shows "bump_inv (a\<lparr>next_free := r + size l\<rparr>) ((r, l) # live)" "r \<noteq> 0"
proof -
  have ok: "bump_ok a" and snd: "sound (heap_start a) (next_free a) live"
    using assms(1) by (auto simp: bump_inv_def)
  have e: "unat (r + size l) = unat r + unat (size l)"
    using assms(5) ok by (intro unat_add_in_range) (simp add: bump_ok_def)
  have "sound (heap_start a) (r + size l) live"
    using snd by (rule sound_mono) (use assms(3) e in simp)
  moreover have "apart (block_of (r, l)) (block_of b)" if "b \<in> set live" for b
    using snd that assms(3) by (auto simp: sound_def in_heap_def apart_def block_of_def)
  ultimately show "bump_inv (a\<lparr>next_free := r + size l\<rparr>) ((r, l) # live)"
    using assms(2-5) ok e
    by (auto simp: bump_inv_def bump_ok_def sound_def aligned_def in_heap_def block_of_def
        word_le_nat_alt)
  show "r \<noteq> 0" using ok assms(3) by (auto simp: bump_ok_def word_le_nat_alt word_less_nat_alt)
qed

interpretation bump: global_alloc bump_inv "\<lambda>a. (heap_start a, heap_end a)" "alloc ck n" dealloc
  for ck n
proof unfold_locales
  fix a live
  assume "bump_inv a live"
  then show "sound (fst (heap_start a, heap_end a)) (snd (heap_start a, heap_end a)) live"
    by (auto simp: bump_inv_def bump_ok_def word_le_nat_alt intro: sound_mono)
next
  fix a live and l :: Layout
  assume inv: "bump_inv a live" and l: "layout_ok l"
  then have "bump_ok a" by (simp add: bump_inv_def)
  from alloc_least [OF this l, of ck n] obtain r where r: "unat (align l) dvd unat r"
    "unat (next_free a) \<le> unat r" "alloc ck n a l = Inr
      (if unat r + unat (size l) \<le> unat (heap_end a) then (r, a\<lparr>next_free := r + size l\<rparr>)
       else (0, a))"
    by (auto simp: word_le_nat_alt)
  with bump_inv_take [OF inv l r(2,1)] inv
  show "\<exists>p a'. alloc ck n a l = Inr (p, a') \<and> (heap_start a', heap_end a') = (heap_start a, heap_end a) \<and>
      bump_inv a' (if p = 0 then live else (p, l) # live)"
    by auto
next
  fix a live p l
  assume "bump_inv a live"
  then show "\<exists>a'. dealloc a p l = Inr a' \<and> (heap_start a', heap_end a') = (heap_start a, heap_end a) \<and>
      bump_inv a' (remove1 (p, l) live)"
    by (simp add: dealloc_def bump_inv_def sound_remove1)
qed

text \<open>Any sequence of allocations and frees on a new bump allocator runs without a panic and
  leaves live blocks that are aligned, inside the heap and pairwise disjoint.\<close>

theorem bump_serve_sound:
  assumes "0 < s" "s \<le> e" "unat e < 2 ^ 63" "requests_ok rs"
  shows "\<exists>a live. serve (alloc ck n) dealloc (new s e) [] rs = Inr (a, live) \<and> sound s e live"
proof -
  have "bump_inv (new s e) []" using assms by (simp add: bump_inv_def bump_ok_def new_def)
  from bump.serve_sound [OF this assms(4)] show ?thesis by (simp add: new_def)
qed

theorem bump_serve_sound_witness:
  "\<exists>a live. serve (alloc True 0) dealloc (new 0x1000 0x2000) []
     [Alloc \<lparr>size = 16, align = 1\<rparr>, Dealloc 0, Alloc \<lparr>size = 8, align = 1\<rparr>] = Inr (a, live) \<and>
     sound 0x1000 0x2000 live"
  by (rule bump_serve_sound) (auto simp: requests_ok_def layout_ok_def pow2_def intro: exI [of _ 0])

section \<open>Racing threads\<close>

text \<open>A thread inside \<^verbatim>\<open>alloc\<close> is at the head of its loop with the value it loaded last; the live
  allocations are recorded beside the program's state.\<close>

datatype pc = Idle | Loop Layout usize | Returned usize | Panicked panic

record bump_sys =
  bump :: BumpAllocator
  pcs :: "nat \<Rightarrow> pc"
  live :: "allocation list"

definition sys_init :: "BumpAllocator \<Rightarrow> bump_sys" where
  "sys_init a = \<lparr>bump = a, pcs = (\<lambda>_. Idle), live = []\<rparr>"

text \<open>The atomic steps: entering \<^verbatim>\<open>alloc\<close> and loading the pointer; one round of the loop, whose
  exchange may fail spuriously; freeing; and resetting, which ends the life of every block.\<close>

datatype event = Call nat Layout | Round nat bool | Free usize Layout | Reset

fun exec :: "bool \<Rightarrow> bump_sys \<Rightarrow> event \<Rightarrow> bump_sys" where
  "exec ck s (Call t l) = s\<lparr>pcs := (pcs s)(t := Loop l (next_free (bump s)))\<rparr>"
| "exec ck s (Round t spurious) =
     (case pcs s t of
        Loop l prev \<Rightarrow>
          (case attempt ck (bump s) l prev of
             Inl e \<Rightarrow> s\<lparr>pcs := (pcs s)(t := Panicked e)\<rparr>
           | Inr None \<Rightarrow> s\<lparr>pcs := (pcs s)(t := Returned 0)\<rparr>
           | Inr (Some (alloc_start, alloc_end)) \<Rightarrow>
               if next_free (bump s) = prev \<and> \<not> spurious then
                 s\<lparr>bump := (bump s)\<lparr>next_free := alloc_end\<rparr>,
                   pcs := (pcs s)(t := Returned alloc_start),
                   live := (alloc_start, l) # live s\<rparr>
               else s\<lparr>pcs := (pcs s)(t := Loop l (next_free (bump s)))\<rparr>)
      | _ \<Rightarrow> s)"
| "exec ck s (Free p l) = s\<lparr>live := remove1 (p, l) (live s)\<rparr>"
| "exec ck s Reset = s\<lparr>bump := reset (bump s), live := []\<rparr>"

definition exec_all :: "bool \<Rightarrow> bump_sys \<Rightarrow> event list \<Rightarrow> bump_sys" where
  "exec_all ck s es = foldl (exec ck) s es"

text \<open>The invariant: the allocator's own, and no thread holds a pointer beyond the heap or has
  panicked.\<close>

definition sys_inv :: "usize \<Rightarrow> usize \<Rightarrow> bump_sys \<Rightarrow> bool" where
  "sys_inv hs he s \<longleftrightarrow>
     bump_inv (bump s) (live s) \<and> heap_start (bump s) = hs \<and> heap_end (bump s) = he \<and>
     (\<forall>t. case pcs s t of Loop l prev \<Rightarrow> layout_ok l \<and> prev \<le> he | Panicked _ \<Rightarrow> False | _ \<Rightarrow> True)"

definition event_ok :: "event \<Rightarrow> bool" where
  "event_ok e = (case e of Call t l \<Rightarrow> layout_ok l | _ \<Rightarrow> True)"

lemma bump_inv_bounds: "bump_inv a lv \<Longrightarrow> next_free a \<le> heap_end a \<and> unat (heap_end a) < 2 ^ 63"
  by (simp add: bump_inv_def bump_ok_def)

lemma sys_inv_set:
  assumes "sys_inv hs he s" "bump_inv b lv" "heap_start b = hs" "heap_end b = he"
    and "case q of Loop l prev \<Rightarrow> layout_ok l \<and> prev \<le> he | Panicked _ \<Rightarrow> False | _ \<Rightarrow> True"
  shows "sys_inv hs he \<lparr>bump = b, pcs = (pcs s)(t := q), live = lv\<rparr>"
  using assms by (auto simp: sys_inv_def)

lemma exec_inv:
  assumes "sys_inv hs he s" "event_ok e"
  shows "sys_inv hs he (exec ck s e)"
proof (cases e)
  case (Call t l)
  then show ?thesis using assms bump_inv_bounds
    by (auto simp: sys_inv_def event_ok_def)
next
  case (Round t spurious)
  show ?thesis
  proof (cases "pcs s t")
    case (Loop l prev)
    have i: "bump_inv (bump s) (live s)" "heap_start (bump s) = hs" "heap_end (bump s) = he"
      using assms(1) by (auto simp: sys_inv_def)
    have l: "layout_ok l" "prev \<le> heap_end (bump s)"
      using assms(1) Loop by (auto simp: sys_inv_def split: pc.splits dest: spec [of _ t])
    obtain r where r: "unat prev \<le> unat r" "unat (align l) dvd unat r"
      "attempt ck (bump s) l prev = Inr (if unat r + unat (size l) \<le> unat (heap_end (bump s))
         then Some (r, r + size l) else None)"
      using bump_inv_bounds [OF i(1)] by (blast intro: attempt_spec [OF l(1) _ l(2)])
    show ?thesis
      using bump_inv_take [OF i(1) l(1) _ r(2)] r(1) i l bump_inv_bounds [OF i(1)] assms(1)
      by (auto simp: Round Loop r(3) sys_inv_def)
  qed (use assms Round in \<open>auto\<close>)
next
  case (Free p l)
  then show ?thesis using assms by (auto simp: sys_inv_def bump_inv_def sound_remove1)
next
  case Reset
  then show ?thesis using assms by (auto simp: sys_inv_def bump_inv_def bump_ok_def reset_def)
qed

lemma exec_all_inv:
  "sys_inv hs he s \<Longrightarrow> list_all event_ok es \<Longrightarrow> sys_inv hs he (exec_all ck s es)"
  by (induction es arbitrary: s) (auto simp: exec_all_def exec_inv)

text \<open>One undisturbed round returns when the thread's value is current, and makes it so otherwise.\<close>

lemma round_attempt:
  assumes "sys_inv hs he s" "pcs s t = Loop l prev"
  obtains r where "attempt ck (bump s) l prev = Inr r" "layout_ok l"
proof -
  have i: "bump_inv (bump s) (live s)" "heap_end (bump s) = he"
    using assms(1) by (auto simp: sys_inv_def)
  have l: "layout_ok l" "prev \<le> heap_end (bump s)"
    using assms by (auto simp: sys_inv_def split: pc.splits dest: spec [of _ t])
  have "unat (heap_end (bump s)) < 2 ^ 63" using bump_inv_bounds [OF i(1)] by simp
  then show ?thesis by (rule attempt_spec [OF l(1) _ l(2)]) (rule that [OF _ l(1)])
qed

lemma round_current:
  assumes "sys_inv hs he s" "pcs s t = Loop l (next_free (bump s))"
  shows "\<exists>p. pcs (exec ck s (Round t False)) t = Returned p"
  by (rule round_attempt [OF assms, of ck]) (auto simp: assms(2) split: option.split)

lemma round_reload:
  assumes "sys_inv hs he s" "pcs s t = Loop l prev"
  shows "(\<exists>p. pcs (exec ck s (Round t False)) t = Returned p) \<or>
    pcs (exec ck s (Round t False)) t = Loop l (next_free (bump (exec ck s (Round t False))))"
  by (rule round_attempt [OF assms, of ck]) (auto simp: assms(2) split: option.split)

lemma two_rounds:
  assumes "sys_inv hs he s" "pcs s t = Loop l prev"
  shows "\<exists>p. pcs (exec_all ck s [Round t False, Round t False]) t = Returned p"
proof -
  let ?s = "exec ck s (Round t False)"
  have "sys_inv hs he ?s" using assms(1) by (rule exec_inv) (simp add: event_ok_def)
  with round_reload [OF assms, of ck] round_current [of hs he ?s t l ck]
  have "\<exists>p. pcs (exec ck ?s (Round t False)) t = Returned p" by (elim disjE exE) auto
  then show ?thesis by (simp add: exec_all_def)
qed

text \<open>C4: however threads race in \<^verbatim>\<open>alloc\<close>, free and reset, with exchanges that fail because another
  thread won or for no reason, the live blocks stay aligned, inside the heap and pairwise disjoint,
  and no thread panics. Whatever has happened, two undisturbed rounds let a waiting thread
  return.\<close>

theorem bump_race_sound:
  assumes "0 < hs" "hs \<le> he" "unat he < 2 ^ 63" "list_all event_ok es"
    and "s = exec_all ck (sys_init (new hs he)) es"
  shows "sound hs he (live s) \<and> (\<forall>t e. pcs s t \<noteq> Panicked e) \<and>
    (\<forall>t l prev. pcs s t = Loop l prev \<longrightarrow>
      (\<exists>p. pcs (exec_all ck s [Round t False, Round t False]) t = Returned p))"
proof -
  have "bump_inv (new hs he) []" using assms(1-3) by (simp add: bump_inv_def bump_ok_def new_def)
  then have "sys_inv hs he (sys_init (new hs he))"
    by (simp add: sys_inv_def sys_init_def new_def)
  with assms(4) have inv: "sys_inv hs he s" unfolding assms(5) by (intro exec_all_inv)
  then have "sound hs he (live s)"
    by (auto simp: sys_inv_def bump_inv_def bump_ok_def word_le_nat_alt intro: sound_mono)
  moreover have "pcs s t \<noteq> Panicked e" for t e
    using inv by (auto simp: sys_inv_def split: pc.splits dest: spec [of _ t])
  ultimately show ?thesis using two_rounds [OF inv] by blast
qed

theorem bump_race_sound_witness:
  "sound 0x1000 0x2000 (live (exec_all True (sys_init (new 0x1000 0x2000))
     [Call 0 \<lparr>size = 16, align = 1\<rparr>, Call 1 \<lparr>size = 8, align = 1\<rparr>, Round 1 False, Round 0 False,
      Round 0 False]))"
proof -
  have l: "layout_ok \<lparr>size = 16, align = 1\<rparr>" "layout_ok \<lparr>size = 8, align = 1\<rparr>"
    by (auto simp: layout_ok_def pow2_def intro: exI [of _ 0])
  show ?thesis
    by (rule bump_race_sound [THEN conjunct1, OF _ _ _ _ refl]) (simp_all add: event_ok_def l)
qed

text \<open>Rounding up that leaves the address space ends at the null address.\<close>

lemma align_up_wraps:
  assumes "pow2 al" "2 ^ 64 < unat addr + unat al"
  shows "align_up False addr al = Inr 0"
proof -
  obtain k where k: "k < 64" "unat al = 2 ^ k" "al - 1 = mask k" using assms(1) by (rule pow2_cases)
  let ?b = "addr + al - 1"
  have "unat (addr + al) = unat addr + unat al - 2 ^ 64"
    using assms(2) unsigned_less [of addr, where ?'a = nat] unsigned_less [of al, where ?'a = nat]
    by (simp add: unat_word_ariths(1) mod_if)
  moreover from this assms(2) have "1 \<le> addr + al" by (simp add: word_le_nat_alt)
  ultimately have "unat ?b = unat addr + unat al - 2 ^ 64 - 1" by (simp add: unat_sub)
  then have "unat ?b < 2 ^ k" using k(2) assms(2) unsigned_less [of addr, where ?'a = nat] by simp
  then have "take_bit k ?b = ?b"
    by (simp add: word_unat_eq_iff unsigned_take_bit_eq take_bit_nat_eq_self)
  then have "bit ?b n \<Longrightarrow> n < k" for n by (metis bit_take_bit_iff)
  then have "?b AND NOT (mask k) = 0" by (auto simp: bit_eq_iff bit_simps)
  then show ?thesis by (simp add: align_up_def add_ck_def sub_ck_def k(3))
qed

lemma alloc_overflows:
  assumes "layout_ok l"
  shows "alloc True n a l = Inl Overflow \<longleftrightarrow> 2 ^ 64 \<le> unat (next_free a) + unat (align l)"
proof -
  have no_underflow: "1 \<le> next_free a + align l" if "unat (next_free a) + unat (align l) < 2 ^ 64"
    using that unat_add_in_range [of "next_free a" "align l"] layout_ok_bounds(3) [OF assms]
    by (simp add: word_le_nat_alt)
  show ?thesis
  proof (cases "2 ^ 64 \<le> unat (next_free a) + unat (align l)")
    case True
    then show ?thesis unfolding alloc_def alloc_loop_spurious [of True a l n]
      by (simp add: alloc_loop.simps [where spurious = 0] attempt_def align_up_def add_ck_def)
  next
    case False
    then have "\<not> next_free a + align l < 1" using no_underflow by (simp add: not_less del: word_less_1)
    with False show ?thesis unfolding alloc_def alloc_loop_spurious [of True a l n]
      by (auto simp: alloc_loop.simps [where spurious = 0] attempt_def align_up_def add_ck_def sub_ck_def
          split: option.split simp del: word_less_1)
  qed
qed

text \<open>C33: Wherever the sum that rounds up leaves the address space: a build with overflow checks panics; one
  without wraps to the null address, returns it as if memory had run out, but moves the bump pointer out
  of the heap, to the size of the layout, so that the next call hands out a block below the heap, of any
  layout for which there is room between that size and the heap.\<close>

theorem alloc_wraps_below_heap:
  assumes "layout_ok l" "2 ^ 64 < unat (next_free a) + unat (align l)" "size l \<le> heap_end a"
    and "layout_ok l'" "unat (size l) + unat (align l') + unat (size l') \<le> unat (heap_start a)"
    and "heap_start a \<le> heap_end a"
  shows "alloc True n a l = Inl Overflow \<and>
    alloc False n a l = Inr (0, a\<lparr>next_free := size l\<rparr>) \<and>
    (\<exists>p. alloc False n' (a\<lparr>next_free := size l\<rparr>) l' = Inr (p, a\<lparr>next_free := p + size l'\<rparr>) \<and>
      p \<noteq> 0 \<and> unat (align l') dvd unat p \<and> unat p + unat (size l') \<le> unat (heap_start a))"
proof (intro conjI)
  show "alloc True n a l = Inl Overflow" using alloc_overflows [OF assms(1)] assms(2) by simp
  have "attempt False a l (next_free a) = Inr (Some (0, size l))"
    using align_up_wraps [OF layout_ok_bounds(5) [OF assms(1)] assms(2)] assms(3)
      layout_ok_bounds(2) [OF assms(1)]
    by (simp add: attempt_def checked_add_def)
  then show "alloc False n a l = Inr (0, a\<lparr>next_free := size l\<rparr>)"
    unfolding alloc_def alloc_loop_spurious [of False a l n] by (simp add: alloc_loop.simps)
  let ?a = "a\<lparr>next_free := size l\<rparr>"
  note l' = layout_ok_bounds [OF assms(4)]
  have "unat (size l) + unat (align l') < 2 ^ 64"
    using assms(5) l'(1) unsigned_less [of "heap_start a", where ?'a = nat] by simp
  from align_up_spec [OF l'(5) this] obtain r where r: "align_up False (size l) (align l') = Inr r"
    "unat (size l) \<le> unat r" "unat r < unat (size l) + unat (align l')" "unat (align l') dvd unat r"
    by blast
  have "unat r + unat (size l') \<le> unat (heap_start a)" using r(3) assms(5) by simp
  moreover from this have "checked_add r (size l') = Some (r + size l')" "r + size l' \<le> heap_end a"
    using assms(6) unsigned_less [of "heap_start a", where ?'a = nat]
    by (auto simp: checked_add_def word_le_nat_alt unat_add_in_range)
  then have "alloc False n' ?a l' = Inr (r, a\<lparr>next_free := r + size l'\<rparr>)"
    using alloc_loop_spurious [of False ?a l' n'] r(1)
    by (simp add: alloc_def alloc_loop.simps [where spurious = 0] attempt_def)
  moreover have "r \<noteq> 0" using r(2) layout_ok_bounds(1) [OF assms(1)] by auto
  ultimately show "\<exists>p. alloc False n' ?a l' = Inr (p, a\<lparr>next_free := p + size l'\<rparr>) \<and>
      p \<noteq> 0 \<and> unat (align l') dvd unat p \<and> unat p + unat (size l') \<le> unat (heap_start a)"
    using r(4) by blast
qed

theorem alloc_wraps_below_heap_witness:
  "\<exists>p. alloc False 0 \<lparr>heap_start = 0xFFFFFFFFFFFFF000, heap_end = 0xFFFFFFFFFFFFFFFF, next_free = 8\<rparr> \<lparr>size = 8, align = 8\<rparr> =
      Inr (p, \<lparr>heap_start = 0xFFFFFFFFFFFFF000, heap_end = 0xFFFFFFFFFFFFFFFF, next_free = p + 8\<rparr>) \<and>
    p \<noteq> 0 \<and> unat p < 0xFFFFFFFFFFFFF000"
proof -
  let ?a = "\<lparr>heap_start = 0xFFFFFFFFFFFFF000, heap_end = 0xFFFFFFFFFFFFFFFF, next_free = 0xFFFFFFFFFFFFFFF9\<rparr>"
    and ?l = "\<lparr>size = 8, align = 8\<rparr>"
  have "layout_ok ?l" by (auto simp: layout_ok_def pow2_def intro: exI [of _ 3])
  from alloc_wraps_below_heap [OF this, of ?a ?l, OF _ _ this] show ?thesis by fastforce
qed

end
