(* ===== verification/FreeListAllocator.thy ===== *)
theory FreeListAllocator
  imports Allocator
begin

text \<open>
  \<^verbatim>\<open>exercises/02_no_std_dev/03_free_list_allocator/src/lib.rs\<close>: a free list in front of a bump
  region. The headers of free blocks live in the heap itself: memory is a map from addresses that
  are multiples of eight to machine words, and a header at \<open>p\<close> has its \<^verbatim>\<open>size\<close> at \<open>p\<close> and its \<^verbatim>\<open>next\<close>
  at \<open>p + 8\<close>. The null pointer is 0.
\<close>

section \<open>The allocator\<close>

record FreeListAllocator =
  heap_start :: usize
  heap_end :: usize
  bump_next :: usize
  free_list :: usize
  heap_words :: "usize \<Rightarrow> usize"

definition fb_size :: "(usize \<Rightarrow> usize) \<Rightarrow> usize \<Rightarrow> usize" where
  "fb_size m p = m p"

definition fb_next :: "(usize \<Rightarrow> usize) \<Rightarrow> usize \<Rightarrow> usize" where
  "fb_next m p = m (p + 8)"

definition new :: "usize \<Rightarrow> usize \<Rightarrow> (usize \<Rightarrow> usize) \<Rightarrow> FreeListAllocator" where
  "new s e m = \<lparr>heap_start = s, heap_end = e, bump_next = s, free_list = 0, heap_words = m\<rparr>"

definition free_list_head :: "FreeListAllocator \<Rightarrow> usize" where
  "free_list_head a = free_list a"

definition set_free_list_head :: "usize \<Rightarrow> FreeListAllocator \<Rightarrow> FreeListAllocator" where
  "set_free_list_head p a = a\<lparr>free_list := p\<rparr>"

text \<open>The header's size and alignment are the least a block may have.\<close>

definition block_size :: "Layout \<Rightarrow> usize" where
  "block_size l = max (size l) 16"

definition block_align :: "Layout \<Rightarrow> usize" where
  "block_align l = max (align l) 8"

definition fits :: "(usize \<Rightarrow> usize) \<Rightarrow> usize \<Rightarrow> usize \<Rightarrow> usize \<Rightarrow> bool" where
  "fits m sz al p \<longleftrightarrow> p mod al = 0 \<and> sz \<le> fb_size m p"

text \<open>The traversal. It may run forever on a list with a cycle, and then is \<open>None\<close>; otherwise it
  ends at the null pointer or with the last two pointers of the loop.\<close>

partial_function (option) find_fit ::
  "(usize \<Rightarrow> usize) \<Rightarrow> usize \<Rightarrow> usize \<Rightarrow> usize \<Rightarrow> usize \<Rightarrow> (usize \<times> usize) option option" where
  "find_fit m sz al prev_ptr cur =
     (if cur = 0 then Some None
      else if fits m sz al cur then Some (Some (prev_ptr, cur))
      else find_fit m sz al cur (fb_next m cur))"

text \<open>Taking the found block out of the list, and the bump step behind the list.\<close>

definition unlink :: "usize \<Rightarrow> usize \<Rightarrow> FreeListAllocator \<Rightarrow> FreeListAllocator" where
  "unlink prev_ptr cur a =
     (let nxt = fb_next (heap_words a) cur in
      if prev_ptr = 0 then set_free_list_head nxt a
      else a\<lparr>heap_words := (heap_words a)(prev_ptr + 8 := nxt)\<rparr>)"

definition bump_alloc ::
  "bool \<Rightarrow> FreeListAllocator \<Rightarrow> usize \<Rightarrow> usize \<Rightarrow> (usize \<times> FreeListAllocator) res" where
  "bump_alloc ck a sz al =
     bind_res (align_up ck (bump_next a) al) (\<lambda>alloc_start.
       Inr (case checked_add alloc_start sz of
              Some e \<Rightarrow>
                if e \<le> heap_end a then (alloc_start, a\<lparr>bump_next := e\<rparr>) else (0, a)
            | None \<Rightarrow> (0, a)))"

definition alloc ::
  "bool \<Rightarrow> FreeListAllocator \<Rightarrow> Layout \<Rightarrow> (usize \<times> FreeListAllocator) res" where
  "alloc ck a l =
     (case find_fit (heap_words a) (block_size l) (block_align l) 0 (free_list_head a) of
        None \<Rightarrow> Inl NoReturn
      | Some (Some (prev_ptr, cur)) \<Rightarrow> Inr (cur, unlink prev_ptr cur a)
      | Some None \<Rightarrow> bump_alloc ck a (block_size l) (block_align l))"

definition dealloc ::
  "FreeListAllocator \<Rightarrow> usize \<Rightarrow> Layout \<Rightarrow> FreeListAllocator res" where
  "dealloc a ptr l =
     Inr (if ptr = 0 then a
          else set_free_list_head ptr
            (a\<lparr>heap_words := (heap_words a)(ptr := block_size l, ptr + 8 := free_list_head a)\<rparr>))"

section \<open>The free list\<close>

text \<open>The list of the free blocks from a pointer on.\<close>

fun chain :: "(usize \<Rightarrow> usize) \<Rightarrow> usize \<Rightarrow> usize list \<Rightarrow> bool" where
  "chain m p [] \<longleftrightarrow> p = 0"
| "chain m p (x # xs) \<longleftrightarrow> p = x \<and> x \<noteq> 0 \<and> chain m (fb_next m x) xs"

lemma chain_cong:
  "(\<And>x. x \<in> set xs \<Longrightarrow> m (x + 8) = m' (x + 8)) \<Longrightarrow> chain m p xs = chain m' p xs"
  by (induction xs arbitrary: p) (auto simp: fb_next_def)

lemma chain_nonzero: "chain m h xs \<Longrightarrow> x \<in> set xs \<Longrightarrow> x \<noteq> 0"
  by (induction xs arbitrary: h) auto

lemma chain_unlink:
  "chain m h (ys @ p # zs) \<Longrightarrow> distinct (ys @ p # zs) \<Longrightarrow> ys \<noteq> [] \<Longrightarrow>
   chain (m(last ys + 8 := fb_next m p)) h (ys @ zs)"
proof (induction ys arbitrary: h)
  case (Cons y ys)
  show ?case
  proof (cases ys)
    case Nil
    have "chain (m(y + 8 := fb_next m p)) (fb_next m p) zs = chain m (fb_next m p) zs"
      using Cons.prems(2) by (intro chain_cong) (auto simp: Nil)
    then show ?thesis using Cons.prems(1) by (simp add: Nil fb_next_def fun_upd_def)
  next
    case (Cons y' ys')
    then have "y \<noteq> last ys" using Cons.prems(2) by (auto dest: last_in_set)
    then show ?thesis using Cons.IH Cons.prems Cons by (simp add: fb_next_def)
  qed
qed simp

lemma find_fit_chain:
  "chain m cur fs \<Longrightarrow>
   (list_all (\<lambda>x. \<not> fits m sz al x) fs \<and> find_fit m sz al prv cur = Some None) \<or>
   (\<exists>ys p zs. fs = ys @ p # zs \<and> fits m sz al p \<and> list_all (\<lambda>x. \<not> fits m sz al x) ys \<and>
      find_fit m sz al prv cur = Some (Some (last (prv # ys), p)))"
proof (induction fs arbitrary: cur prv)
  case Nil
  then show ?case by (simp add: find_fit.simps)
next
  case (Cons x xs)
  then have x: "cur = x" "x \<noteq> 0" "chain m (fb_next m x) xs" by simp_all
  show ?case
  proof (cases "fits m sz al x")
    case True
    then show ?thesis using x by (intro disjI2 exI [of _ "[]"]) (simp add: find_fit.simps)
  next
    case False
    then have step: "find_fit m sz al prv cur = find_fit m sz al x (fb_next m x)"
      using x by (subst find_fit.simps) simp
    from Cons.IH [OF x(3), of x] show ?thesis
    proof (elim disjE exE conjE)
      fix ys p zs
      assume "xs = ys @ p # zs" "fits m sz al p" "list_all (\<lambda>x. \<not> fits m sz al x) ys"
        "find_fit m sz al x (fb_next m x) = Some (Some (last (x # ys), p))"
      then show ?thesis using False step
        by (intro disjI2 exI [of _ "x # ys"] exI [of _ p] exI [of _ zs]) simp
    qed (use False step in simp)
  qed
qed

section \<open>The invariant\<close>

definition free_block :: "(usize \<Rightarrow> usize) \<Rightarrow> usize \<Rightarrow> block" where
  "free_block m p = (unat p, unat (fb_size m p))"

text \<open>What a live allocation occupies: at least a header.\<close>

definition live_block :: "allocation \<Rightarrow> block" where
  "live_block a = (unat (fst a), unat (block_size (snd a)))"

text \<open>A block of the heap that can hold a header.\<close>

definition slot :: "FreeListAllocator \<Rightarrow> block \<Rightarrow> bool" where
  "slot a b \<longleftrightarrow> unat (heap_start a) \<le> fst b \<and> fst b + snd b \<le> unat (bump_next a) \<and>
     8 dvd fst b \<and> 16 \<le> snd b"

definition fl_heap :: "FreeListAllocator \<Rightarrow> bool" where
  "fl_heap a \<longleftrightarrow> 0 < unat (heap_start a) \<and> unat (heap_start a) \<le> unat (bump_next a) \<and>
     unat (bump_next a) \<le> unat (heap_end a) \<and> unat (heap_end a) < 2 ^ 63"

definition fl_blocks :: "FreeListAllocator \<Rightarrow> usize list \<Rightarrow> allocation list \<Rightarrow> block list" where
  "fl_blocks a fs live = map (free_block (heap_words a)) fs @ map live_block live"

definition fl_with :: "FreeListAllocator \<Rightarrow> usize list \<Rightarrow> allocation list \<Rightarrow> bool" where
  "fl_with a fs live \<longleftrightarrow>
     fl_heap a \<and> chain (heap_words a) (free_list a) fs \<and>
     list_all (slot a) (fl_blocks a fs live) \<and> sorted_wrt apart (fl_blocks a fs live) \<and>
     list_all (\<lambda>x. layout_ok (snd x) \<and> aligned x) live"

definition fl_inv :: "FreeListAllocator \<Rightarrow> allocation list \<Rightarrow> bool" where
  "fl_inv a live \<longleftrightarrow> (\<exists>fs. fl_with a fs live)"

lemma block_size_unat: "unat (block_size l) = max (unat (size l)) 16"
  by (simp add: block_size_def max_def word_le_nat_alt)

lemma fl_sound:
  assumes "fl_inv a live"
  shows "sound (heap_start a) (heap_end a) live"
proof -
  from assms obtain fs where fs: "fl_with a fs live" by (auto simp: fl_inv_def)
  have "sorted_wrt (\<lambda>x y. apart (block_of x) (block_of y)) live"
    using fs unfolding fl_with_def fl_blocks_def sorted_wrt_append sorted_wrt_map
    by (auto elim!: sorted_wrt_mono_rel [rotated]
        simp: apart_def live_block_def block_of_def block_size_unat)
  moreover have "in_heap (heap_start a) (heap_end a) (block_of x)" if "x \<in> set live" for x
  proof -
    from fs that have "slot a (live_block x)" "fl_heap a"
      by (auto simp: fl_with_def fl_blocks_def list_all_iff)
    then show ?thesis
      by (auto simp: slot_def in_heap_def live_block_def block_of_def block_size_unat fl_heap_def)
  qed
  ultimately show ?thesis using fs by (simp add: sound_def fl_with_def list_all_iff)
qed

text \<open>Headers of different free blocks, and the words of a live block, are different words.\<close>

lemma unat_hdr: "unat (p::usize) + n < 2 ^ 64 \<Longrightarrow> n < 2 ^ 64 \<Longrightarrow> unat (p + of_nat n) = unat p + n"
  by (simp add: unat_word_ariths unat_of_nat)

definition words_of :: "block \<Rightarrow> usize set" where
  "words_of b = {q. fst b < unat q + 8 \<and> unat q < fst b + snd b}"

lemma header_words:
  assumes "slot a (unat p, n)" "unat (bump_next a) < 2 ^ 63"
  shows "p \<in> words_of (unat p, n)" "p + 8 \<in> words_of (unat p, n)" "unat (p + 8) = unat p + 8"
proof -
  have "unat p + 16 \<le> unat (bump_next a)" using assms(1) by (simp add: slot_def)
  then show u: "unat (p + 8) = unat p + 8"
    using assms(2) unat_hdr [of p 8] by simp
  show "p \<in> words_of (unat p, n)" "p + 8 \<in> words_of (unat p, n)"
    using assms(1) u by (simp_all add: words_of_def slot_def)
qed

text \<open>A word at an address that is a multiple of eight belongs to at most one block.\<close>

lemma apart_header:
  assumes "slot a (unat p, n)" "slot a b" "apart (unat p, n) b" "unat (bump_next a) < 2 ^ 63"
    and "q \<in> words_of b" "8 dvd unat q"
  shows "q \<noteq> p" "q \<noteq> p + 8"
proof -
  have p8: "unat (p + 8) = unat p + 8" by (rule header_words [OF assms(1,4)])
  show "q \<noteq> p"
    using assms(1-3,5) by (auto simp: slot_def apart_def words_of_def)
  have "unat q \<noteq> unat p + 8"
    using assms(1-3,5,6) by (auto simp: slot_def apart_def words_of_def elim!: dvdE)
  then show "q \<noteq> p + 8" using p8 by auto
qed

lemma free_slot:
  "fl_with a fs live \<Longrightarrow> p \<in> set fs \<Longrightarrow> slot a (unat p, unat (heap_words a p))"
  by (auto simp: fl_with_def fl_blocks_def list_all_iff free_block_def fb_size_def)

lemma live_slot: "fl_with a fs live \<Longrightarrow> x \<in> set live \<Longrightarrow> slot a (live_block x)"
  by (auto simp: fl_with_def fl_blocks_def list_all_iff)

lemma fl_bump_bound: "fl_with a fs live \<Longrightarrow> unat (bump_next a) < 2 ^ 63"
  by (simp add: fl_with_def fl_heap_def)

lemma fl_with_write:
  assumes "fl_with a fs live" "\<And>p. p \<in> set fs \<Longrightarrow> q \<noteq> p \<and> q \<noteq> p + 8"
  shows "fl_with (a\<lparr>heap_words := (heap_words a)(q := v)\<rparr>) fs live"
proof -
  have "fl_blocks (a\<lparr>heap_words := (heap_words a)(q := v)\<rparr>) fs live = fl_blocks a fs live"
    using assms(2) by (auto simp: fl_blocks_def free_block_def fb_size_def)
  moreover have "chain ((heap_words a)(q := v)) (free_list a) fs = chain (heap_words a) (free_list a) fs"
    using assms(2) by (intro chain_cong) (metis fun_upd_other)
  ultimately show ?thesis using assms(1)
    by (simp add: fl_with_def fl_heap_def slot_def [abs_def])
qed

text \<open>The owner of a live block may write its words: no header is among them.\<close>

lemma fl_user_write:
  assumes "fl_with a fs live" "x \<in> set live" "q \<in> words_of (live_block x)" "8 dvd unat q"
  shows "fl_with (a\<lparr>heap_words := (heap_words a)(q := v)\<rparr>) fs live"
proof (rule fl_with_write [OF assms(1)])
  fix p assume p: "p \<in> set fs"
  have "apart (unat p, unat (heap_words a p)) (live_block x)"
    using assms(1,2) p
    by (auto simp: fl_with_def fl_blocks_def sorted_wrt_append free_block_def fb_size_def)
  from apart_header [OF free_slot [OF assms(1) p] live_slot [OF assms(1,2)] this
      fl_bump_bound [OF assms(1)] assms(3,4)]
  show "q \<noteq> p \<and> q \<noteq> p + 8" by simp
qed

text \<open>Two different free blocks have different headers.\<close>

lemma fl_distinct: 
  assumes "fl_with a fs live"
  shows "distinct fs"
proof -
  have "sorted_wrt apart (map (free_block (heap_words a)) fs)"
    using assms by (simp add: fl_with_def fl_blocks_def sorted_wrt_append)
  moreover have "\<not> apart (free_block (heap_words a) p) (free_block (heap_words a) p)"
    if "p \<in> set fs" for p
    using free_slot [OF assms that] by (auto simp: apart_def slot_def free_block_def fb_size_def)
  ultimately show ?thesis
  proof (induction fs)
    case (Cons p fs)
    then show ?case by (metis distinct.simps(2) list.set_intros sorted_wrt.simps(2) list.simps(9) image_eqI list.set_map)
  qed simp
qed

lemma apart_map:
  "sorted_wrt apart (map f xs) \<Longrightarrow> x \<in> set xs \<Longrightarrow> y \<in> set xs \<Longrightarrow> x \<noteq> y \<Longrightarrow> apart (f x) (f y)"
  by (induction xs) (auto simp: apart_sym)

lemma fl_header_other:
  assumes "fl_with a fs live" "p \<in> set fs" "q \<in> set fs" "p \<noteq> q"
  shows "q + 8 \<noteq> p"
proof -
  have "apart (free_block (heap_words a) p) (free_block (heap_words a) q)"
    using assms by (intro apart_map [of _ fs]) (auto simp: fl_with_def fl_blocks_def sorted_wrt_append)
  then have ap: "apart (unat p, unat (heap_words a p)) (unat q, unat (heap_words a q))"
    by (simp add: free_block_def fb_size_def)
  note b = fl_bump_bound [OF assms(1)]
  have "q + 8 \<in> words_of (unat q, unat (heap_words a q))" "unat (q + 8) = unat q + 8"
    by (rule header_words [OF free_slot [OF assms(1,3)] b])+
  moreover have "8 dvd unat q + 8" using free_slot [OF assms(1,3)] by (simp add: slot_def)
  ultimately show ?thesis
    using apart_header(1) [OF free_slot [OF assms(1,2)] free_slot [OF assms(1,3)] ap b] by simp
qed

lemma find_first_append: "list_all (\<lambda>x. \<not> P x) ys \<Longrightarrow> P p \<Longrightarrow> List.find P (ys @ p # zs) = Some p"
  by (induction ys) auto

section \<open>Allocating and freeing\<close>

lemma block_align_pow2:
  assumes "layout_ok l"
  shows "pow2 (block_align l)" "unat (block_align l) \<le> 2 ^ 63" "8 dvd unat (block_align l)"
    "unat (align l) dvd unat (block_align l)"
proof -
  from assms have "pow2 (align l)" by (simp add: layout_ok_def)
  then obtain k where k: "k < 64" "align l = push_bit k 1" "unat (align l) = 2 ^ k"
    by (rule pow2_cases)
  have eight: "(8::usize) = push_bit 3 1" by simp
  have le: "8 \<le> align l \<longleftrightarrow> 3 \<le> k"
  proof -
    have "8 \<le> align l \<longleftrightarrow> (2::nat) ^ 3 \<le> 2 ^ k" using k(3) by (simp add: word_le_nat_alt)
    then show ?thesis by (simp only: power_increasing_iff)
  qed
  have u: "unat (block_align l) = 2 ^ max k 3"
    using le k(3) by (auto simp: block_align_def max_def)
  have "pow2 8" unfolding pow2_def using eight by (intro exI [of _ 3]) (simp only:, simp)
  with \<open>pow2 (align l)\<close> show "pow2 (block_align l)" by (simp add: block_align_def max_def)
  show "unat (block_align l) \<le> 2 ^ 63"
    unfolding u using k(1) by (intro power_increasing) auto
  have "(2::nat) ^ 3 dvd 2 ^ max k 3" by (rule le_imp_power_dvd) simp
  then show "8 dvd unat (block_align l)" by (simp add: u)
  show "unat (align l) dvd unat (block_align l)"
    unfolding u k(3) by (rule le_imp_power_dvd) simp
qed

text \<open>Taking a block that fits out of the list.\<close>

lemma unlink_words:
  assumes "fl_with a (ys @ p # zs) live" "x \<in> set (ys @ p # zs)"
  shows "heap_words (unlink (last (0 # ys)) p a) x = heap_words a x"
proof (cases "ys = []")
  case False
  then have l: "last ys \<in> set (ys @ p # zs)" by simp
  have "last ys + 8 \<noteq> x"
    using fl_header_other [OF assms(1) assms(2) l] by (cases "x = last ys") auto
  then show ?thesis by (simp add: unlink_def Let_def set_free_list_head_def False)
qed (simp add: unlink_def Let_def set_free_list_head_def)

lemma unlink_chain:
  assumes "fl_with a (ys @ p # zs) live"
  shows "chain (heap_words (unlink (last (0 # ys)) p a)) (free_list (unlink (last (0 # ys)) p a)) (ys @ zs)"
proof (cases "ys = []")
  case True
  then show ?thesis using assms
    by (simp add: unlink_def Let_def set_free_list_head_def fl_with_def)
next
  case False
  have ch: "chain (heap_words a) (free_list a) (ys @ p # zs)" using assms by (simp add: fl_with_def)
  have "last ys \<noteq> 0" using False by (intro chain_nonzero [OF ch]) simp
  with chain_unlink [OF ch fl_distinct [OF assms] False] False show ?thesis
    by (simp add: unlink_def Let_def)
qed

lemma unlink_bounds [simp]:
  "heap_start (unlink q p a) = heap_start a" "heap_end (unlink q p a) = heap_end a"
  "bump_next (unlink q p a) = bump_next a"
  by (simp_all add: unlink_def Let_def set_free_list_head_def)

lemma fl_pop:
  assumes "fl_with a (ys @ p # zs) live" "layout_ok l"
    "fits (heap_words a) (block_size l) (block_align l) p"
  shows "fl_with (unlink (last (0 # ys)) p a) (ys @ zs) ((p, l) # live)" "p \<noteq> 0"
proof -
  let ?a = "unlink (last (0 # ys)) p a"
  have fb: "free_block (heap_words ?a) x = free_block (heap_words a) x" if "x \<in> set (ys @ zs)" for x
    using unlink_words [OF assms(1), of x] that by (auto simp: free_block_def fb_size_def)
  have sz: "unat (block_size l) \<le> unat (heap_words a p)"
    using assms(3) by (simp add: fits_def fb_size_def word_le_nat_alt)
  have sl: "slot a (unat p, unat (heap_words a p))" by (rule free_slot [OF assms(1)]) simp
  show "p \<noteq> 0" using sl assms(1) by (auto simp: slot_def fl_with_def fl_heap_def)
  have "unat p mod unat (block_align l) = 0"
    using assms(3) by (simp add: fits_def flip: unat_mod)
  then have al: "aligned (p, l)"
    using block_align_pow2(4) [OF assms(2)] by (auto simp: aligned_def intro: dvd_trans)
  have shrink: "apart (live_block (p, l)) b" if "apart (free_block (heap_words a) p) b" for b
    using that sz by (auto simp: apart_def live_block_def free_block_def fb_size_def)
  have slp: "slot a (live_block (p, l))"
    using sl sz by (auto simp: slot_def live_block_def block_size_unat)
  have maps: "map (free_block (heap_words ?a)) ys = map (free_block (heap_words a)) ys"
    "map (free_block (heap_words ?a)) zs = map (free_block (heap_words a)) zs"
    using fb by auto
  have slots: "slot ?a = slot a" by (rule ext) (simp add: slot_def)
  have "sorted_wrt apart (fl_blocks ?a (ys @ zs) ((p, l) # live))"
    using assms(1) shrink unfolding fl_with_def fl_blocks_def map_append maps
    by (auto simp: sorted_wrt_append apart_sym)
  moreover have "list_all (slot ?a) (fl_blocks ?a (ys @ zs) ((p, l) # live))"
    using assms(1) slp unfolding fl_with_def fl_blocks_def map_append maps slots by simp
  ultimately show "fl_with ?a (ys @ zs) ((p, l) # live)"
    using assms(1,2) al unlink_chain [OF assms(1)] by (simp add: fl_with_def fl_heap_def)
qed

text \<open>Taking a block from the bump region.\<close>

lemma fl_bump:
  assumes "fl_with a fs live" "layout_ok l"
  obtains r where "unat (block_align l) dvd unat r" "bump_next a \<le> r"
    "bump_alloc ck a (block_size l) (block_align l) =
      Inr (if unat r + unat (block_size l) \<le> unat (heap_end a)
           then (r, a\<lparr>bump_next := r + block_size l\<rparr>) else (0, a))"
    "unat r + unat (block_size l) \<le> unat (heap_end a) \<Longrightarrow>
       fl_with (a\<lparr>bump_next := r + block_size l\<rparr>) fs ((r, l) # live)"
    "r \<noteq> 0"
proof -
  have h: "fl_heap a" using assms(1) by (simp add: fl_with_def)
  note al = block_align_pow2 [OF assms(2)]
  have "unat (bump_next a) + unat (block_align l) < 2 ^ 64"
    using h al(2) by (simp add: fl_heap_def)
  then obtain r where r: "align_up ck (bump_next a) (block_align l) = Inr r"
    "unat (bump_next a) \<le> unat r" "unat (block_align l) dvd unat r"
    by (rule align_up_spec [OF al(1)])
  have res: "bump_alloc ck a (block_size l) (block_align l) =
      Inr (if unat r + unat (block_size l) \<le> unat (heap_end a)
           then (r, a\<lparr>bump_next := r + block_size l\<rparr>) else (0, a))"
    using h by (auto simp: bump_alloc_def r(1) checked_add_def fl_heap_def word_le_nat_alt
        unat_add_in_range)
  have inv: "fl_with (a\<lparr>bump_next := r + block_size l\<rparr>) fs ((r, l) # live)"
    if fit: "unat r + unat (block_size l) \<le> unat (heap_end a)"
  proof -
    let ?a = "a\<lparr>bump_next := r + block_size l\<rparr>"
    have e: "unat (r + block_size l) = unat r + unat (block_size l)"
      using fit h by (intro unat_add_in_range) (simp add: fl_heap_def)
    have mono: "slot a b \<Longrightarrow> slot ?a b" for b
      using r(2) e by (auto simp: slot_def)
    have "8 dvd unat r" using al(3) r(3) by (rule dvd_trans)
    then have new: "slot ?a (live_block (r, l))"
      using r(2) e h by (simp add: slot_def live_block_def block_size_unat fl_heap_def)
    have far: "slot a b \<Longrightarrow> apart b (live_block (r, l)) \<and> apart (live_block (r, l)) b" for b
      using r(2) by (auto simp: slot_def apart_def live_block_def)
    have bl: "fl_blocks ?a fs live = fl_blocks a fs live" by (simp add: fl_blocks_def)
    have old: "list_all (slot a) (fl_blocks a fs live)" "sorted_wrt apart (fl_blocks a fs live)"
      using assms(1) by (simp_all add: fl_with_def)
    have "list_all (slot ?a) (fl_blocks ?a fs ((r, l) # live))"
      using old(1) new by (auto simp: fl_blocks_def list_all_iff intro: mono)
    moreover have "sorted_wrt apart (fl_blocks ?a fs ((r, l) # live))"
      using old far by (auto simp: fl_blocks_def list_all_iff sorted_wrt_append)
    moreover have "aligned (r, l)"
      using al(4) r(3) by (auto simp: aligned_def intro: dvd_trans)
    ultimately show ?thesis
      using assms h e fit r(2) by (auto simp: fl_with_def fl_heap_def)
  qed
  have "r \<noteq> 0" using h r(2) by (auto simp: fl_heap_def)
  with res inv r that show ?thesis by (simp add: word_le_nat_alt)
qed

text \<open>Freeing a block puts it at the head of the list.\<close>

lemma fl_push:
  assumes "fl_with a fs live" "(p, l) \<in> set live"
  shows "\<exists>a'. dealloc a p l = Inr a' \<and> heap_start a' = heap_start a \<and> heap_end a' = heap_end a \<and>
    fl_with a' (p # fs) (remove1 (p, l) live)"
proof -
  obtain as bs where live: "live = as @ (p, l) # bs" "(p, l) \<notin> set as"
    using assms(2) split_list_first by fastforce
  have rm: "remove1 (p, l) live = as @ bs" using live by (simp add: remove1_append)
  have sl: "slot a (live_block (p, l))" by (rule live_slot [OF assms])
  then have p0: "p \<noteq> 0" using assms(1)
    by (auto simp: slot_def live_block_def fl_with_def fl_heap_def)
  have hw: "p \<in> words_of (live_block (p, l))" "p + 8 \<in> words_of (live_block (p, l))"
    "unat (p + 8) = unat p + 8"
    using header_words [of a p "unat (block_size l)"] sl fl_bump_bound [OF assms(1)]
    by (simp_all add: live_block_def)
  have d: "8 dvd unat p" "8 dvd unat (p + 8)"
    using sl hw(3) by (simp_all add: slot_def live_block_def)
  define a1 where "a1 = a\<lparr>heap_words := (heap_words a)(p := block_size l)\<rparr>"
  define a2 where "a2 = a1\<lparr>heap_words := (heap_words a1)(p + 8 := free_list a)\<rparr>"
  have "fl_with a1 fs live"
    unfolding a1_def by (rule fl_user_write [OF assms hw(1) d(1)])
  then have w2: "fl_with a2 fs live"
    unfolding a2_def by (rule fl_user_write [OF _ assms(2) hw(2) d(2)])
  have "p + 8 \<noteq> p" by simp
  then have m2: "heap_words a2 p = block_size l" "heap_words a2 (p + 8) = free_list a"
    "free_list a2 = free_list a"
    by (simp_all add: a2_def a1_def)
  then have fb: "free_block (heap_words a2) p = live_block (p, l)"
    by (simp add: free_block_def fb_size_def live_block_def)
  let ?a = "a2\<lparr>free_list := p\<rparr>"
  have slots: "slot ?a = slot a2" by (rule ext) (simp add: slot_def)
  have bl: "fl_blocks ?a (p # fs) (as @ bs) =
      live_block (p, l) # map (free_block (heap_words a2)) fs @ map live_block as @ map live_block bs"
    by (simp add: fl_blocks_def fb)
  have "sorted_wrt apart (fl_blocks ?a (p # fs) (as @ bs))"
    "list_all (slot ?a) (fl_blocks ?a (p # fs) (as @ bs))"
    using w2 unfolding bl slots fl_with_def fl_blocks_def live(1) map_append
    by (auto simp: sorted_wrt_append apart_sym fb)
  moreover have "chain (heap_words a2) p (p # fs)"
    using w2 m2 p0 by (simp add: fl_with_def fb_next_def)
  ultimately have "fl_with ?a (p # fs) (as @ bs)"
    using w2 live(1) by (simp add: fl_with_def fl_heap_def)
  moreover have "dealloc a p l = Inr ?a"
    using p0 by (simp add: dealloc_def a2_def a1_def set_free_list_head_def free_list_head_def)
  ultimately show ?thesis unfolding rm by (auto simp: a2_def a1_def)
qed

lemma fl_with_new:
  assumes "0 < s" "s \<le> e" "unat e < 2 ^ 63"
  shows "fl_with (new s e m) [] []"
  using assms by (simp add: fl_with_def fl_heap_def new_def fl_blocks_def word_le_nat_alt word_less_nat_alt)

text \<open>The two ways an allocation can go: the first free block that fits, or the bump region when
  none does.\<close>

lemma fl_alloc:
  assumes "fl_with a fs live" "layout_ok l"
  shows "(\<exists>ys p zs a'. fs = ys @ p # zs \<and> fits (heap_words a) (block_size l) (block_align l) p \<and>
      list_all (\<lambda>x. \<not> fits (heap_words a) (block_size l) (block_align l) x) ys \<and>
      alloc ck a l = Inr (p, a') \<and> p \<noteq> 0 \<and> fl_with a' (ys @ zs) ((p, l) # live) \<and>
      heap_start a' = heap_start a \<and> heap_end a' = heap_end a \<and> bump_next a' = bump_next a) \<or>
    (list_all (\<lambda>x. \<not> fits (heap_words a) (block_size l) (block_align l) x) fs \<and>
      alloc ck a l = bump_alloc ck a (block_size l) (block_align l) \<and>
      (\<exists>p a'. alloc ck a l = Inr (p, a') \<and> fl_with a' fs (if p = 0 then live else (p, l) # live) \<and>
        heap_start a' = heap_start a \<and> heap_end a' = heap_end a))"
proof -
  have "chain (heap_words a) (free_list a) fs" using assms(1) by (simp add: fl_with_def)
  from find_fit_chain [OF this, of "block_size l" "block_align l" 0] show ?thesis
  proof (elim disjE exE conjE)
    assume none: "list_all (\<lambda>x. \<not> fits (heap_words a) (block_size l) (block_align l) x) fs"
      "find_fit (heap_words a) (block_size l) (block_align l) 0 (free_list a) = Some None"
    obtain r where "unat (block_align l) dvd unat r" "bump_next a \<le> r"
      and r: "bump_alloc ck a (block_size l) (block_align l) =
        Inr (if unat r + unat (block_size l) \<le> unat (heap_end a)
             then (r, a\<lparr>bump_next := r + block_size l\<rparr>) else (0, a))"
      "unat r + unat (block_size l) \<le> unat (heap_end a) \<Longrightarrow>
         fl_with (a\<lparr>bump_next := r + block_size l\<rparr>) fs ((r, l) # live)" "r \<noteq> 0"
      by (rule fl_bump [OF assms, of ck]) (rule that, assumption+)
    show ?thesis using none r assms(1) by (auto simp: alloc_def free_list_head_def)
  next
    fix ys p zs
    assume fs: "fs = ys @ p # zs" "fits (heap_words a) (block_size l) (block_align l) p"
      "list_all (\<lambda>x. \<not> fits (heap_words a) (block_size l) (block_align l) x) ys"
      "find_fit (heap_words a) (block_size l) (block_align l) 0 (free_list a) = Some (Some (last (0 # ys), p))"
    have al: "alloc ck a l = Inr (p, unlink (last (0 # ys)) p a)"
      using fs(4) by (simp add: alloc_def free_list_head_def)
    from fl_pop [OF assms(1)[unfolded fs(1)] assms(2) fs(2)] fs(1-3) al
    show ?thesis by (metis unlink_bounds)
  qed
qed

interpretation fl: global_alloc fl_inv "\<lambda>a. (heap_start a, heap_end a)" "alloc ck" dealloc for ck
proof unfold_locales
  fix a live
  assume "fl_inv a live"
  then show "sound (fst (heap_start a, heap_end a)) (snd (heap_start a, heap_end a)) live"
    by (simp add: fl_sound)
next
  fix a live and l :: Layout
  assume "fl_inv a live" and l: "layout_ok l"
  then obtain fs where "fl_with a fs live" by (auto simp: fl_inv_def)
  from fl_alloc [OF this l, of ck]
  show "\<exists>p a'. alloc ck a l = Inr (p, a') \<and> (heap_start a', heap_end a') = (heap_start a, heap_end a) \<and>
      fl_inv a' (if p = 0 then live else (p, l) # live)"
    unfolding fl_inv_def
    by (elim disjE exE conjE) (intro exI conjI, assumption, simp, fastforce)+
next
  fix a live p l
  assume "fl_inv a live" and "(p, l) \<in> set live"
  then show "\<exists>a'. dealloc a p l = Inr a' \<and> (heap_start a', heap_end a') = (heap_start a, heap_end a) \<and>
      fl_inv a' (remove1 (p, l) live)"
    unfolding fl_inv_def using fl_push by (metis (no_types, lifting))
qed

text \<open>Any sequence of allocations and frees on a new free list allocator returns, without a panic,
  and leaves live blocks that are aligned, inside the heap and pairwise disjoint.\<close>

theorem free_list_serve_sound:
  assumes "0 < s" "s \<le> e" "unat e < 2 ^ 63" "requests_ok rs"
  shows "\<exists>a live. serve (alloc ck) dealloc (new s e m) [] rs = Inr (a, live) \<and> sound s e live"
proof -
  have "fl_inv (new s e m) []" using fl_with_new [OF assms(1-3)] by (auto simp: fl_inv_def)
  from fl.serve_sound [OF this assms(4)] show ?thesis by (simp add: new_def)
qed

theorem free_list_serve_sound_witness:
  "\<exists>a live. serve (alloc True) dealloc (new 0x1000 0x2000 (\<lambda>_. 0)) []
     [Alloc \<lparr>size = 32, align = 1\<rparr>, Dealloc 0, Alloc \<lparr>size = 8, align = 1\<rparr>] = Inr (a, live) \<and>
     sound 0x1000 0x2000 live"
  by (rule free_list_serve_sound) (auto simp: requests_ok_def layout_ok_def pow2_def intro: exI [of _ 0])

section \<open>With clients that use their memory\<close>

text \<open>A run of the allocator in which the owner of a live block may also write any word of it.\<close>

inductive fl_run :: "bool \<Rightarrow> usize \<Rightarrow> usize \<Rightarrow> FreeListAllocator \<Rightarrow> allocation list \<Rightarrow> bool"
  for ck s e where
  start: "fl_run ck s e (new s e m) []"
| alloc: "fl_run ck s e a live \<Longrightarrow> layout_ok l \<Longrightarrow> alloc ck a l = Inr (p, a') \<Longrightarrow>
    fl_run ck s e a' (if p = 0 then live else (p, l) # live)"
| free: "fl_run ck s e a live \<Longrightarrow> (p, l) \<in> set live \<Longrightarrow> dealloc a p l = Inr a' \<Longrightarrow>
    fl_run ck s e a' (remove1 (p, l) live)"
| user: "fl_run ck s e a live \<Longrightarrow> x \<in> set live \<Longrightarrow> q \<in> words_of (live_block x) \<Longrightarrow>
    8 dvd unat q \<Longrightarrow> fl_run ck s e (a\<lparr>heap_words := (heap_words a)(q := v)\<rparr>) live"

lemma fl_run_inv:
  assumes "fl_run ck s e a live" "0 < s" "s \<le> e" "unat e < 2 ^ 63"
  shows "fl_inv a live \<and> heap_start a = s \<and> heap_end a = e"
  using assms(1)
proof induction
  case (start m)
  then show ?case using fl_with_new [OF assms(2-4)] by (auto simp: fl_inv_def new_def)
next
  case (alloc a live l p a')
  with fl.alloc [of a live l ck] show ?case by auto
next
  case (free a live p l a')
  with fl.dealloc [of a live p l] show ?case by auto
next
  case (user a live x q v)
  then obtain fs where "fl_with a fs live" by (auto simp: fl_inv_def)
  from fl_user_write [OF this user(2-4)] user show ?case by (auto simp: fl_inv_def)
qed

text \<open>C3: nor can clients that write all over their own blocks break the allocator, whose headers lie
  between them: the blocks stay sound, an allocation always returns, and it takes the first block
  of the free list that fits before it touches the bump region.\<close>

theorem free_list_run_sound:
  assumes "fl_run ck s e a live" "0 < s" "s \<le> e" "unat e < 2 ^ 63" "layout_ok l"
  shows "sound s e live \<and> (\<exists>fs. chain (heap_words a) (free_list a) fs \<and>
    (case List.find (fits (heap_words a) (block_size l) (block_align l)) fs of
       Some p \<Rightarrow> \<exists>a'. alloc ck a l = Inr (p, a') \<and> chain (heap_words a') (free_list a') (remove1 p fs) \<and>
         bump_next a' = bump_next a
     | None \<Rightarrow> alloc ck a l = bump_alloc ck a (block_size l) (block_align l)))"
proof -
  have inv: "fl_inv a live" "heap_start a = s" "heap_end a = e"
    using fl_run_inv [OF assms(1-4)] by simp_all
  then obtain fs where fs: "fl_with a fs live" by (auto simp: fl_inv_def)
  let ?fits = "fits (heap_words a) (block_size l) (block_align l)"
  have "chain (heap_words a) (free_list a) fs" using fs by (simp add: fl_with_def)
  moreover have "(case List.find ?fits fs of
       Some p \<Rightarrow> \<exists>a'. alloc ck a l = Inr (p, a') \<and> chain (heap_words a') (free_list a') (remove1 p fs) \<and>
         bump_next a' = bump_next a
     | None \<Rightarrow> alloc ck a l = bump_alloc ck a (block_size l) (block_align l))"
    using fl_alloc [OF fs assms(5), of ck]
  proof (elim disjE exE conjE)
    fix ys p zs a'
    assume a': "fs = ys @ p # zs" "?fits p" "list_all (\<lambda>x. \<not> ?fits x) ys"
      "alloc ck a l = Inr (p, a')" "fl_with a' (ys @ zs) ((p, l) # live)"
      "bump_next a' = bump_next a"
    then have "List.find ?fits fs = Some p" by (simp add: find_first_append)
    moreover have "remove1 p fs = ys @ zs"
      using fl_distinct [OF fs] a'(1) by (simp add: remove1_append)
    ultimately show ?thesis using a' by (simp add: fl_with_def)
  next
    assume "list_all (\<lambda>x. \<not> ?fits x) fs"
      "alloc ck a l = bump_alloc ck a (block_size l) (block_align l)"
    moreover from this(1) have "List.find ?fits fs = None"
      by (auto simp: find_None_iff list_all_iff)
    ultimately show ?thesis by simp
  qed
  ultimately show ?thesis using fl_sound [OF inv(1)] inv(2,3) by auto
qed

text \<open>An allocator with one free block, after a block of 32 bytes has been allocated and freed.\<close>

definition one_free :: FreeListAllocator where
  "one_free = \<lparr>heap_start = 0x1000, heap_end = 0x2000, bump_next = 0x1020, free_list = 0x1000,
     heap_words = (\<lambda>_. 0)(0x1000 := 32, 0x1008 := 0)\<rparr>"

lemma layout_32: "layout_ok \<lparr>size = 32, align = 1\<rparr>"
  by (auto simp: layout_ok_def pow2_def intro: exI [of _ 0])

lemma one_free_run: "fl_run True 0x1000 0x2000 one_free []"
proof -
  let ?l = "\<lparr>size = 32, align = 1\<rparr>" and ?a0 = "new 0x1000 0x2000 (\<lambda>_. 0)"
  let ?a1 = "?a0\<lparr>bump_next := 0x1020\<rparr>"
  have "alloc True ?a0 ?l = Inr (0x1000, ?a1)"
    by (simp add: alloc_def new_def free_list_head_def find_fit.simps bump_alloc_def align_up_def
        add_ck_def sub_ck_def checked_add_def block_size_def block_align_def max_def)
  from fl_run.alloc [OF fl_run.start layout_32 this]
  have r1: "fl_run True 0x1000 0x2000 ?a1 [(0x1000, ?l)]" by simp
  have "dealloc ?a1 0x1000 ?l = Inr one_free"
    by (simp add: dealloc_def new_def one_free_def set_free_list_head_def free_list_head_def block_size_def max_def)
  from fl_run.free [OF r1 _ this] show ?thesis by simp
qed

theorem free_list_run_sound_witness:
  "\<exists>a l. fl_run True 0x1000 0x2000 a [] \<and> layout_ok l \<and> fst (projr (alloc True a l)) = 0x1000"
proof -
  let ?l = "\<lparr>size = 32, align = 1\<rparr>"
  obtain fs where fs: "chain (heap_words one_free) (free_list one_free) fs"
    "case List.find (fits (heap_words one_free) (block_size ?l) (block_align ?l)) fs of
       Some p \<Rightarrow> \<exists>a'. alloc True one_free ?l = Inr (p, a') \<and>
         chain (heap_words a') (free_list a') (remove1 p fs) \<and> bump_next a' = bump_next one_free
     | None \<Rightarrow> alloc True one_free ?l = bump_alloc True one_free (block_size ?l) (block_align ?l)"
    using free_list_run_sound [OF one_free_run _ _ _ layout_32] by auto
  from fs(1) have "fs = [0x1000]"
    by (cases fs; cases "tl fs") (auto simp: fb_next_def one_free_def)
  with fs(2) have "fst (projr (alloc True one_free ?l)) = 0x1000"
    by (auto simp: fits_def fb_size_def block_size_def block_align_def max_def one_free_def)
  then show ?thesis using one_free_run layout_32 by blast
qed

text \<open>Memory is reused last in, first out: after a block is freed, the next allocation that fits
  its size at its address is given that block.\<close>

theorem free_list_lifo:
  assumes "fl_run ck s e a live" "0 < s" "s \<le> e" "unat e < 2 ^ 63" "(p, l) \<in> set live"
    and "layout_ok l'" "size l' \<le> block_size l" "unat (block_align l') dvd unat p"
  shows "\<exists>a' a''. dealloc a p l = Inr a' \<and> alloc ck a' l' = Inr (p, a'')"
proof -
  obtain fs where fs: "fl_with a fs live"
    using fl_run_inv [OF assms(1-4)] by (auto simp: fl_inv_def)
  have "slot a (live_block (p, l))" by (rule live_slot [OF fs assms(5)])
  then have p: "p \<noteq> 0" using fs by (auto simp: slot_def live_block_def fl_with_def fl_heap_def)
  let ?a = "a\<lparr>heap_words := (heap_words a)(p := block_size l, p + 8 := free_list a), free_list := p\<rparr>"
  have "dealloc a p l = Inr ?a"
    using p by (simp add: dealloc_def set_free_list_head_def free_list_head_def)
  moreover have "block_size l' \<le> block_size l"
    using assms(7) by (auto simp: block_size_def max_def)
  moreover have "p mod block_align l' = 0"
    using assms(8) by (simp add: word_unat_eq_iff unat_mod)
  ultimately have "find_fit (heap_words ?a) (block_size l') (block_align l') 0 (free_list_head ?a) =
      Some (Some (0, p))"
    using p by (simp add: find_fit.simps free_list_head_def fits_def fb_size_def)
  then show ?thesis using \<open>dealloc a p l = Inr ?a\<close> by (simp add: alloc_def)
qed

theorem free_list_lifo_witness:
  "\<exists>a l. fl_run True 0x1000 0x2000 a [(0x1000, l)] \<and>
    (\<exists>a' a''. dealloc a 0x1000 l = Inr a' \<and> alloc True a' \<lparr>size = 8, align = 1\<rparr> = Inr (0x1000, a''))"
proof -
  let ?l = "\<lparr>size = 32, align = 1\<rparr>" and ?a0 = "new 0x1000 0x2000 (\<lambda>_. 0)"
  let ?a1 = "?a0\<lparr>bump_next := 0x1020\<rparr>"
  have l: "layout_ok ?l" "layout_ok \<lparr>size = 8, align = 1\<rparr>"
    by (auto simp: layout_ok_def pow2_def intro: exI [of _ 0])
  have "alloc True ?a0 ?l = Inr (0x1000, ?a1)"
    by (simp add: alloc_def new_def free_list_head_def find_fit.simps bump_alloc_def align_up_def
        add_ck_def sub_ck_def checked_add_def block_size_def block_align_def max_def)
  from fl_run.alloc [OF fl_run.start l(1) this]
  have r1: "fl_run True 0x1000 0x2000 ?a1 [(0x1000, ?l)]" by simp
  have "\<exists>a' a''. dealloc ?a1 0x1000 ?l = Inr a' \<and> alloc True a' \<lparr>size = 8, align = 1\<rparr> = Inr (0x1000, a'')"
    by (rule free_list_lifo [OF r1 _ _ _ _ l(2)]) (simp_all add: block_size_def block_align_def max_def)
  with r1 show ?thesis by blast
qed

end
