(* ===== verification/Interleaving.thy ===== *)
theory Interleaving
  imports Prelude
begin

text \<open>
  Threads that share memory, as interleavings of atomic steps: a pool has a shared state and a local
  state for every thread, and each step lets one thread make one atomic step. The order of the steps
  is sequentially consistent; where a program's correctness rests on weaker orderings, the component
  says so. Also the atomic operations of the standard library.
\<close>

section \<open>Atomic operations\<close>

text \<open>\<^verbatim>\<open>compare_exchange(expected, new)\<close> on the current value: \<^verbatim>\<open>Ok(old)\<close> or \<^verbatim>\<open>Err(actual)\<close>, and the
  value it leaves.\<close>

definition compare_exchange :: "'a \<Rightarrow> 'a \<Rightarrow> 'a \<Rightarrow> ('a + 'a) \<times> 'a" where
  "compare_exchange cur expected n = (if cur = expected then (Inr cur, n) else (Inl cur, cur))"

definition is_ok :: "'a + 'b \<Rightarrow> bool" where
  "is_ok r = (case r of Inl _ \<Rightarrow> False | Inr _ \<Rightarrow> True)"

lemma is_ok_simps [simp]: "is_ok (Inr x)" "\<not> is_ok (Inl x)"
  by (simp_all add: is_ok_def)

lemma is_ok_iff: "is_ok r \<longleftrightarrow> (\<exists>x. r = Inr x)"
  by (cases r) simp_all

section \<open>Pools of threads\<close>

record ('g, 'l) pool =
  shared :: 'g
  locals :: "nat \<Rightarrow> 'l"

type_synonym ('g, 'l) thread_step = "nat \<Rightarrow> 'g \<Rightarrow> 'l \<Rightarrow> 'g \<Rightarrow> 'l \<Rightarrow> bool"

inductive pool_step :: "('g, 'l) thread_step \<Rightarrow> ('g, 'l) pool \<Rightarrow> ('g, 'l) pool \<Rightarrow> bool"
  for tstep where
  step: "tstep t (shared s) (locals s t) g' l' \<Longrightarrow>
    pool_step tstep s \<lparr>shared = g', locals = (locals s)(t := l')\<rparr>"

inductive reachable :: "('g, 'l) thread_step \<Rightarrow> ('g, 'l) pool \<Rightarrow> ('g, 'l) pool \<Rightarrow> bool"
  for tstep s0 where
  start: "reachable tstep s0 s0"
| step: "reachable tstep s0 s \<Longrightarrow> pool_step tstep s s' \<Longrightarrow> reachable tstep s0 s'"

text \<open>An invariant over the shared state and the map of local states.\<close>

lemma reachable_invariant:
  assumes "reachable tstep s0 s" "I (shared s0) (locals s0)"
    and "\<And>g ls t g' l'. I g ls \<Longrightarrow> tstep t g (ls t) g' l' \<Longrightarrow> I g' (ls(t := l'))"
  shows "I (shared s) (locals s)"
  using assms(1)
proof induction
  case (step s s')
  from step.hyps(2) show ?case
  proof cases
    case (step t g' l')
    then show ?thesis using assms(3) [OF step.IH step(2)] by (simp add: fun_upd_def)
  qed
qed (rule assms(2))

text \<open>A schedule: the threads that move, with the states they move to.\<close>

fun run_pool :: "('g, 'l) pool \<Rightarrow> (nat \<times> 'g \<times> 'l) list \<Rightarrow> ('g, 'l) pool" where
  "run_pool s [] = s"
| "run_pool s ((t, g, l) # xs) = run_pool \<lparr>shared = g, locals = (locals s)(t := l)\<rparr> xs"

fun legal :: "('g, 'l) thread_step \<Rightarrow> ('g, 'l) pool \<Rightarrow> (nat \<times> 'g \<times> 'l) list \<Rightarrow> bool" where
  "legal tstep s [] \<longleftrightarrow> True"
| "legal tstep s ((t, g, l) # xs) \<longleftrightarrow>
     tstep t (shared s) (locals s t) g l \<and> legal tstep \<lparr>shared = g, locals = (locals s)(t := l)\<rparr> xs"

lemma legal_Cons:
  "tstep t g l g' l' \<Longrightarrow> shared s = g \<Longrightarrow> locals s t = l \<Longrightarrow>
   legal tstep \<lparr>shared = g', locals = (locals s)(t := l')\<rparr> xs \<Longrightarrow>
   legal tstep s ((t, g', l') # xs)"
  by simp

lemma legal_reachable:
  "reachable tstep s0 s \<Longrightarrow> legal tstep s xs \<Longrightarrow> reachable tstep s0 (run_pool s xs)"
  by (induction tstep s xs rule: legal.induct) (auto intro: reachable.step pool_step.step)

end
