(* ===== verification/FreeListRace.thy ===== *)
theory FreeListRace
  imports FreeListAllocator Interleaving
begin

text \<open>
  \<^verbatim>\<open>exercises/02_no_std_dev/03_free_list_allocator/src/lib.rs\<close> with several threads: \<^verbatim>\<open>alloc\<close> and
  \<^verbatim>\<open>dealloc\<close> one memory access at a time. Outside of tests the head of the list is in an \<^verbatim>\<open>UnsafeCell\<close>; in
  tests a mutex is taken around each single access of the head, which makes that access a step of
  its own, as here. The clients keep to the contract of \<^verbatim>\<open>GlobalAlloc\<close>. Calls that do not overlap keep
  every live block apart from the others; calls that overlap can hand out one block twice, and lose blocks.
\<close>

section \<open>One access at a time\<close>

text \<open>Where a call is. \<open>Walk\<close>: at the test of the loop, with \<^verbatim>\<open>prev_ptr\<close> and \<^verbatim>\<open>curr\<close>; \<open>Pass\<close>: \<^verbatim>\<open>curr\<close> does not
  fit, and is \<^verbatim>\<open>prev_ptr\<close> already; \<open>Found\<close>: it fits; \<open>Unlink\<close>: its \<^verbatim>\<open>next\<close> has been read; \<open>Bump\<close>: in the
  loop of the bump region, with \<^verbatim>\<open>prev_next\<close>. \<open>Freeing\<close>: the head has been read; \<open>Write_next\<close>,
  \<open>Write_size\<close>: one word of the header has been written and the other not yet, for which Rust fixes no
  order; \<open>Linking\<close>: both have.\<close>

datatype fl_pc = Idle
  | Walk Layout usize usize | Pass Layout usize | Found Layout usize usize | Unlink Layout usize usize usize
  | Bump Layout usize | Got Layout usize | Panicked panic
  | Freeing usize Layout usize | Write_next usize usize | Write_size usize Layout | Linking usize | Freed

text \<open>The round of the bump loop: panicking, giving up, or trying to move \<^verbatim>\<open>bump_next\<close>.\<close>

definition bump_round ::
  "bool \<Rightarrow> FreeListAllocator \<Rightarrow> Layout \<Rightarrow> usize \<Rightarrow> FreeListAllocator \<times> fl_pc" where
  "bump_round ck a l prev_next =
     (case align_up ck prev_next (block_align l) of
        Inl e \<Rightarrow> (a, Panicked e)
      | Inr alloc_start \<Rightarrow>
          (case checked_add alloc_start (block_size l) of
             None \<Rightarrow> (a, Got l 0)
           | Some alloc_end \<Rightarrow>
               if alloc_end \<le> heap_end a then
                 (case compare_exchange (bump_next a) prev_next alloc_end of
                    (Inr _, b) \<Rightarrow> (a\<lparr>bump_next := b\<rparr>, Got l alloc_start)
                  | (Inl actual, _) \<Rightarrow> (a, Bump l actual))
               else (a, Got l 0)))"

inductive fl_step ::
  "bool \<Rightarrow> FreeListAllocator \<times> fl_pc \<Rightarrow> FreeListAllocator \<times> fl_pc \<Rightarrow> bool" for ck where
  fit: "cur \<noteq> 0 \<Longrightarrow> fits (heap_words a) (block_size l) (block_align l) cur \<Longrightarrow>
    fl_step ck (a, Walk l prev cur) (a, Found l prev cur)"
| misfit: "cur \<noteq> 0 \<Longrightarrow> \<not> fits (heap_words a) (block_size l) (block_align l) cur \<Longrightarrow>
    fl_step ck (a, Walk l prev cur) (a, Pass l cur)"
| advance: "fl_step ck (a, Pass l cur) (a, Walk l cur (fb_next (heap_words a) cur))"
| list_end: "fl_step ck (a, Walk l prev 0) (a, Bump l (bump_next a))"
| read_next: "fl_step ck (a, Found l prev cur) (a, Unlink l prev cur (fb_next (heap_words a) cur))"
| new_head: "fl_step ck (a, Unlink l 0 cur nxt) (set_free_list_head nxt a, Got l cur)"
| bypass: "prev \<noteq> 0 \<Longrightarrow>
    fl_step ck (a, Unlink l prev cur nxt) (a\<lparr>heap_words := (heap_words a)(prev + 8 := nxt)\<rparr>, Got l cur)"
| bump: "fl_step ck (a, Bump l prev_next) (bump_round ck a l prev_next)"
| size_first: "fl_step ck (a, Freeing p l head)
    (a\<lparr>heap_words := (heap_words a)(p := block_size l)\<rparr>, Write_next p head)"
| then_next: "fl_step ck (a, Write_next p head)
    (a\<lparr>heap_words := (heap_words a)(p + 8 := head)\<rparr>, Linking p)"
| next_first: "fl_step ck (a, Freeing p l head)
    (a\<lparr>heap_words := (heap_words a)(p + 8 := head)\<rparr>, Write_size p l)"
| then_size: "fl_step ck (a, Write_size p l)
    (a\<lparr>heap_words := (heap_words a)(p := block_size l)\<rparr>, Linking p)"
| link: "fl_step ck (a, Linking p) (set_free_list_head p a, Freed)"

text \<open>The first access of a call reads the head.\<close>

definition start_alloc :: "FreeListAllocator \<Rightarrow> Layout \<Rightarrow> fl_pc" where
  "start_alloc a l = Walk l 0 (free_list_head a)"

definition start_dealloc :: "FreeListAllocator \<Rightarrow> usize \<Rightarrow> Layout \<Rightarrow> fl_pc" where
  "start_dealloc a p l = (if p = 0 then Freed else Freeing p l (free_list_head a))"

text \<open>The threads that call it. \<open>owned\<close>: the blocks that a call of \<^verbatim>\<open>alloc\<close> has returned and that have not
  been passed to \<^verbatim>\<open>dealloc\<close> since. A thread frees, and writes, only such blocks.\<close>

record fl_world =
  heap :: FreeListAllocator
  owned :: "allocation list"

inductive racing :: "bool \<Rightarrow> (fl_world, fl_pc) thread_step" for ck where
  call_alloc: "layout_ok l \<Longrightarrow> racing ck t g Idle g (start_alloc (heap g) l)"
| call_dealloc: "(p, l) \<in> set (owned g) \<Longrightarrow>
    racing ck t g Idle (g\<lparr>owned := remove1 (p, l) (owned g)\<rparr>) (start_dealloc (heap g) p l)"
| use_block: "x \<in> set (owned g) \<Longrightarrow> q \<in> words_of (live_block x) \<Longrightarrow> 8 dvd unat q \<Longrightarrow>
    racing ck t g Idle (g\<lparr>heap := (heap g)\<lparr>heap_words := (heap_words (heap g))(q := v)\<rparr>\<rparr>) Idle"
| inside: "fl_step ck (heap g, pc) (a', pc') \<Longrightarrow> racing ck t g pc (g\<lparr>heap := a'\<rparr>) pc'"
| return_block: "racing ck t g (Got l p)
    (if p = 0 then g else g\<lparr>owned := (p, l) # owned g\<rparr>) Idle"
| return_freed: "racing ck t g Freed g Idle"

abbreviation quiet :: "FreeListAllocator \<Rightarrow> allocation list \<Rightarrow> (fl_world, fl_pc) pool" where
  "quiet a live \<equiv> \<lparr>shared = \<lparr>heap = a, owned = live\<rparr>, locals = (\<lambda>_. Idle)\<rparr>"

text \<open>Steps of calls that do not overlap: nobody moves while another thread is in a call.\<close>

inductive serial_step :: "bool \<Rightarrow> (fl_world, fl_pc) pool \<Rightarrow> (fl_world, fl_pc) pool \<Rightarrow> bool" for ck where
  serial: "\<forall>u. u \<noteq> t \<longrightarrow> locals s u = Idle \<Longrightarrow> racing ck t (shared s) (locals s t) g' pc' \<Longrightarrow>
    serial_step ck s \<lparr>shared = g', locals = (locals s)(t := pc')\<rparr>"

section \<open>A call that runs alone\<close>

text \<open>What is known of a call of \<^verbatim>\<open>alloc\<close> on \<open>a0\<close> at each of its points.\<close>

fun on_the_way :: "bool \<Rightarrow> FreeListAllocator \<Rightarrow> Layout \<Rightarrow> FreeListAllocator \<times> fl_pc \<Rightarrow> bool" where
  "on_the_way ck a0 l (a, Walk k prev cur) \<longleftrightarrow> a = a0 \<and> k = l \<and>
     find_fit (heap_words a) (block_size l) (block_align l) 0 (free_list_head a) =
     find_fit (heap_words a) (block_size l) (block_align l) prev cur"
| "on_the_way ck a0 l (a, Pass k cur) \<longleftrightarrow> a = a0 \<and> k = l \<and>
     find_fit (heap_words a) (block_size l) (block_align l) 0 (free_list_head a) =
     find_fit (heap_words a) (block_size l) (block_align l) cur (fb_next (heap_words a) cur)"
| "on_the_way ck a0 l (a, Found k prev cur) \<longleftrightarrow> a = a0 \<and> k = l \<and>
     alloc ck a0 l = Inr (cur, unlink prev cur a0)"
| "on_the_way ck a0 l (a, Unlink k prev cur nxt) \<longleftrightarrow> a = a0 \<and> k = l \<and>
     alloc ck a0 l = Inr (cur, unlink prev cur a0) \<and> nxt = fb_next (heap_words a) cur"
| "on_the_way ck a0 l (a, Bump k n) \<longleftrightarrow> a = a0 \<and> k = l \<and> n = bump_next a0 \<and>
     alloc ck a0 l = bump_alloc ck a0 (block_size l) (block_align l)"
| "on_the_way ck a0 l (a, Got k p) \<longleftrightarrow> k = l \<and> alloc ck a0 l = Inr (p, a)"
| "on_the_way ck a0 l (a, Panicked e) \<longleftrightarrow> a = a0 \<and> alloc ck a0 l = Inl e"
| "on_the_way ck a0 l s \<longleftrightarrow> False"

lemma bump_round_alone:
  "on_the_way ck a l (a, Bump l (bump_next a)) \<Longrightarrow> on_the_way ck a l (bump_round ck a l (bump_next a))"
  by (auto simp: bump_round_def bump_alloc_def compare_exchange_def split: sum.split option.split)

lemma on_the_way_step: "fl_step ck s s' \<Longrightarrow> on_the_way ck a0 l s \<Longrightarrow> on_the_way ck a0 l s'"
proof (induction rule: fl_step.induct)
  case (fit cur a k prev)
  then show ?case
    using find_fit.simps [of "heap_words a" "block_size k" "block_align k" prev cur] by (auto simp: alloc_def)
next
  case (misfit cur a k prev)
  then show ?case
    using find_fit.simps [of "heap_words a" "block_size k" "block_align k" prev cur] by auto
next
  case (list_end a k prev)
  then show ?case
    using find_fit.simps [of "heap_words a" "block_size k" "block_align k" prev 0] by (auto simp: alloc_def)
next
  case (new_head a k cur nxt)
  then show ?case by (simp add: unlink_def Let_def)
next
  case (bypass prev a k cur nxt)
  then show ?case by (simp add: unlink_def Let_def)
next
  case (bump a k n)
  then show ?case using bump_round_alone [of ck a l] by simp
qed simp_all

lemma on_the_way_start: "on_the_way ck a l (a, start_alloc a l)"
  by (simp add: start_alloc_def)

text \<open>When the traversal ends, the steps get there.\<close>

lemma find_fit_steps:
  assumes "find_fit (heap_words a) (block_size l) (block_align l) prev cur = Some r"
  shows "(fl_step ck)\<^sup>*\<^sup>* (a, Walk l prev cur)
    (a, case r of None \<Rightarrow> Bump l (bump_next a) | Some (p, c) \<Rightarrow> Found l p c)"
proof -
  let ?goal = "\<lambda>r. (a, case r of None \<Rightarrow> Bump l (bump_next a) | Some (p, c) \<Rightarrow> Found l p c)"
  let ?P = "\<lambda>m sz al prev cur r. m = heap_words a \<longrightarrow> sz = block_size l \<longrightarrow> al = block_align l \<longrightarrow>
    (fl_step ck)\<^sup>*\<^sup>* (a, Walk l prev cur) (?goal r)"
  have "?P (heap_words a) (block_size l) (block_align l) prev cur r"
  proof (rule find_fit.raw_induct [where P = ?P, OF _ assms], intro impI)
    fix ff m sz al prev cur r
    assume IH: "\<And>m sz al prev cur r. ff m sz al prev cur = Some r \<Longrightarrow> ?P m sz al prev cur r"
      and r: "(if cur = 0 then Some None else if fits m sz al cur then Some (Some (prev, cur))
        else ff m sz al cur (fb_next m cur)) = Some r"
      and eq: "m = heap_words a" "sz = block_size l" "al = block_align l"
    show "(fl_step ck)\<^sup>*\<^sup>* (a, Walk l prev cur) (?goal r)"
    proof (cases "cur = 0 \<or> fits m sz al cur")
      case True
      then show ?thesis using r eq fl_step.list_end [of ck a l prev] fl_step.fit [of cur a l ck prev]
        by (auto split: if_splits)
    next
      case False
      then have rest: "(fl_step ck)\<^sup>*\<^sup>* (a, Walk l cur (fb_next m cur)) (?goal r)"
        using IH r eq by simp
      have "fl_step ck (a, Walk l prev cur) (a, Pass l cur)"
        using False eq by (intro fl_step.misfit) auto
      moreover have "fl_step ck (a, Pass l cur) (a, Walk l cur (fb_next m cur))"
        using fl_step.advance [of ck a l cur] eq(1) by simp
      ultimately show ?thesis using rest by (meson converse_rtranclp_into_rtranclp)
    qed
  qed
  then show ?thesis by simp
qed

lemma unlink_step: "fl_step ck (a, Unlink l prev cur (fb_next (heap_words a) cur)) (unlink prev cur a, Got l cur)"
  using fl_step.new_head [of ck a l cur] fl_step.bypass [of prev ck a l cur]
  by (cases "prev = 0") (auto simp: unlink_def Let_def)

lemma found_steps: "(fl_step ck)\<^sup>*\<^sup>* (a, Found l prev cur) (unlink prev cur a, Got l cur)"
  using fl_step.read_next [of ck a l prev cur] unlink_step
  by (meson converse_rtranclp_into_rtranclp r_into_rtranclp)

lemma bump_step:
  assumes "bump_alloc ck a (block_size l) (block_align l) = Inr (p, a')"
  shows "fl_step ck (a, Bump l (bump_next a)) (a', Got l p)"
proof -
  have "bump_round ck a l (bump_next a) = (a', Got l p)"
    using assms
    by (auto simp: bump_round_def bump_alloc_def bind_res_Inr_iff compare_exchange_def split: option.splits if_splits)
  then show ?thesis using fl_step.bump [of ck a l "bump_next a"] by simp
qed

text \<open>From wherever it is, a call of \<^verbatim>\<open>alloc\<close> that runs alone gets to its result.\<close>

lemma alloc_gets_there:
  assumes "on_the_way ck a0 l (a, pc)" "alloc ck a0 l = Inr (p, a')"
  shows "(fl_step ck)\<^sup>*\<^sup>* (a, pc) (a', Got l p)"
proof -
  let ?find = "find_fit (heap_words a0) (block_size l) (block_align l)"
  have walk: "(fl_step ck)\<^sup>*\<^sup>* (a0, Walk l prev cur) (a', Got l p)"
    if "?find 0 (free_list_head a0) = ?find prev cur" for prev cur
  proof -
    obtain r where r: "?find 0 (free_list_head a0) = Some r"
      using assms(2) by (cases "?find 0 (free_list_head a0)") (auto simp: alloc_def)
    have steps: "(fl_step ck)\<^sup>*\<^sup>* (a0, Walk l prev cur)
        (a0, case r of None \<Rightarrow> Bump l (bump_next a0) | Some (p, c) \<Rightarrow> Found l p c)"
      using find_fit_steps r that by simp
    have "(fl_step ck)\<^sup>*\<^sup>* (a0, case r of None \<Rightarrow> Bump l (bump_next a0) | Some (p, c) \<Rightarrow> Found l p c) (a', Got l p)"
      using assms(2) r found_steps [of ck a0 l] bump_step [of ck a0 l p a']
      by (auto simp: alloc_def split: option.split)
    with steps show ?thesis by (rule rtranclp_trans)
  qed
  show ?thesis
  proof (cases pc)
    case (Pass k cur)
    then show ?thesis using assms(1) walk fl_step.advance [of ck a l cur]
      by (auto intro: converse_rtranclp_into_rtranclp)
  next
    case (Found k prev cur)
    then show ?thesis using assms found_steps [of ck a l prev cur] by simp
  next
    case (Unlink k prev cur nxt)
    then show ?thesis using assms unlink_step [of ck a l prev cur] by auto
  next
    case (Bump k n)
    then show ?thesis using assms bump_step [of ck a l p a'] by auto
  qed (use assms walk in auto)
qed

text \<open>The same for \<^verbatim>\<open>dealloc\<close>.\<close>

fun free_way :: "FreeListAllocator \<Rightarrow> usize \<Rightarrow> Layout \<Rightarrow> FreeListAllocator \<times> fl_pc \<Rightarrow> bool" where
  "free_way a0 p l (a, Freeing q k h) \<longleftrightarrow> a = a0 \<and> q = p \<and> k = l \<and> h = free_list_head a0"
| "free_way a0 p l (a, Write_next q h) \<longleftrightarrow>
     a = a0\<lparr>heap_words := (heap_words a0)(p := block_size l)\<rparr> \<and> q = p \<and> h = free_list_head a0"
| "free_way a0 p l (a, Write_size q k) \<longleftrightarrow>
     a = a0\<lparr>heap_words := (heap_words a0)(p + 8 := free_list_head a0)\<rparr> \<and> q = p \<and> k = l"
| "free_way a0 p l (a, Linking q) \<longleftrightarrow>
     a = a0\<lparr>heap_words := (heap_words a0)(p := block_size l, p + 8 := free_list_head a0)\<rparr> \<and> q = p"
| "free_way a0 p l (a, Freed) \<longleftrightarrow> dealloc a0 p l = Inr a"
| "free_way a0 p l s \<longleftrightarrow> False"

lemma free_way_step: "fl_step ck s s' \<Longrightarrow> p \<noteq> 0 \<Longrightarrow> free_way a0 p l s \<Longrightarrow> free_way a0 p l s'"
  by (induction rule: fl_step.induct) (auto simp: dealloc_def fun_upd_twist)

lemma free_way_start: "free_way a p l (a, start_dealloc a p l)"
  by (simp add: start_dealloc_def dealloc_def)

lemma dealloc_gets_there:
  assumes "free_way a0 p l (a, pc)" "p \<noteq> 0" "dealloc a0 p l = Inr a'"
  shows "(fl_step ck)\<^sup>*\<^sup>* (a, pc) (a', Freed)"
proof -
  let ?run = "(fl_step ck)\<^sup>*\<^sup>*"
  let ?a1 = "a0\<lparr>heap_words := (heap_words a0)(p := block_size l, p + 8 := free_list_head a0)\<rparr>"
  have link: "?run (?a1, Linking p) (a', Freed)"
    using fl_step.link [of ck ?a1 p] assms(2,3) by (auto simp: dealloc_def)
  have size_next: "?run (a0\<lparr>heap_words := (heap_words a0)(p := block_size l)\<rparr>, Write_next p (free_list_head a0)) (a', Freed)"
    using fl_step.then_next [of ck "a0\<lparr>heap_words := (heap_words a0)(p := block_size l)\<rparr>" p "free_list_head a0"] link
    by (auto intro: converse_rtranclp_into_rtranclp)
  have next_size: "?run (a0\<lparr>heap_words := (heap_words a0)(p + 8 := free_list_head a0)\<rparr>, Write_size p l) (a', Freed)"
    using fl_step.then_size [of ck "a0\<lparr>heap_words := (heap_words a0)(p + 8 := free_list_head a0)\<rparr>" p l] link
    by (auto simp: fun_upd_twist intro: converse_rtranclp_into_rtranclp)
  have "?run (a0, Freeing p l (free_list_head a0)) (a', Freed)"
    using fl_step.size_first [of ck a0 p l "free_list_head a0"] size_next
    by (auto intro: converse_rtranclp_into_rtranclp)
  then show ?thesis using assms link size_next next_size by (cases pc) auto
qed

section \<open>Calls that do not overlap\<close>

text \<open>Between calls the state is one of theory FreeListAllocator; in a call, its thread is on its way from
  there.\<close>

inductive serial_at :: "bool \<Rightarrow> usize \<Rightarrow> usize \<Rightarrow> fl_world \<Rightarrow> fl_pc \<Rightarrow> bool" for ck s e where
  between: "fl_run ck s e a live \<Longrightarrow> serial_at ck s e \<lparr>heap = a, owned = live\<rparr> Idle"
| in_alloc: "fl_run ck s e a live \<Longrightarrow> layout_ok l \<Longrightarrow> on_the_way ck a l (b, pc) \<Longrightarrow>
    serial_at ck s e \<lparr>heap = b, owned = live\<rparr> pc"
| in_dealloc: "fl_run ck s e a live \<Longrightarrow> (p, l) \<in> set live \<Longrightarrow> free_way a p l (b, pc) \<Longrightarrow>
    serial_at ck s e \<lparr>heap = b, owned = remove1 (p, l) live\<rparr> pc"

lemma serial_at_Idle: "serial_at ck s e g Idle \<Longrightarrow> fl_run ck s e (heap g) (owned g)"
  by (cases rule: serial_at.cases) auto

lemma live_nonzero:
  assumes "fl_run ck s e a live" "0 < s" "s \<le> e" "unat e < 2 ^ 63" "(p, l) \<in> set live"
  shows "p \<noteq> 0"
proof -
  obtain fs where fs: "fl_with a fs live" using fl_run_inv [OF assms(1-4)] by (auto simp: fl_inv_def)
  from live_slot [OF fs assms(5)] fs show ?thesis by (auto simp: slot_def live_block_def fl_with_def fl_heap_def)
qed

lemma idle_step:
  assumes "fl_run ck s e a live" "racing ck t \<lparr>heap = a, owned = live\<rparr> Idle g' pc'"
  shows "serial_at ck s e g' pc'"
  using assms(2)
proof (cases rule: racing.cases)
  case (call_alloc l)
  then show ?thesis using serial_at.in_alloc [OF assms(1) call_alloc(3) on_the_way_start] by simp
next
  case (call_dealloc p l)
  then have "(p, l) \<in> set live" by simp
  from serial_at.in_dealloc [OF assms(1) this free_way_start] call_dealloc show ?thesis by simp
next
  case (use_block x q v)
  then have "x \<in> set live" by simp
  from serial_at.between [OF fl_run.user [OF assms(1) this use_block(4,5)]] use_block show ?thesis by simp
qed (auto simp: fl_step.simps)

lemma serial_at_step:
  assumes "serial_at ck s e g pc" "racing ck t g pc g' pc'" "0 < s" "s \<le> e" "unat e < 2 ^ 63"
  shows "serial_at ck s e g' pc'"
  using assms(1)
proof (cases rule: serial_at.cases)
  case (between a live)
  then show ?thesis using idle_step assms(2) by blast
next
  case (in_alloc a live l b)
  from assms(2) show ?thesis
  proof (cases rule: racing.cases)
    case (inside a' )
    then show ?thesis using serial_at.in_alloc [OF in_alloc(2,3) on_the_way_step] in_alloc by auto
  next
    case (return_block k p)
    then have "k = l" "alloc ck a l = Inr (p, b)" using in_alloc by simp_all
    from serial_at.between [OF fl_run.alloc [OF in_alloc(2,3) this(2)]] show ?thesis
      using return_block in_alloc \<open>k = l\<close> by (cases "p = 0") simp_all
  qed (use in_alloc in auto)
next
  case (in_dealloc a live p l b)
  have "p \<noteq> 0" by (rule live_nonzero [OF in_dealloc(2) assms(3-5) in_dealloc(3)])
  note way = free_way_step [OF _ this in_dealloc(4)]
  from assms(2) show ?thesis
  proof (cases rule: racing.cases)
    case (inside a')
    then show ?thesis using serial_at.in_dealloc [OF in_dealloc(2,3) way] in_dealloc by auto
  next
    case return_freed
    then have "dealloc a p l = Inr b" using in_dealloc by simp
    from serial_at.between [OF fl_run.free [OF in_dealloc(2,3) this]] show ?thesis
      using return_freed in_dealloc by simp
  qed (use in_dealloc in auto)
qed

lemma serial_at_sound:
  assumes "serial_at ck s e g pc" "0 < s" "s \<le> e" "unat e < 2 ^ 63"
  shows "sound s e (owned g) \<and> pc \<noteq> Panicked x"
  using assms(1)
proof (cases rule: serial_at.cases)
  case (between a live)
  then show ?thesis using fl_run_inv [OF between(3) assms(2-4)] fl_sound [of a live] by auto
next
  case (in_alloc a live l b)
  note inv = fl_run_inv [OF in_alloc(2) assms(2-4)]
  obtain p a' where "alloc ck a l = Inr (p, a')" using fl.alloc [of a live l ck] inv in_alloc(3) by blast
  then have "pc \<noteq> Panicked x" using in_alloc(4) by auto
  then show ?thesis using inv fl_sound [of a live] in_alloc(1) by auto
next
  case (in_dealloc a live p l b)
  obtain a' where a': "dealloc a p l = Inr a'" by (simp add: dealloc_def)
  note inv = fl_run_inv [OF fl_run.free [OF in_dealloc(2,3) a'] assms(2-4)]
  then show ?thesis using fl_sound [of a' "remove1 (p, l) live"] in_dealloc(1,4) by auto
qed

text \<open>The call that is going on gets to its end.\<close>

lemma inside_steps:
  "(fl_step ck)\<^sup>*\<^sup>* x y \<Longrightarrow> \<forall>u. u \<noteq> t \<longrightarrow> ls u = Idle \<Longrightarrow>
   (serial_step ck)\<^sup>*\<^sup>* \<lparr>shared = g\<lparr>heap := fst x\<rparr>, locals = ls(t := snd x)\<rparr>
     \<lparr>shared = g\<lparr>heap := fst y\<rparr>, locals = ls(t := snd y)\<rparr>"
proof (induction rule: rtranclp_induct)
  case (step y z)
  let ?s = "\<lparr>shared = g\<lparr>heap := fst y\<rparr>, locals = ls(t := snd y)\<rparr>"
  have "racing ck t (shared ?s) (locals ?s t) (g\<lparr>heap := fst z\<rparr>) (snd z)"
    using racing.inside [of ck "g\<lparr>heap := fst y\<rparr>" "snd y" "fst z" "snd z" t] step.hyps(2) by simp
  moreover have "\<forall>u. u \<noteq> t \<longrightarrow> locals ?s u = Idle" using step.prems by simp
  ultimately have "serial_step ck ?s \<lparr>shared = g\<lparr>heap := fst z\<rparr>, locals = ls(t := snd z)\<rparr>"
    using serial_step.serial [of t ?s ck] by fastforce
  with step.IH [OF step.prems] show ?case by (rule rtranclp.rtrancl_into_rtrancl)
qed simp

lemma serial_at_finishes:
  assumes "serial_at ck s e g pc" "0 < s" "s \<le> e" "unat e < 2 ^ 63" "\<forall>u. u \<noteq> t \<longrightarrow> ls u = Idle"
  shows "\<exists>g'. (serial_step ck)\<^sup>*\<^sup>* \<lparr>shared = g, locals = ls(t := pc)\<rparr> \<lparr>shared = g', locals = ls(t := Idle)\<rparr>"
proof -
  have returns: "serial_step ck \<lparr>shared = h, locals = ls(t := q)\<rparr> \<lparr>shared = h', locals = ls(t := Idle)\<rparr>"
    if "racing ck t h q h' Idle" for h q h'
    using serial_step.serial [of t "\<lparr>shared = h, locals = ls(t := q)\<rparr>" ck h' Idle] that assms(5) by fastforce
  show ?thesis
    using assms(1)
  proof (cases rule: serial_at.cases)
    case (in_alloc a live l b)
    obtain p a' where "alloc ck a l = Inr (p, a')"
      using fl.alloc [of a live l ck] fl_run_inv [OF in_alloc(2) assms(2-4)] in_alloc(3) by blast
    from inside_steps [OF alloc_gets_there [OF in_alloc(4) this] assms(5), of g]
    have "(serial_step ck)\<^sup>*\<^sup>* \<lparr>shared = g, locals = ls(t := pc)\<rparr>
        \<lparr>shared = g\<lparr>heap := a'\<rparr>, locals = ls(t := Got l p)\<rparr>"
      using in_alloc(1) by simp
    from rtranclp.rtrancl_into_rtrancl [OF this returns [OF racing.return_block]] show ?thesis by blast
  next
    case (in_dealloc a live p l b)
    have "p \<noteq> 0" by (rule live_nonzero [OF in_dealloc(2) assms(2-4) in_dealloc(3)])
    moreover obtain a' where "dealloc a p l = Inr a'" by (simp add: dealloc_def)
    ultimately have "(fl_step ck)\<^sup>*\<^sup>* (b, pc) (a', Freed)" by (rule dealloc_gets_there [OF in_dealloc(4)])
    from inside_steps [OF this assms(5), of g]
    have "(serial_step ck)\<^sup>*\<^sup>* \<lparr>shared = g, locals = ls(t := pc)\<rparr>
        \<lparr>shared = g\<lparr>heap := a'\<rparr>, locals = ls(t := Freed)\<rparr>"
      using in_dealloc(1) by simp
    from rtranclp.rtrancl_into_rtrancl [OF this returns [OF racing.return_freed]] show ?thesis by blast
  qed auto
qed

lemma serial_inv:
  assumes "(serial_step ck)\<^sup>*\<^sup>* (quiet (new s e m) []) S" "0 < s" "s \<le> e" "unat e < 2 ^ 63"
  shows "\<exists>t. (\<forall>u. u \<noteq> t \<longrightarrow> locals S u = Idle) \<and> serial_at ck s e (shared S) (locals S t)"
  using assms(1)
proof (induction rule: rtranclp_induct)
  case base
  show ?case using serial_at.between [OF fl_run.start [of ck s e m]] by simp
next
  case (step S S')
  then obtain t where t: "\<forall>u. u \<noteq> t \<longrightarrow> locals S u = Idle" "serial_at ck s e (shared S) (locals S t)" by blast
  from step.hyps(2) show ?case
  proof cases
    case (serial u g' pc')
    have "serial_at ck s e (shared S) (locals S u)" using t serial(2) by (cases "u = t") auto
    from serial_at_step [OF this serial(3) assms(2-4)] serial(1,2) show ?thesis by (intro exI [of _ u]) simp
  qed
qed

text \<open>A run of whole operations is such a run.\<close>

lemma idle_upd [simp]: "(\<lambda>_. Idle)(t := Idle) = (\<lambda>_. Idle)"
  by auto

lemma serial_stepI:
  "racing ck t g pc g' pc' \<Longrightarrow>
   serial_step ck \<lparr>shared = g, locals = (\<lambda>_. Idle)(t := pc)\<rparr> \<lparr>shared = g', locals = (\<lambda>_. Idle)(t := pc')\<rparr>"
  using serial_step.serial [of t "\<lparr>shared = g, locals = (\<lambda>_. Idle)(t := pc)\<rparr>" ck g' pc'] by simp

lemma serial_call:
  assumes "racing ck t \<lparr>heap = a, owned = live\<rparr> Idle \<lparr>heap = a, owned = l1\<rparr> pc"
    and "(fl_step ck)\<^sup>*\<^sup>* (a, pc) (a', pc')"
    and "racing ck t \<lparr>heap = a', owned = l1\<rparr> pc' \<lparr>heap = a', owned = l2\<rparr> Idle"
  shows "(serial_step ck)\<^sup>*\<^sup>* (quiet a live) (quiet a' l2)"
proof -
  let ?ls = "\<lambda>_ :: nat. Idle"
  have "serial_step ck (quiet a live) \<lparr>shared = \<lparr>heap = a, owned = l1\<rparr>, locals = ?ls(t := pc)\<rparr>"
    using serial_stepI [OF assms(1)] by simp
  moreover have "(serial_step ck)\<^sup>*\<^sup>* \<lparr>shared = \<lparr>heap = a, owned = l1\<rparr>, locals = ?ls(t := pc)\<rparr>
      \<lparr>shared = \<lparr>heap = a', owned = l1\<rparr>, locals = ?ls(t := pc')\<rparr>"
    using inside_steps [OF assms(2), of t ?ls "\<lparr>heap = a, owned = l1\<rparr>"] by simp
  moreover have "serial_step ck \<lparr>shared = \<lparr>heap = a', owned = l1\<rparr>, locals = ?ls(t := pc')\<rparr> (quiet a' l2)"
    using serial_stepI [OF assms(3)] by simp
  ultimately show ?thesis by (meson converse_rtranclp_into_rtranclp rtranclp.rtrancl_into_rtrancl)
qed

lemma serial_alloc:
  assumes "layout_ok l" "alloc ck a l = Inr (p, a')"
  shows "(serial_step ck)\<^sup>*\<^sup>* (quiet a live) (quiet a' (if p = 0 then live else (p, l) # live))"
  using racing.call_alloc [OF assms(1), of ck 0 "\<lparr>heap = a, owned = live\<rparr>"]
    racing.return_block [of ck 0 "\<lparr>heap = a', owned = live\<rparr>" l p]
  by (intro serial_call [OF _ alloc_gets_there [OF on_the_way_start assms(2)]]) auto

lemma serial_dealloc:
  assumes "(p, l) \<in> set live" "p \<noteq> 0" "dealloc a p l = Inr a'"
  shows "(serial_step ck)\<^sup>*\<^sup>* (quiet a live) (quiet a' (remove1 (p, l) live))"
  using racing.call_dealloc [of p l "\<lparr>heap = a, owned = live\<rparr>" ck 0] assms(1)
    racing.return_freed [of ck 0 "\<lparr>heap = a', owned = remove1 (p, l) live\<rparr>"]
  by (intro serial_call [OF _ dealloc_gets_there [OF free_way_start assms(2,3)]]) auto

lemma fl_run_serial:
  assumes "fl_run ck s e a live" "0 < s" "s \<le> e" "unat e < 2 ^ 63"
  shows "\<exists>m. (serial_step ck)\<^sup>*\<^sup>* (quiet (new s e m) []) (quiet a live)"
  using assms(1)
proof induction
  case (start m)
  show ?case by blast
next
  case (alloc a live l p a')
  then show ?case using serial_alloc [of l ck a p a' live] by (meson rtranclp_trans)
next
  case (free a live p l a')
  then show ?case using serial_dealloc [of p l live a a' ck] live_nonzero [OF free(1) assms(2-4) free(2)]
    by (meson rtranclp_trans)
next
  case (user a live x q v)
  have "serial_step ck (quiet a live) (quiet (a\<lparr>heap_words := (heap_words a)(q := v)\<rparr>) live)"
    using serial_stepI [OF racing.use_block [of x "\<lparr>heap = a, owned = live\<rparr>" q ck 0 v]] user(2-4) by simp
  with user(5) show ?case by (meson rtranclp.rtrancl_into_rtrancl)
qed

text \<open>C11: As long as calls do not overlap, the memory accesses of \<^verbatim>\<open>alloc\<close> and \<^verbatim>\<open>dealloc\<close> keep the heap sound
  at every point, also in the middle of a call and with clients that write all over their blocks: the
  blocks that clients own are aligned, in the heap and apart from each other, no call panics, and every
  call gets to its end.\<close>

theorem free_list_serial_sound:
  assumes "(serial_step ck)\<^sup>*\<^sup>* (quiet (new s e m) []) S" "0 < s" "s \<le> e" "unat e < 2 ^ 63"
  shows "sound s e (owned (shared S)) \<and> locals S t \<noteq> Panicked x \<and>
    (\<exists>b live. (serial_step ck)\<^sup>*\<^sup>* S (quiet b live))"
proof -
  obtain u where u: "\<forall>v. v \<noteq> u \<longrightarrow> locals S v = Idle" "serial_at ck s e (shared S) (locals S u)"
    using serial_inv [OF assms] by blast
  note sound = serial_at_sound [OF u(2) assms(2-4)]
  have idle: "(locals S)(u := Idle) = (\<lambda>_. Idle)" using u(1) by (auto simp: fun_eq_iff)
  have S: "\<lparr>shared = shared S, locals = (locals S)(u := locals S u)\<rparr> = S" by simp
  from serial_at_finishes [OF u(2) assms(2-4) u(1), unfolded idle S]
  obtain g where "(serial_step ck)\<^sup>*\<^sup>* S \<lparr>shared = g, locals = \<lambda>_. Idle\<rparr>" by blast
  moreover obtain b live where "g = \<lparr>heap = b, owned = live\<rparr>" by (cases g)
  moreover have "locals S t \<noteq> Panicked x" using sound u(1) by (cases "t = u") auto
  ultimately show ?thesis using sound by blast
qed

theorem free_list_serial_sound_witness:
  "\<exists>m l. (serial_step True)\<^sup>*\<^sup>* (quiet (new 0x1000 0x2000 m) []) (quiet one_free []) \<and>
    (serial_step True)\<^sup>*\<^sup>* (quiet (new 0x1000 0x2000 m) [])
      (quiet (one_free\<lparr>free_list := 0\<rparr>) [(0x1000, l)]) \<and> sound 0x1000 0x2000 [(0x1000, l)]"
proof -
  let ?l = "\<lparr>size = 32, align = 1\<rparr>"
  obtain m where m: "(serial_step True)\<^sup>*\<^sup>* (quiet (new 0x1000 0x2000 m) []) (quiet one_free [])"
    using fl_run_serial [OF one_free_run] by auto
  have "alloc True one_free ?l = Inr (0x1000, one_free\<lparr>free_list := 0\<rparr>)"
    by (simp add: one_free_def alloc_def find_fit.simps free_list_head_def fits_def fb_size_def fb_next_def
        block_size_def block_align_def max_def unlink_def set_free_list_head_def)
  from serial_alloc [OF layout_32 this, of "[]"] m have run:
    "(serial_step True)\<^sup>*\<^sup>* (quiet (new 0x1000 0x2000 m) []) (quiet (one_free\<lparr>free_list := 0\<rparr>) [(0x1000, ?l)])"
    by simp
  have "sound 0x1000 0x2000 [(0x1000, ?l)]"
    using free_list_serial_sound [OF run, THEN conjunct1] by simp
  with m run show ?thesis by blast
qed

section \<open>Calls that overlap\<close>

text \<open>C10: After any calls that do not overlap, whenever the free list is not empty: two threads that ask for
  a block, and both read the head before one of them has taken its block, are both given that block,
  although every access of the head is made in one step. Then both own it, nothing has been freed, and
  the heap is not sound, which it always is when calls do not overlap.\<close>

theorem free_list_double_allocation:
  assumes "(serial_step ck)\<^sup>*\<^sup>* (quiet (new s e m) []) (quiet a live)" "0 < s" "s \<le> e" "unat e < 2 ^ 63"
    and "free_list a \<noteq> 0" "layout_ok l" "fits (heap_words a) (block_size l) (block_align l) (free_list a)"
  shows "sound s e live \<and>
    (\<exists>a'. reachable (racing ck) (quiet a live) (quiet a' ((free_list a, l) # (free_list a, l) # live))) \<and>
    \<not> sound s e ((free_list a, l) # (free_list a, l) # live)"
proof (intro conjI)
  show "sound s e live" using serial_inv [OF assms(1-4)] serial_at_sound [OF _ assms(2-4)] by fastforce
  let ?p = "free_list a" and ?n = "fb_next (heap_words a) (free_list a)"
  let ?a = "set_free_list_head ?n a" and ?w = "\<lambda>a live. \<lparr>heap = a, owned = live\<rparr>"
  let ?xs = "[(1, ?w a live, start_alloc a l), (2, ?w a live, start_alloc a l),
    (1, ?w a live, Found l 0 ?p), (1, ?w a live, Unlink l 0 ?p ?n), (1, ?w ?a live, Got l ?p),
    (2, ?w ?a live, Found l 0 ?p), (2, ?w ?a live, Unlink l 0 ?p ?n), (2, ?w ?a live, Got l ?p),
    (1, ?w ?a ((?p, l) # live), Idle), (2, ?w ?a ((?p, l) # (?p, l) # live), Idle)] :: (nat \<times> _ \<times> _) list"
  have "legal (racing ck) (quiet a live) ?xs"
    using assms(5-7) by (simp add: racing.simps fl_step.simps start_alloc_def free_list_head_def set_free_list_head_def)
  from legal_reachable [OF reachable.start this]
  have "reachable (racing ck) (quiet a live) (quiet ?a ((?p, l) # (?p, l) # live))" by simp
  then show "\<exists>a'. reachable (racing ck) (quiet a live) (quiet a' ((?p, l) # (?p, l) # live))" by blast
  show "\<not> sound s e ((?p, l) # (?p, l) # live)"
    using assms(6) by (simp add: sound_def apart_def block_of_def layout_ok_def)
qed

theorem free_list_double_allocation_witness:
  "\<exists>m a a' l. (serial_step True)\<^sup>*\<^sup>* (quiet (new 0x1000 0x2000 m) []) (quiet a []) \<and>
     reachable (racing True) (quiet a []) (quiet a' [(0x1000, l), (0x1000, l)])"
proof -
  let ?l = "\<lparr>size = 32, align = 1\<rparr>"
  obtain m where m: "(serial_step True)\<^sup>*\<^sup>* (quiet (new 0x1000 0x2000 m) []) (quiet one_free [])"
    using fl_run_serial [OF one_free_run] by auto
  have p: "free_list one_free = 0x1000" by (simp add: one_free_def)
  moreover have "fits (heap_words one_free) (block_size ?l) (block_align ?l) (free_list one_free)"
    by (simp add: one_free_def fits_def fb_size_def block_size_def block_align_def max_def)
  ultimately obtain a' where "reachable (racing True) (quiet one_free []) (quiet a' [(0x1000, ?l), (0x1000, ?l)])"
    using free_list_double_allocation [OF m _ _ _ _ layout_32] by auto
  with m show ?thesis by blast
qed

text \<open>Two threads that free blocks and both read the head before one of them has set it leave the first
  block outside of the list: it is neither live nor free any more.\<close>

theorem free_list_lost_block:
  assumes "p \<noteq> 0" "q \<noteq> 0" "p + 8 \<noteq> q" "q + 8 \<noteq> p" "p \<noteq> q" "(p, l) \<in> set live" "(q, k) \<in> set live"
  shows "\<exists>a'. reachable (racing ck) (quiet a live) (quiet a' (remove1 (q, k) (remove1 (p, l) live))) \<and>
    free_list a' = q \<and> fb_next (heap_words a') q = free_list a \<and> fb_next (heap_words a') p = free_list a"
proof -
  let ?h = "free_list a" and ?m = "heap_words a"
  let ?a1 = "a\<lparr>heap_words := ?m(p := block_size l)\<rparr>"
  let ?a2 = "a\<lparr>heap_words := ?m(p := block_size l, p + 8 := ?h)\<rparr>"
  let ?a3 = "a\<lparr>heap_words := ?m(p := block_size l, p + 8 := ?h, q := block_size k)\<rparr>"
  let ?a4 = "a\<lparr>heap_words := ?m(p := block_size l, p + 8 := ?h, q := block_size k, q + 8 := ?h)\<rparr>"
  let ?l1 = "remove1 (p, l) live" and ?l2 = "remove1 (q, k) (remove1 (p, l) live)"
  let ?w = "\<lambda>a live. \<lparr>heap = a, owned = live\<rparr>"
  let ?xs = "[(1, ?w a ?l1, start_dealloc a p l), (2, ?w a ?l2, start_dealloc a q k),
    (1, ?w ?a1 ?l2, Write_next p ?h), (1, ?w ?a2 ?l2, Linking p),
    (2, ?w ?a3 ?l2, Write_next q ?h), (2, ?w ?a4 ?l2, Linking q),
    (1, ?w (set_free_list_head p ?a4) ?l2, Freed), (2, ?w (set_free_list_head q ?a4) ?l2, Freed),
    (1, ?w (set_free_list_head q ?a4) ?l2, Idle), (2, ?w (set_free_list_head q ?a4) ?l2, Idle)] :: (nat \<times> _ \<times> _) list"
  have "(q, k) \<in> set ?l1" using assms(5,7) by auto
  then have calls: "racing ck 1 (?w a live) Idle (?w a ?l1) (start_dealloc a p l)"
    "racing ck 2 (?w a ?l1) Idle (?w a ?l2) (start_dealloc a q k)"
    using racing.call_dealloc [of p l "?w a live" ck 1] racing.call_dealloc [of q k "?w a ?l1" ck 2] assms(6)
    by simp_all
  have inside: "racing ck t (?w b ?l2) pc (?w b' ?l2) pc'" if "fl_step ck (b, pc) (b', pc')" for t b pc b' pc'
    using racing.inside [of ck "?w b ?l2" pc b' pc' t] that by simp
  have freed: "racing ck t g Freed g Idle" for t g by (rule racing.return_freed)
  have start: "start_dealloc a p l = Freeing p l ?h" "start_dealloc a q k = Freeing q k ?h"
    using assms(1,2) by (simp_all add: start_dealloc_def free_list_head_def)
  have "legal (racing ck) (quiet a live) ?xs"
    using calls by (simp add: start) (intro conjI inside freed; simp add: fl_step.simps set_free_list_head_def)
  from legal_reachable [OF reachable.start this]
  have "reachable (racing ck) (quiet a live) (quiet (set_free_list_head q ?a4) ?l2)"
    by simp
  then show ?thesis using assms
    by (intro exI [of _ "set_free_list_head q ?a4"]) (auto simp: set_free_list_head_def fb_next_def)
qed

end
