(* ===== verification/FdTable.thy ===== *)
theory FdTable
  imports Prelude
begin

text \<open>
  \<^verbatim>\<open>exercises/02_no_std_dev/05_fd_table/src/lib.rs\<close>: the file descriptor table, a vector of
  optional files. A file is a shared handle (\<^verbatim>\<open>Arc<dyn File>\<close>) of any type; cloning it is the same
  handle. Descriptors are \<open>nat\<close>, as they index a vector.
\<close>

section \<open>The table\<close>

record 'f FdTable =
  files :: "'f option list"

definition new :: "'f FdTable" where
  "new = \<lparr>files = []\<rparr>"

text \<open>\<^verbatim>\<open>Iterator::position\<close>.\<close>

fun position :: "('a \<Rightarrow> bool) \<Rightarrow> 'a list \<Rightarrow> nat option" where
  "position P [] = None"
| "position P (x # xs) = (if P x then Some 0 else map_option Suc (position P xs))"

definition fd_alloc :: "'f FdTable \<Rightarrow> 'f \<Rightarrow> nat \<times> 'f FdTable" where
  "fd_alloc t file =
     (case position (\<lambda>f. f = None) (files t) of
        Some fd \<Rightarrow> (fd, t\<lparr>files := (files t)[fd := Some file]\<rparr>)
      | None \<Rightarrow> (length (files t), t\<lparr>files := files t @ [Some file]\<rparr>))"

definition fd_get :: "'f FdTable \<Rightarrow> nat \<Rightarrow> 'f option" where
  "fd_get t fd = (if fd < length (files t) then files t ! fd else None)"

definition fd_close :: "'f FdTable \<Rightarrow> nat \<Rightarrow> bool \<times> 'f FdTable" where
  "fd_close t fd =
     (if fd < length (files t) \<and> files t ! fd \<noteq> None
      then (True, t\<lparr>files := (files t)[fd := None]\<rparr>)
      else (False, t))"

definition fd_count :: "'f FdTable \<Rightarrow> nat" where
  "fd_count t = length (filter (\<lambda>f. f \<noteq> None) (files t))"

section \<open>The abstract table\<close>

text \<open>A finite map from descriptors to files; allocation takes the least free descriptor.\<close>

datatype 'f fd_op = OpAlloc 'f | OpGet nat | OpClose nat | OpCount

datatype 'f fd_result = Fd nat | File "'f option" | Closed bool | Count nat

fun fd_step :: "'f FdTable \<Rightarrow> 'f fd_op \<Rightarrow> 'f fd_result \<times> 'f FdTable" where
  "fd_step t (OpAlloc f) = (let (fd, t') = fd_alloc t f in (Fd fd, t'))"
| "fd_step t (OpGet fd) = (File (fd_get t fd), t)"
| "fd_step t (OpClose fd) = (let (b, t') = fd_close t fd in (Closed b, t'))"
| "fd_step t OpCount = (Count (fd_count t), t)"

fun spec_step :: "(nat \<rightharpoonup> 'f) \<Rightarrow> 'f fd_op \<Rightarrow> 'f fd_result \<times> (nat \<rightharpoonup> 'f)" where
  "spec_step m (OpAlloc f) = (let fd = (LEAST n. m n = None) in (Fd fd, m(fd \<mapsto> f)))"
| "spec_step m (OpGet fd) = (File (m fd), m)"
| "spec_step m (OpClose fd) = (Closed (m fd \<noteq> None), m(fd := None))"
| "spec_step m OpCount = (Count (card (dom m)), m)"

fun run :: "('s \<Rightarrow> 'o \<Rightarrow> 'r \<times> 's) \<Rightarrow> 's \<Rightarrow> 'o list \<Rightarrow> 'r list \<times> 's" where
  "run f s [] = ([], s)"
| "run f s (x # xs) =
     (let (r, s') = f s x; (rs, s'') = run f s' xs in (r # rs, s''))"

section \<open>Refinement\<close>

lemma position_Some:
  "position P xs = Some i \<longleftrightarrow> i < length xs \<and> P (xs ! i) \<and> (\<forall>j < i. \<not> P (xs ! j))"
proof (induction xs arbitrary: i)
  case (Cons x xs)
  show ?case
  proof (cases i)
    case (Suc k)
    then show ?thesis using Cons.IH [of k] by (auto simp: All_less_Suc2)
  qed auto
qed simp

lemma position_None: "position P xs = None \<longleftrightarrow> (\<forall>i < length xs. \<not> P (xs ! i))"
  by (induction xs) (auto simp: All_less_Suc2)

lemma fd_alloc_least:
  "fst (fd_alloc t f) = (LEAST n. fd_get t n = None)"
  "fd_get (snd (fd_alloc t f)) = (fd_get t)(fst (fd_alloc t f) \<mapsto> f)"
proof -
  show "fst (fd_alloc t f) = (LEAST n. fd_get t n = None)"
    by (rule Least_equality [symmetric])
      (auto simp: fd_alloc_def fd_get_def position_Some position_None not_less
        split: option.splits if_splits intro: leI)
  show "fd_get (snd (fd_alloc t f)) = (fd_get t)(fst (fd_alloc t f) \<mapsto> f)"
    by (rule ext)
      (auto simp: fd_alloc_def fd_get_def position_Some nth_append nth_list_update
        split: option.splits if_splits)
qed

lemma fd_close_map:
  "fst (fd_close t fd) = (fd_get t fd \<noteq> None)"
  "fd_get (snd (fd_close t fd)) = (fd_get t)(fd := None)"
proof -
  show "fst (fd_close t fd) = (fd_get t fd \<noteq> None)"
    by (auto simp: fd_close_def fd_get_def)
  show "fd_get (snd (fd_close t fd)) = (fd_get t)(fd := None)"
    by (rule ext) (auto simp: fd_close_def fd_get_def nth_list_update)
qed

lemma fd_count_card: "fd_count t = card (dom (fd_get t))"
proof -
  have "dom (fd_get t) = {i. i < length (files t) \<and> files t ! i \<noteq> None}"
    by (auto simp: dom_def fd_get_def split: if_splits)
  then show ?thesis by (simp add: fd_count_def length_filter_conv_card)
qed

lemma fd_step_refines:
  "fst (fd_step t x) = fst (spec_step (fd_get t) x) \<and>
   fd_get (snd (fd_step t x)) = snd (spec_step (fd_get t) x)"
  by (cases x) (simp_all add: Let_def split_beta fd_alloc_least fd_close_map fd_count_card)

lemma fd_run_refines: "fst (run fd_step t xs) = fst (run spec_step (fd_get t) xs)"
proof (induction xs arbitrary: t)
  case (Cons x xs)
  then show ?case using fd_step_refines [of t x] by (auto simp: Let_def split_beta)
qed simp

text \<open>C17: the descriptor table is a map from descriptors to files that opens a file at the least
  free descriptor: any sequence of calls on a new table returns what the calls on that map
  return. \<^verbatim>\<open>alloc\<close> reuses the least closed descriptor, \<^verbatim>\<open>close\<close> succeeds exactly on open ones and
  \<^verbatim>\<open>count\<close> is their number.\<close>

theorem fd_table_refines_map:
  "fst (run fd_step (new :: 'f FdTable) xs) = fst (run spec_step Map.empty xs)"
proof -
  have "fd_get (new :: 'f FdTable) = Map.empty" by (rule ext) (simp add: fd_get_def new_def)
  then show ?thesis using fd_run_refines [of new xs] by simp
qed

text \<open>The first files opened get the descriptors 0, 1, 2 and so on; after closing one of them,
  the next file opened gets its descriptor, and no handle of another descriptor changes.\<close>

theorem fd_reuse:
  assumes "fd < length xs"
  shows "let t = fold (\<lambda>f t. snd (fd_alloc t f)) xs new; t' = snd (fd_close t fd) in
    (\<forall>i. fd_get t i = (if i < length xs then Some (xs ! i) else None)) \<and>
    fst (fd_close t fd) \<and> fst (fd_alloc t' f) = fd \<and>
    fd_get (snd (fd_alloc t' f)) = (fd_get t)(fd \<mapsto> f) \<and>
    fd_count t = length xs \<and> fd_count t' = length xs - 1"
proof -
  have files: "files (fold (\<lambda>f t. snd (fd_alloc t f)) ys t) = files t @ map Some ys"
    if "None \<notin> set (files t)" for ys and t :: "'a FdTable"
    using that
  proof (induction ys arbitrary: t)
    case (Cons y ys)
    from Cons.prems have "position (\<lambda>f. f = None) (files t) = None"
      unfolding position_None by (metis nth_mem)
    then have "files (snd (fd_alloc t y)) = files t @ [Some y]" by (simp add: fd_alloc_def)
    with Cons.IH [of "snd (fd_alloc t y)"] Cons.prems show ?case by simp
  qed simp
  define t where "t = fold (\<lambda>f t. snd (fd_alloc t f)) xs new"
  have ft: "files t = map Some xs" using files [of new xs] by (simp add: t_def new_def)
  let ?t' = "snd (fd_close t fd)"
  have get: "fd_get t = (\<lambda>i. if i < length xs then Some (xs ! i) else None)"
    by (rule ext) (simp add: fd_get_def ft)
  have get': "fd_get ?t' = (fd_get t)(fd := None)" by (rule fd_close_map)
  have "(LEAST n. fd_get ?t' n = None) = fd"
    using assms by (intro Least_equality) (auto simp: get' get split: if_splits)
  then have al: "fst (fd_alloc ?t' f) = fd" by (simp add: fd_alloc_least)
  have "dom (fd_get t) = {..<length xs}" by (auto simp: get dom_def split: if_splits)
  moreover then have "dom (fd_get ?t') = {..<length xs} - {fd}" by (simp add: get')
  ultimately have "fd_count t = length xs" "fd_count ?t' = length xs - 1"
    using assms by (simp_all add: fd_count_card)
  moreover have "fd_get (snd (fd_alloc ?t' f)) = (fd_get t)(fd \<mapsto> f)"
    by (simp add: fd_alloc_least(2) al get')
  ultimately show ?thesis using assms al
    by (simp add: Let_def flip: t_def) (simp add: get fd_close_map)
qed

theorem fd_reuse_witness:
  "fst (fd_alloc (snd (fd_close (fold (\<lambda>f t. snd (fd_alloc t f)) [10, 11, 12::nat] new) 1)) 13) = 1"
  using fd_reuse [of 1 "[10, 11, 12::nat]" 13] by (simp add: Let_def)

end
