(* ===== verification/LockClient.thy ===== *)
theory LockClient
  imports Interleaving
begin

text \<open>
  The contract of a mutual exclusion lock and its client: threads that repeatedly take the lock,
  update the data it protects in two separate accesses (a read and a write) and release it. A thread
  may panic inside; what becomes of the lock then is part of the contract. Mutual exclusion, and
  that no update is lost, are proved here once for every lock.
\<close>

section \<open>The client\<close>

datatype 'd cs = Idle | Entered | Has_read 'd | Wrote | Dead

text \<open>The shared state: the lock word, the protected data, and the number of updates written.\<close>

record ('w, 'd) guarded =
  lock_word :: 'w
  data :: 'd
  writes :: nat

text \<open>One attempt of the acquiring loop is \<open>acq\<close>; it may also fail for no reason, as a weak exchange
  does. Releasing is \<open>rel\<close>, and \<open>unwind\<close> is what a panic inside does to the lock.\<close>

inductive cs_step ::
  "('w \<Rightarrow> 'w option) \<Rightarrow> ('w \<Rightarrow> 'w) \<Rightarrow> ('w \<Rightarrow> 'w) \<Rightarrow> ('d \<Rightarrow> 'd) \<Rightarrow> (('w, 'd) guarded, 'd cs) thread_step"
  for acq rel unwind f where
  acquire: "acq (lock_word g) = Some w \<Longrightarrow>
    cs_step acq rel unwind f t g Idle (g\<lparr>lock_word := w\<rparr>) Entered"
| spin: "cs_step acq rel unwind f t g Idle g Idle"
| read: "cs_step acq rel unwind f t g Entered g (Has_read (data g))"
| update: "cs_step acq rel unwind f t g (Has_read x) (g\<lparr>data := f x, writes := Suc (writes g)\<rparr>) Wrote"
| release: "cs_step acq rel unwind f t g Wrote (g\<lparr>lock_word := rel (lock_word g)\<rparr>) Idle"
| panic: "l = Entered \<or> l = Has_read x \<or> l = Wrote \<Longrightarrow>
    cs_step acq rel unwind f t g l (g\<lparr>lock_word := unwind (lock_word g)\<rparr>) Dead"

inductive_cases cs_stepE: "cs_step acq rel unwind f t g l g' l'"

inductive_simps cs_step_from:
  "cs_step acq rel unwind f t g Idle g' l'"
  "cs_step acq rel unwind f t g Entered g' l'"
  "cs_step acq rel unwind f t g (Has_read x) g' l'"
  "cs_step acq rel unwind f t g Wrote g' l'"

definition inside :: "'d cs \<Rightarrow> bool" where
  "inside l \<longleftrightarrow> l \<noteq> Idle \<and> l \<noteq> Dead"

lemma inside_simps [simp]:
  "\<not> inside Idle" "\<not> inside Dead" "inside Entered" "inside (Has_read x)" "inside Wrote"
  by (simp_all add: inside_def)

definition cs_init :: "'w \<Rightarrow> 'd \<Rightarrow> (('w, 'd) guarded, 'd cs) pool" where
  "cs_init w d = \<lparr>shared = \<lparr>lock_word = w, data = d, writes = 0\<rparr>, locals = (\<lambda>_. Idle)\<rparr>"

section \<open>The contract\<close>

locale lock_contract =
  fixes held :: "'w \<Rightarrow> bool"
    and acq :: "'w \<Rightarrow> 'w option"
    and rel :: "'w \<Rightarrow> 'w"
    and unwind :: "'w \<Rightarrow> 'w"
  assumes acq_free: "acq w = Some w' \<Longrightarrow> \<not> held w \<and> held w'"
    and acq_avail: "\<not> held w \<Longrightarrow> \<exists>w'. acq w = Some w'"
begin

definition excl :: "('d \<Rightarrow> 'd) \<Rightarrow> 'd \<Rightarrow> ('w, 'd) guarded \<Rightarrow> (nat \<Rightarrow> 'd cs) \<Rightarrow> bool" where
  "excl f d g ls \<longleftrightarrow>
     (\<forall>t. inside (ls t) \<longrightarrow> held (lock_word g) \<and> (\<forall>u. inside (ls u) \<longrightarrow> u = t)) \<and>
     (\<forall>t x. ls t = Has_read x \<longrightarrow> x = data g) \<and>
     data g = (f ^^ writes g) d"

lemma excl_step:
  assumes "excl f d g ls" "cs_step acq rel unwind f t g (ls t) g' l'"
  shows "excl f d g' (ls(t := l'))"
  using assms(2)
proof (cases rule: cs_step.cases)
  case (acquire w)
  with acq_free [OF acquire(4)] assms(1) show ?thesis by (auto simp: excl_def)
next
  case spin
  with assms(1) show ?thesis by (auto simp: excl_def)
next
  case read
  then have "inside (ls t)" by simp
  with assms(1) have "held (lock_word g)" by (auto simp: excl_def)
  with read assms(1) show ?thesis by (auto simp: excl_def)
next
  case (update x)
  have t: "inside (ls t)" using update by simp
  then have other: "\<not> inside (ls u)" if "u \<noteq> t" for u using assms(1) that by (auto simp: excl_def)
  have "x = data g" using assms(1) update by (auto simp: excl_def)
  have eq: "inside ((ls(t := l')) v) = inside (ls v)" for v using update t by simp
  have "(ls(t := l')) v \<noteq> Has_read y" for v y
    using other [of v] update by (cases "v = t") auto
  moreover have "data g' = (f ^^ writes g') d"
    using assms(1) update \<open>x = data g\<close> by (simp add: excl_def)
  moreover have "lock_word g' = lock_word g" using update by simp
  ultimately show ?thesis using assms(1) unfolding excl_def eq by simp
next
  case release
  then have "inside (ls t)" by simp
  with release assms(1) show ?thesis by (auto simp: excl_def)
next
  case (panic x)
  then have "inside (ls t)" by auto
  with panic assms(1) show ?thesis by (auto simp: excl_def)
qed

lemma excl_reachable:
  assumes "reachable (cs_step acq rel unwind f) (cs_init w d) s"
  shows "excl f d (shared s) (locals s)"
  using assms
proof (rule reachable_invariant [where I = "excl f d"])
  show "excl f d (shared (cs_init w d)) (locals (cs_init w d))"
    by (simp add: excl_def cs_init_def)
qed (rule excl_step)

text \<open>At most one thread is inside, and no update is lost.\<close>

lemma mutual_exclusion:
  assumes "reachable (cs_step acq rel unwind f) (cs_init w d) s"
  shows "inside (locals s t) \<Longrightarrow> inside (locals s u) \<Longrightarrow> t = u"
    and "data (shared s) = (f ^^ writes (shared s)) d"
  using excl_reachable [OF assms] by (auto simp: excl_def)

end

text \<open>A lock that is released when its holder leaves, by unlocking or by panicking.\<close>

locale released_lock = lock_contract held acq rel unwind
  for held :: "'w \<Rightarrow> bool" and acq rel unwind +
  assumes rel_free: "\<not> held (rel w)"
    and unwind_free: "\<not> held (unwind w)"
begin

text \<open>Whenever nobody is inside, the lock can be taken.\<close>

lemma available:
  assumes "reachable (cs_step acq rel unwind f) (cs_init w d) s" "\<not> held w"
    and "\<And>t. \<not> inside (locals s t)"
  shows "\<exists>w'. acq (lock_word (shared s)) = Some w'"
proof -
  have "held (lock_word (shared s)) \<longrightarrow> (\<exists>t. inside (locals s t))"
    using assms(1)
  proof (rule reachable_invariant [where I = "\<lambda>g ls. held (lock_word g) \<longrightarrow> (\<exists>t. inside (ls t))"])
    fix g ls t g' l'
    assume "held (lock_word g) \<longrightarrow> (\<exists>t. inside (ls t))"
      and "cs_step acq rel unwind f t g (ls t) g' l'"
    from this(2) this(1) show "held (lock_word g') \<longrightarrow> (\<exists>u. inside ((ls(t := l')) u))"
      by (cases rule: cs_stepE) (auto simp: rel_free unwind_free intro: exI [of _ t], (metis inside_simps(1))+)
  qed (use assms(2) in \<open>simp add: cs_init_def\<close>)
  then show ?thesis using assms(3) acq_avail by blast
qed

end

end
