(* ===== verification/SpinLock.thy ===== *)
theory SpinLock
  imports LockClient
begin

text \<open>
  \<^verbatim>\<open>exercises/03_os_concurrency/03_spinlock/src/lib.rs\<close>: the spin lock without a guard, undisturbed
  and as the lock of the client of the theory LockClient. A reference to the inner data is
  modelled by the data it gives access to.
\<close>

section \<open>The lock\<close>

record 'd SpinLock =
  locked :: bool
  sl_data :: 'd

definition new :: "'d \<Rightarrow> 'd SpinLock" where
  "new d = \<lparr>locked = False, sl_data = d\<rparr>"

text \<open>One exchange of the flag from free to taken: whether it succeeded, and the flag it leaves.\<close>

definition exchange :: "bool \<Rightarrow> bool \<times> bool" where
  "exchange b = (let (r, b') = compare_exchange b False True in (is_ok r, b'))"

text \<open>\<^verbatim>\<open>lock\<close> without other threads: a taken lock is never released, and the call spins forever.\<close>

partial_function (option) lock :: "'d SpinLock \<Rightarrow> ('d \<times> 'd SpinLock) option" where
  "lock l =
     (let (ok, b) = exchange (locked l) in
      if \<not> ok then lock (l\<lparr>locked := b\<rparr>) else Some (sl_data l, l\<lparr>locked := b\<rparr>))"

definition unlock :: "'d SpinLock \<Rightarrow> 'd SpinLock" where
  "unlock l = l\<lparr>locked := False\<rparr>"

definition try_lock :: "'d SpinLock \<Rightarrow> 'd option \<times> 'd SpinLock" where
  "try_lock l =
     (let (ok, b) = exchange (locked l) in
      (if ok then Some (sl_data l) else None, l\<lparr>locked := b\<rparr>))"

lemma exchange_simps [simp]: "exchange False = (True, True)" "exchange True = (False, True)"
  by (simp_all add: exchange_def compare_exchange_def)

lemma lock_locked: "locked l \<Longrightarrow> lock l = None"
proof -
  have "lock l = Some r \<Longrightarrow> \<not> locked l" for r
    by (erule lock.raw_induct [where P = "\<lambda>l r. \<not> locked l", rotated])
      (fastforce simp: exchange_def compare_exchange_def Let_def split: if_splits)
  then show "locked l \<Longrightarrow> lock l = None" by (cases "lock l") auto
qed

text \<open>A call on a free lock takes it at once and gives access to the data; on a taken lock
  \<^verbatim>\<open>try_lock\<close> returns nothing and leaves the lock alone, and \<^verbatim>\<open>lock\<close> by the only thread never
  returns; \<^verbatim>\<open>unlock\<close> frees the lock.\<close>

theorem spinlock_calls:
  "lock (l :: 'd SpinLock) = (if locked l then None else Some (sl_data l, l\<lparr>locked := True\<rparr>)) \<and>
   try_lock l = (if locked l then (None, l) else (Some (sl_data l), l\<lparr>locked := True\<rparr>)) \<and>
   \<not> locked (unlock l) \<and> sl_data (unlock l) = sl_data l \<and>
   lock (new (d :: 'd)) = Some (d, \<lparr>locked = True, sl_data = d\<rparr>)"
proof -
  have free: "lock l = Some (sl_data l, l\<lparr>locked := True\<rparr>)" if "\<not> locked l" for l :: "'d SpinLock"
    using that by (subst lock.simps) simp
  have "l\<lparr>locked := True\<rparr> = l" if "locked l" using that by simp
  then show ?thesis
    using lock_locked [of l] free
    by (auto simp: try_lock_def unlock_def new_def)
qed

section \<open>Threads\<close>

text \<open>The loop of \<^verbatim>\<open>lock\<close> makes this attempt until it succeeds. A panic leaves the flag as it is.\<close>

definition acquire :: "bool \<Rightarrow> bool option" where
  "acquire b = (let (ok, b') = exchange b in if ok then Some b' else None)"

definition release :: "bool \<Rightarrow> bool" where
  "release b = locked (unlock \<lparr>locked = b, sl_data = ()\<rparr>)"

interpretation spin: lock_contract "\<lambda>b. b" acquire release "\<lambda>b. b"
  by unfold_locales (auto simp: acquire_def exchange_def compare_exchange_def split: if_splits)

text \<open>With threads that take the lock, read the data, write it back updated and unlock, at most
  one thread is between locking and unlocking at any time, and no update is lost: the data is the
  initial data with as many updates applied as were written.\<close>

theorem spinlock_exclusion:
  assumes "reachable (cs_step acquire release (\<lambda>b. b) f) (cs_init False d) s"
  shows "(\<forall>t u. inside (locals s t) \<longrightarrow> inside (locals s u) \<longrightarrow> t = u) \<and>
    data (shared s) = (f ^^ writes (shared s)) d"
  using spin.mutual_exclusion [OF assms] by blast

definition two_updates :: "(nat \<times> (bool, nat) guarded \<times> nat cs) list" where
  "two_updates =
    (let g = \<lambda>b d w. \<lparr>lock_word = b, data = d, writes = w\<rparr> in
     [(0, g True 0 0, Entered), (1, g True 0 0, Idle), (0, g True 0 0, Has_read 0),
      (0, g True 1 1, Wrote), (0, g False 1 1, Idle), (1, g True 1 1, Entered),
      (1, g True 1 1, Has_read 1), (1, g True 2 2, Wrote)])"

theorem spinlock_exclusion_witness:
  "reachable (cs_step acquire release (\<lambda>b. b) Suc) (cs_init False 0)
     (run_pool (cs_init False 0) two_updates) \<and>
   data (shared (run_pool (cs_init False 0) two_updates)) = (Suc ^^ 2) 0"
proof -
  let ?s = "run_pool (cs_init False 0) two_updates"
  have r: "reachable (cs_step acquire release (\<lambda>b. b) Suc) (cs_init False 0) ?s"
    by (rule legal_reachable [OF reachable.start])
      (auto simp: two_updates_def cs_init_def cs_step_from acquire_def release_def unlock_def)
  have "writes (shared ?s) = 2" by (simp add: two_updates_def cs_init_def)
  with r spinlock_exclusion [OF r] show ?thesis by simp
qed

text \<open>A thread that panics while it holds the lock leaves it taken for good: from then on nobody
  is inside and every attempt of every thread fails.\<close>

theorem spinlock_panic_blocks:
  assumes "reachable (cs_step acquire release (\<lambda>b. b) f) (cs_init False d) s"
    and "locals s t = Dead"
  shows "acquire (lock_word (shared s)) = None \<and> (\<forall>u. \<not> inside (locals s u))"
proof -
  let ?I = "\<lambda>g ls. spin.excl f d g ls \<and>
    (\<forall>t. ls t = Dead \<longrightarrow> lock_word g \<and> (\<forall>u. \<not> inside (ls u)))"
  have "?I (shared s) (locals s)"
    using assms(1)
  proof (rule reachable_invariant [where I = ?I])
    show "?I (shared (cs_init False d)) (locals (cs_init False d))"
      by (simp add: spin.excl_def cs_init_def)
  next
    fix g ls t g' l'
    assume I: "?I g ls" and st: "cs_step acquire release (\<lambda>b. b) f t g (ls t) g' l'"
    from I st have "spin.excl f d g' (ls(t := l'))" by (blast intro: spin.excl_step)
    moreover have "\<forall>v. (ls(t := l')) v = Dead \<longrightarrow>
        lock_word g' \<and> (\<forall>u. \<not> inside ((ls(t := l')) u))"
      using st
    proof (cases rule: cs_step.cases)
      case (panic x)
      then have "inside (ls t)" by auto
      then show ?thesis using I panic by (auto simp: spin.excl_def)
    qed (use I in \<open>auto simp: acquire_def exchange_def compare_exchange_def split: if_splits\<close>,
        (metis inside_simps)+)
    ultimately show "?I g' (ls(t := l'))" by blast
  qed
  then show ?thesis using assms(2) by (auto simp: acquire_def exchange_def compare_exchange_def)
qed

theorem spinlock_panic_blocks_witness:
  "\<exists>s. reachable (cs_step acquire release (\<lambda>b. b) Suc) (cs_init False 0) s \<and>
    locals s 0 = Dead \<and> acquire (lock_word (shared s)) = None"
proof -
  let ?g = "\<lparr>lock_word = True, data = 0, writes = 0\<rparr>"
  let ?s = "run_pool (cs_init False 0) [(0, ?g, Entered), (0, ?g, Dead)]"
  have r: "reachable (cs_step acquire release (\<lambda>b. b) Suc) (cs_init False 0) ?s"
    by (rule legal_reachable [OF reachable.start])
      (auto simp: cs_init_def cs_step_from acquire_def)
  have "locals ?s 0 = Dead" by simp
  with r spinlock_panic_blocks [OF r this] show ?thesis by blast
qed

end
