(* ===== verification/SpinGuard.thy ===== *)
theory SpinGuard
  imports LockClient
begin

text \<open>
  \<^verbatim>\<open>exercises/03_os_concurrency/04_spinlock_guard/src/lib.rs\<close>: the spin lock whose guard releases it
  when it goes out of scope, by a return or by a panic that unwinds. A guard is a reference to its
  lock, so its operations are functions of the lock.
\<close>

section \<open>The lock and its guard\<close>

record 'd SpinLock =
  locked :: bool
  sl_data :: 'd

definition new :: "'d \<Rightarrow> 'd SpinLock" where
  "new d = \<lparr>locked = False, sl_data = d\<rparr>"

text \<open>One weak exchange of the flag, which may fail spuriously.\<close>

definition exchange_weak :: "bool \<Rightarrow> bool \<Rightarrow> bool \<times> bool" where
  "exchange_weak spurious b =
     (if spurious then (False, b)
      else let (r, b') = compare_exchange b False True in (is_ok r, b'))"

text \<open>The loop of \<^verbatim>\<open>lock\<close> over the attempts it makes, each failing spuriously or not; \<open>None\<close> while
  it is still spinning after them.\<close>

fun lock :: "bool list \<Rightarrow> 'd SpinLock \<Rightarrow> 'd SpinLock option" where
  "lock [] l = None"
| "lock (spurious # ss) l =
     (let (ok, b) = exchange_weak spurious (locked l) in
      if \<not> ok then lock ss (l\<lparr>locked := b\<rparr>) else Some (l\<lparr>locked := b\<rparr>))"

definition deref :: "'d SpinLock \<Rightarrow> 'd" where
  "deref l = sl_data l"

definition deref_mut :: "'d SpinLock \<Rightarrow> 'd \<Rightarrow> 'd SpinLock" where
  "deref_mut l x = l\<lparr>sl_data := x\<rparr>"

definition drop_guard :: "'d SpinLock \<Rightarrow> 'd SpinLock" where
  "drop_guard l = l\<lparr>locked := False\<rparr>"

text \<open>A scope that holds the guard: the body works on the data through it and returns or panics, and
  the guard is dropped either way.\<close>

definition scope ::
  "bool list \<Rightarrow> ('d \<Rightarrow> 'r res \<times> 'd) \<Rightarrow> 'd SpinLock \<Rightarrow> ('r res \<times> 'd SpinLock) option" where
  "scope ss body l =
     (case lock ss l of
        None \<Rightarrow> None
      | Some g \<Rightarrow> let (r, x) = body (deref g) in Some (r, drop_guard (deref_mut g x)))"

lemma exchange_weak_simps [simp]:
  "exchange_weak True b = (False, b)"
  "exchange_weak False False = (True, True)"
  "exchange_weak False True = (False, True)"
  by (simp_all add: exchange_weak_def compare_exchange_def)

lemma lock_spins:
  "lock ss l = (if locked l \<or> (\<forall>s \<in> set ss. s) then None else Some (l\<lparr>locked := True\<rparr>))"
proof (induction ss)
  case (Cons s ss)
  have same: "l\<lparr>locked := locked l\<rparr> = l" "locked l \<Longrightarrow> l\<lparr>locked := True\<rparr> = l" by simp_all
  show ?case
  proof (cases s)
    case True
    then have "lock (s # ss) l = lock ss l" by (simp add: same(1))
    then show ?thesis using Cons True by simp
  next
    case False
    show ?thesis
    proof (cases "locked l")
      case True
      then have "lock (s # ss) l = lock ss (l\<lparr>locked := True\<rparr>)" using False by simp
      also have "\<dots> = lock ss l" by (simp only: same(2) [OF True])
      finally show ?thesis using Cons True by simp
    qed (use False in simp)
  qed
qed simp

text \<open>A free lock is taken at the first attempt that does not fail spuriously, the body sees and
  leaves the protected data, and the lock is free again afterwards, even when the body panics.\<close>

lemma guard_scope:
  "scope ss body l =
    (if locked l \<or> (\<forall>s \<in> set ss. s) then None
     else Some (fst (body (sl_data l)), l\<lparr>sl_data := snd (body (sl_data l))\<rparr>))"
proof -
  have "l\<lparr>locked := False, sl_data := x\<rparr> = l\<lparr>sl_data := x\<rparr>" if "\<not> locked l" for x
    using that by simp
  then show ?thesis
    by (auto simp: scope_def lock_spins deref_def deref_mut_def drop_guard_def split_beta Let_def)
qed

section \<open>Threads\<close>

definition acquire :: "bool \<Rightarrow> bool option" where
  "acquire b = (let (ok, b') = exchange_weak False b in if ok then Some b' else None)"

definition release :: "bool \<Rightarrow> bool" where
  "release b = locked (drop_guard \<lparr>locked = b, sl_data = ()\<rparr>)"

interpretation guard: released_lock "\<lambda>b. b" acquire release release
  by unfold_locales
    (auto simp: acquire_def exchange_weak_def compare_exchange_def release_def drop_guard_def
      split: if_splits)

text \<open>C13: with the guard, threads that update the data and may panic half way exclude each other and
  lose no update; and whenever no thread is inside, whether the last one returned or panicked, the
  lock can be taken again.\<close>

theorem guard_exclusion_and_release:
  assumes "reachable (cs_step acquire release release f) (cs_init False d) s"
  shows "(\<forall>t u. inside (locals s t) \<longrightarrow> inside (locals s u) \<longrightarrow> t = u) \<and>
    data (shared s) = (f ^^ writes (shared s)) d \<and>
    ((\<forall>t. \<not> inside (locals s t)) \<longrightarrow> acquire (lock_word (shared s)) = Some True)"
proof -
  have "acquire b = Some w \<Longrightarrow> w" for b w
    by (auto simp: acquire_def exchange_weak_def compare_exchange_def split: if_splits)
  with guard.mutual_exclusion [OF assms] guard.available [OF assms]
  show ?thesis by (metis (full_types))
qed

definition panic_then_update :: "(nat \<times> (bool, nat) guarded \<times> nat cs) list" where
  "panic_then_update =
    (let g = \<lambda>b d w. \<lparr>lock_word = b, data = d, writes = w\<rparr> in
     [(0, g True 0 0, Entered), (1, g True 0 0, Idle), (0, g True 0 0, Has_read 0),
      (0, g False 0 0, Dead)])"

theorem guard_exclusion_and_release_witness:
  "let s = run_pool (cs_init False (0::nat)) panic_then_update in
   locals s 0 = Dead \<and> acquire (lock_word (shared s)) = Some True"
proof -
  let ?s = "run_pool (cs_init False 0) panic_then_update"
  have r: "reachable (cs_step acquire release release Suc) (cs_init False 0) ?s"
    by (rule legal_reachable [OF reachable.start])
      (auto simp: panic_then_update_def cs_init_def cs_step_from acquire_def release_def drop_guard_def)
  have "locals ?s 0 = Dead" "\<forall>t. \<not> inside (locals ?s t)"
    by (simp_all add: panic_then_update_def cs_init_def)
  with guard_exclusion_and_release [OF r] show ?thesis by (simp add: Let_def)
qed

end
