(* ===== verification/RwLock.thy ===== *)
theory RwLock
  imports Interleaving
begin

text \<open>
  \<^verbatim>\<open>exercises/03_os_concurrency/05_rwlock/src/lib.rs\<close>: the read-write lock in one 32-bit word, as
  threads that interleave at its atomic operations.
\<close>

section \<open>The lock word\<close>

definition READER_MASK :: u32 where "READER_MASK = push_bit 30 1 - 1"
definition WRITER_HOLDING :: u32 where "WRITER_HOLDING = push_bit 30 1"
definition WRITER_WAITING :: u32 where "WRITER_WAITING = push_bit 31 1"

definition new :: u32 where
  "new = 0"

text \<open>\<^verbatim>\<open>read\<close>: when the loop goes round again without an exchange, and the exchange.\<close>

definition read_spins :: "u32 \<Rightarrow> bool" where
  "read_spins s \<longleftrightarrow> (s AND (WRITER_HOLDING OR WRITER_WAITING)) \<noteq> 0 \<or> (s AND READER_MASK) = READER_MASK"

definition read_exchange :: "u32 \<Rightarrow> u32 \<Rightarrow> (u32 + u32) \<times> u32" where
  "read_exchange state s = compare_exchange state s (s + 1)"

text \<open>\<^verbatim>\<open>write\<close>: the announcement, when its loop goes round again, and its two exchanges.\<close>

definition write_announce :: "u32 \<Rightarrow> u32" where
  "write_announce state = state OR WRITER_WAITING"

definition write_spins :: "u32 \<Rightarrow> bool" where
  "write_spins s \<longleftrightarrow> (s AND (READER_MASK OR WRITER_HOLDING)) \<noteq> 0"

definition write_exchange :: "u32 \<Rightarrow> u32 \<Rightarrow> (u32 + u32) \<times> u32" where
  "write_exchange state s = compare_exchange state (s OR WRITER_WAITING) WRITER_HOLDING"

definition write_exchange_free :: "u32 \<Rightarrow> (u32 + u32) \<times> u32" where
  "write_exchange_free state = compare_exchange state 0 WRITER_HOLDING"

text \<open>Dropping the guards.\<close>

definition read_drop :: "u32 \<Rightarrow> u32" where
  "read_drop state = state - 1"

definition write_drop :: "u32 \<Rightarrow> u32" where
  "write_drop state = state AND NOT (WRITER_HOLDING OR WRITER_WAITING)"

section \<open>Threads\<close>

text \<open>Where a thread is: outside; at the loop of \<^verbatim>\<open>read\<close>, or past its load; holding a read guard; at
  the loop of \<^verbatim>\<open>write\<close>, past its load, or past its first exchange; holding the write guard.\<close>

datatype rw = Idle | R_loop | R_loaded u32 | Reading
  | W_loop | W_loaded u32 | W_second | Writing

text \<open>The atomic steps; \<open>writers\<close> are the threads that may call \<^verbatim>\<open>write\<close>.\<close>

inductive rw_step :: "nat set \<Rightarrow> (u32, rw) thread_step" for writers where
  read: "rw_step writers t g Idle g R_loop"
| read_load: "rw_step writers t g R_loop g (R_loaded g)"
| read_spin: "read_spins s \<Longrightarrow> rw_step writers t g (R_loaded s) g R_loop"
| read_cas: "\<not> read_spins s \<Longrightarrow> read_exchange g s = (r, g') \<Longrightarrow>
    rw_step writers t g (R_loaded s) g' (if is_ok r then Reading else R_loop)"
| read_done: "rw_step writers t g Reading (read_drop g) Idle"
| write_start: "t \<in> writers \<Longrightarrow> rw_step writers t g Idle (write_announce g) W_loop"
| write_load: "rw_step writers t g W_loop g (W_loaded g)"
| write_spin: "write_spins s \<Longrightarrow> rw_step writers t g (W_loaded s) g W_loop"
| write_cas: "\<not> write_spins s \<Longrightarrow> write_exchange g s = (r, g') \<Longrightarrow>
    rw_step writers t g (W_loaded s) g' (if is_ok r then Writing else W_second)"
| write_cas_free: "write_exchange_free g = (r, g') \<Longrightarrow>
    rw_step writers t g W_second g' (if is_ok r then Writing else W_loop)"
| write_done: "rw_step writers t g Writing (write_drop g) Idle"

inductive_simps rw_step_from:
  "rw_step writers t g Idle g' l'"
  "rw_step writers t g R_loop g' l'"
  "rw_step writers t g (R_loaded s) g' l'"
  "rw_step writers t g Reading g' l'"
  "rw_step writers t g W_loop g' l'"
  "rw_step writers t g (W_loaded s) g' l'"
  "rw_step writers t g W_second g' l'"
  "rw_step writers t g Writing g' l'"

definition rw_init :: "(u32, rw) pool" where
  "rw_init = \<lparr>shared = new, locals = (\<lambda>_. Idle)\<rparr>"

section \<open>Reading the word\<close>

definition readers :: "u32 \<Rightarrow> nat" where
  "readers g = unat g mod 2 ^ 30"

abbreviation holding :: "u32 \<Rightarrow> bool" where "holding g \<equiv> bit g 30"
abbreviation waiting :: "u32 \<Rightarrow> bool" where "waiting g \<equiv> bit g 31"

lemma READER_MASK_mask: "READER_MASK = mask 30"
  by (simp add: READER_MASK_def mask_eq_exp_minus_1)

lemmas rw_bits = WRITER_HOLDING_def WRITER_WAITING_def READER_MASK_mask

lemma readers_and: "unat (g AND READER_MASK) = readers g"
  by (simp add: READER_MASK_mask unat_and_mask readers_def)

lemma readers_bits: "readers g = unat (take_bit 30 g)"
  by (simp add: readers_def take_bit_eq_mask unat_and_mask)

lemma low_bits: "\<not> holding g \<Longrightarrow> \<not> waiting g \<Longrightarrow> unat g = readers g \<and> unat g < 2 ^ 30"
proof -
  assume h: "\<not> holding g" "\<not> waiting g"
  have "g = take_bit 30 g"
  proof (rule bit_word_eqI)
    fix n assume "n < LENGTH(32)"
    then have "n < 30 \<or> n = 30 \<or> n = 31" by auto
    then show "bit g n = bit (take_bit 30 g) n" using h by (auto simp: bit_take_bit_iff)
  qed
  then have "unat g = readers g" using readers_bits by metis
  moreover have "readers g < 2 ^ 30" by (simp add: readers_def)
  ultimately show ?thesis by simp
qed

lemma read_spins_iff: "read_spins s \<longleftrightarrow> holding s \<or> waiting s \<or> readers s = 2 ^ 30 - 1"
proof -
  have "s AND READER_MASK = READER_MASK \<longleftrightarrow> readers s = 2 ^ 30 - 1"
  proof -
    have "unat READER_MASK = 2 ^ 30 - 1" by (simp add: READER_MASK_def)
    then show ?thesis by (metis readers_and word_unat_eq_iff)
  qed
  then show ?thesis
    unfolding read_spins_def WRITER_HOLDING_def WRITER_WAITING_def and_or_eq_0 and_flag_eq_0 by blast
qed

lemma write_spins_iff: "write_spins s \<longleftrightarrow> holding s \<or> readers s \<noteq> 0"
proof -
  have "s AND READER_MASK = 0 \<longleftrightarrow> readers s = 0"
    by (metis readers_and unat_eq_zero)
  then show ?thesis
    unfolding write_spins_def WRITER_HOLDING_def and_or_eq_0 and_flag_eq_0 by argo
qed

text \<open>What each operation does to the three parts of the word.\<close>

lemma unat_hi: "unat g = unat g div 2 ^ 30 * 2 ^ 30 + readers (g :: u32)"
  by (simp add: readers_def)

lemma bits_div: "holding g \<longleftrightarrow> odd (unat g div 2 ^ 30)" "waiting g \<longleftrightarrow> odd (unat g div 2 ^ 31)"
proof -
  have "bit (unat g) n \<longleftrightarrow> odd (unat g div 2 ^ n)" for n by (rule bit_iff_odd)
  moreover have "bit (unat g) n \<longleftrightarrow> bit g n" for n
    by (auto simp: bit_unsigned_iff dest: bit_imp_le_length)
  ultimately show "holding g \<longleftrightarrow> odd (unat g div 2 ^ 30)" "waiting g \<longleftrightarrow> odd (unat g div 2 ^ 31)"
    by blast+
qed

lemma parts_cong:
  assumes "unat g div 2 ^ 30 = unat g' div 2 ^ 30"
  shows "holding g = holding g'" "waiting g = waiting g'"
proof -
  have "unat h div 2 ^ 31 = unat h div 2 ^ 30 div 2" for h :: u32
    by (simp flip: div_mult2_eq)
  then show "holding g = holding g'" "waiting g = waiting g'"
    unfolding bits_div using assms by simp_all
qed

lemma read_exchange_parts:
  assumes "\<not> read_spins s"
  shows "readers (s + 1) = Suc (readers s)" "\<not> holding (s + 1)" "\<not> waiting (s + 1)"
proof -
  have s: "unat s = readers s" "readers s < 2 ^ 30 - 1"
    using assms low_bits [of s] by (auto simp: read_spins_iff)
  then have u: "unat (s + 1) = Suc (unat s)" by (simp add: unat_word_ariths)
  with s show "readers (s + 1) = Suc (readers s)" by (simp add: readers_def)
  show "\<not> holding (s + 1)" "\<not> waiting (s + 1)" using u s by (simp_all add: bits_div)
qed

lemma read_drop_parts:
  assumes "readers g \<noteq> 0"
  shows "readers (read_drop g) = readers g - 1" "holding (read_drop g) = holding g"
    "waiting (read_drop g) = waiting g"
proof -
  have pos: "0 < unat g mod 2 ^ 30" using assms by (simp add: readers_def)
  then have "0 < unat g" by (metis gr0I mod_0 less_irrefl)
  then have u: "unat (read_drop g) = unat g - 1"
    by (simp add: read_drop_def unat_minus_one word_gt_0_no unat_gt_0)
  define q r where "q = unat g div 2 ^ 30" and "r = unat g mod 2 ^ 30"
  have "unat g = q * 2 ^ 30 + r" "0 < r" "r < 2 ^ 30" using pos by (simp_all add: q_def r_def)
  with u have d: "unat (read_drop g) = q * 2 ^ 30 + (r - 1)" "r - 1 < 2 ^ 30" by simp_all
  then have "unat (read_drop g) div 2 ^ 30 = q" "unat (read_drop g) mod 2 ^ 30 = r - 1"
    by simp_all
  then show "readers (read_drop g) = readers g - 1" "holding (read_drop g) = holding g"
    "waiting (read_drop g) = waiting g"
    using parts_cong [of "read_drop g" g] by (simp_all add: readers_def q_def r_def)
qed

lemma write_announce_parts:
  "readers (write_announce g) = readers g" "holding (write_announce g) = holding g"
  "waiting (write_announce g)"
proof -
  have "take_bit 30 (write_announce g) = take_bit 30 g"
    by (rule bit_word_eqI) (auto simp: write_announce_def WRITER_WAITING_def bit_simps)
  then show "readers (write_announce g) = readers g" by (simp add: readers_bits)
  show "holding (write_announce g) = holding g" "waiting (write_announce g)"
    unfolding write_announce_def WRITER_WAITING_def by (simp_all only: bit_simps) simp_all
qed

lemma write_drop_parts:
  "readers (write_drop g) = readers g" "\<not> holding (write_drop g)" "\<not> waiting (write_drop g)"
proof -
  have "take_bit 30 (write_drop g) = take_bit 30 g"
    unfolding write_drop_def rw_bits
    by (rule bit_word_eqI) (simp only: bit_simps, auto)
  then show "readers (write_drop g) = readers g" by (simp add: readers_bits)
  show "\<not> holding (write_drop g)" "\<not> waiting (write_drop g)"
    unfolding write_drop_def WRITER_HOLDING_def WRITER_WAITING_def by (simp_all only: bit_simps) simp_all
qed

lemma holding_parts: "readers WRITER_HOLDING = 0" "holding WRITER_HOLDING" "\<not> waiting WRITER_HOLDING"
proof -
  show "holding WRITER_HOLDING" "\<not> waiting WRITER_HOLDING"
    unfolding WRITER_HOLDING_def by (simp_all only: bit_simps) simp_all
qed (simp add: readers_def WRITER_HOLDING_def)

text \<open>A word without readers and writer, as the two exchanges of \<^verbatim>\<open>write\<close> expect it.\<close>

lemma free_word:
  assumes "readers g = 0" "\<not> holding g"
  shows "g = g OR WRITER_WAITING \<or> g = 0"
proof (cases "waiting g")
  case True
  have "g = g OR WRITER_WAITING"
    unfolding WRITER_WAITING_def
    by (rule bit_word_eqI) (use True in \<open>auto simp only: bit_simps, metis diff_is_0_eq le_antisym\<close>)
  then show ?thesis ..
next
  case False
  then show ?thesis using low_bits [OF assms(2)] assms(1) by (simp add: unat_eq_0)
qed

section \<open>Exclusion\<close>

definition reading :: "(nat \<Rightarrow> rw) \<Rightarrow> nat set" where
  "reading ls = {t. ls t = Reading}"

definition rw_inv :: "u32 \<Rightarrow> (nat \<Rightarrow> rw) \<Rightarrow> bool" where
  "rw_inv g ls \<longleftrightarrow>
     finite (reading ls) \<and> readers g = card (reading ls) \<and>
     (holding g \<longleftrightarrow> (\<exists>t. ls t = Writing)) \<and>
     (\<forall>t u. ls t = Writing \<longrightarrow> ls u = Writing \<longrightarrow> t = u) \<and>
     (holding g \<longrightarrow> reading ls = {})"

lemma reading_upd:
  "reading (ls(t := l)) = (if l = Reading then insert t (reading ls) else reading ls - {t})"
  by (auto simp: reading_def)

text \<open>A step that keeps the word and moves between states outside the lock.\<close>

lemma rw_inv_move:
  assumes "rw_inv g ls" "ls t \<notin> {Reading, Writing}" "l \<notin> {Reading, Writing}"
    "readers g' = readers g" "holding g' = holding g"
  shows "rw_inv g' (ls(t := l))"
proof -
  have "reading (ls(t := l)) = reading ls" using assms(2,3) by (auto simp: reading_def)
  moreover have "(ls(t := l)) u = Writing \<longleftrightarrow> ls u = Writing" for u using assms(2,3) by auto
  ultimately show ?thesis using assms(1,4,5) by (simp add: rw_inv_def)
qed

lemma rw_inv_enter_write:
  assumes "rw_inv g ls" "readers g = 0" "\<not> holding g"
  shows "rw_inv WRITER_HOLDING (ls(t := Writing))"
proof -
  have "reading ls = {}" using assms(1,2) by (auto simp: rw_inv_def)
  moreover have "ls u \<noteq> Writing" for u using assms(1,3) by (auto simp: rw_inv_def)
  ultimately show ?thesis by (auto simp: rw_inv_def reading_upd holding_parts)
qed

lemma rw_inv_step:
  assumes "rw_inv g ls" "rw_step ws t g (ls t) g' l'"
  shows "rw_inv g' (ls(t := l'))"
  using assms(2)
proof (cases rule: rw_step.cases)
  case (read_cas s r)
  show ?thesis
  proof (cases "g = s")
    case True
    with read_cas have g: "g' = s + 1" "l' = Reading"
      by (auto simp: read_exchange_def compare_exchange_def)
    have nh: "\<not> holding s" using read_cas(3) by (simp add: read_spins_iff)
    have "t \<notin> reading ls" using read_cas(1) by (simp add: reading_def)
    moreover have "ls u \<noteq> Writing" for u using assms(1) nh True by (auto simp: rw_inv_def)
    ultimately show ?thesis
      using assms(1) True g read_exchange_parts [OF read_cas(3)]
      by (auto simp: rw_inv_def reading_upd)
  next
    case False
    with read_cas show ?thesis
      by (auto simp: read_exchange_def compare_exchange_def intro: rw_inv_move [OF assms(1)])
  qed
next
  case read_done
  then have t: "t \<in> reading ls" by (simp add: reading_def)
  have fin: "finite (reading ls)" and n: "readers g = card (reading ls)"
    using assms(1) by (simp_all add: rw_inv_def)
  with t have "readers g \<noteq> 0" by auto
  note parts = read_drop_parts [OF this]
  have nh: "\<not> holding g" using assms(1) t by (auto simp: rw_inv_def)
  have "ls u \<noteq> Writing" for u using assms(1) nh by (auto simp: rw_inv_def)
  then show ?thesis
    using read_done parts nh fin n t by (auto simp: rw_inv_def reading_upd)
next
  case write_start
  then show ?thesis
    using write_announce_parts [of g] by (auto intro: rw_inv_move [OF assms(1)])
next
  case (write_cas s r)
  show ?thesis
  proof (cases "g = s OR WRITER_WAITING")
    case True
    have s: "readers s = 0" "\<not> holding s" using write_cas(3) by (simp_all add: write_spins_iff)
    have "readers g = 0" "\<not> holding g"
      using True s write_announce_parts [of s] by (simp_all add: write_announce_def)
    from rw_inv_enter_write [OF assms(1) this] show ?thesis
      using write_cas True by (auto simp: write_exchange_def compare_exchange_def)
  next
    case False
    with write_cas show ?thesis
      by (auto simp: write_exchange_def compare_exchange_def intro: rw_inv_move [OF assms(1)])
  qed
next
  case (write_cas_free r)
  show ?thesis
  proof (cases "g = 0")
    case True
    then have "readers g = 0" "\<not> holding g" by (simp_all add: readers_def)
    from rw_inv_enter_write [OF assms(1) this] show ?thesis
      using write_cas_free True by (auto simp: write_exchange_free_def compare_exchange_def)
  next
    case False
    with write_cas_free show ?thesis
      by (auto simp: write_exchange_free_def compare_exchange_def intro: rw_inv_move [OF assms(1)])
  qed
next
  case write_done
  then have hold: "holding g" "\<And>u. ls u = Writing \<Longrightarrow> u = t"
    using assms(1) by (auto simp: rw_inv_def)
  then have "reading ls = {}" using assms(1) by (simp add: rw_inv_def)
  then show ?thesis
    using assms(1) write_done hold write_drop_parts [of g] by (auto simp: rw_inv_def reading_upd)
qed (auto intro: rw_inv_move [OF assms(1)])

lemma rw_inv_reachable:
  assumes "reachable (rw_step ws) rw_init s"
  shows "rw_inv (shared s) (locals s)"
  using assms
proof (rule reachable_invariant [where I = rw_inv])
  show "rw_inv (shared rw_init) (locals rw_init)"
    by (simp add: rw_inv_def rw_init_def new_def reading_def readers_def)
qed (rule rw_inv_step)

text \<open>In every state that threads calling \<^verbatim>\<open>read\<close> and \<^verbatim>\<open>write\<close> and dropping their guards can
  reach, at most one thread holds the write guard, and then none holds a read guard; the low bits
  of the word count the read guards, so that dropping them never wraps around.\<close>

theorem rwlock_exclusion:
  assumes "reachable (rw_step ws) rw_init s"
  shows "(\<forall>t u. locals s t = Writing \<longrightarrow> locals s u = Writing \<longrightarrow> t = u) \<and>
    (\<forall>t u. locals s t = Writing \<longrightarrow> locals s u \<noteq> Reading) \<and>
    finite {t. locals s t = Reading} \<and> unat (shared s AND READER_MASK) = card {t. locals s t = Reading}"
  using rw_inv_reachable [OF assms] unfolding rw_inv_def reading_def readers_and by blast

lemma word_facts_rw:
  "write_announce 0 = WRITER_WAITING" "write_announce WRITER_WAITING = WRITER_WAITING"
  "write_drop WRITER_HOLDING = 0" "\<not> write_spins WRITER_WAITING" "\<not> read_spins 0"
  "write_exchange WRITER_WAITING WRITER_WAITING = (Inr WRITER_WAITING, WRITER_HOLDING)"
  "read_exchange 0 0 = (Inr 0, 1)"
  by (simp_all add: write_announce_def WRITER_WAITING_def WRITER_HOLDING_def write_drop_def
      write_spins_def read_spins_def READER_MASK_def write_exchange_def compare_exchange_def
      read_exchange_def)

theorem rwlock_exclusion_witness:
  "\<exists>s. reachable (rw_step {1}) rw_init s \<and> locals s 3 = Reading \<and> locals s 1 \<noteq> Writing \<and>
    unat (shared s AND READER_MASK) = card {t. locals s t = Reading}"
proof -
  let ?xs = "[(3, 0, R_loop), (3, 0, R_loaded 0), (3, 1, Reading)]"
  let ?s = "run_pool rw_init ?xs"
  have "legal (rw_step {1}) rw_init ?xs"
    by (simp add: rw_init_def new_def rw_step_from word_facts_rw)
  from legal_reachable [OF reachable.start this]
  have r: "reachable (rw_step {1}) rw_init ?s" .
  have "locals ?s 3 = Reading" "locals ?s 1 \<noteq> Writing" by (simp_all add: rw_init_def)
  with r rwlock_exclusion [OF r] show ?thesis by blast
qed

section \<open>Writer priority\<close>

text \<open>A writer that has announced itself and does not hold the lock yet.\<close>

definition awaiting :: "rw \<Rightarrow> bool" where
  "awaiting l \<longleftrightarrow> l = W_loop \<or> (\<exists>s. l = W_loaded s) \<or> l = W_second"

definition writer_state :: "rw \<Rightarrow> bool" where
  "writer_state l \<longleftrightarrow> awaiting l \<or> l = Writing"

text \<open>With one writer the announcement stays in the word until that writer has the lock.\<close>

definition prio_inv :: "nat \<Rightarrow> u32 \<Rightarrow> (nat \<Rightarrow> rw) \<Rightarrow> bool" where
  "prio_inv w g ls \<longleftrightarrow>
     rw_inv g ls \<and> (\<forall>t. t \<noteq> w \<longrightarrow> \<not> writer_state (ls t)) \<and> (awaiting (ls w) \<longrightarrow> waiting g)"

lemma prio_inv_step:
  assumes "prio_inv w g ls" "rw_step {w} t g (ls t) g' l'"
  shows "prio_inv w g' (ls(t := l'))"
proof -
  have inv: "rw_inv g' (ls(t := l'))"
    using assms rw_inv_step by (auto simp: prio_inv_def)
  have others: "\<And>u. u \<noteq> w \<Longrightarrow> \<not> writer_state (ls u)" and aw: "awaiting (ls w) \<Longrightarrow> waiting g"
    and rinv: "rw_inv g ls"
    using assms(1) by (auto simp: prio_inv_def)
  have "(\<forall>u. u \<noteq> w \<longrightarrow> \<not> writer_state ((ls(t := l')) u)) \<and>
      (awaiting ((ls(t := l')) w) \<longrightarrow> waiting g')"
    using assms(2)
  proof (cases rule: rw_step.cases)
    case read_done
    then have "t \<in> reading ls" by (simp add: reading_def)
    then have "readers g \<noteq> 0" using rinv by (auto simp: rw_inv_def)
    note read_drop_parts(3) [OF this]
    with read_done others aw show ?thesis by (auto simp: writer_state_def awaiting_def)
  next
    case write_start
    with others write_announce_parts(3) [of g] show ?thesis by (auto simp: writer_state_def awaiting_def)
  next
    case (read_cas s r)
    then have "g' \<noteq> g \<Longrightarrow> \<not> waiting g"
      by (auto simp: read_exchange_def compare_exchange_def read_spins_iff split: if_splits)
    with read_cas others aw show ?thesis
      by (cases "g' = g") (auto simp: writer_state_def awaiting_def)
  next
    case (write_cas s r)
    then have "t = w" using others by (auto simp: writer_state_def awaiting_def)
    with write_cas others aw show ?thesis
      by (auto simp: write_exchange_def compare_exchange_def writer_state_def awaiting_def split: if_splits)
  next
    case (write_cas_free r)
    then have "t = w" using others by (auto simp: writer_state_def awaiting_def)
    with write_cas_free others aw show ?thesis
      by (auto simp: write_exchange_free_def compare_exchange_def writer_state_def awaiting_def
          split: if_splits)
  next
    case write_load
    then have "t = w" using others by (auto simp: writer_state_def awaiting_def)
    with write_load others aw show ?thesis by (auto simp: writer_state_def awaiting_def)
  next
    case (write_spin s)
    then have "t = w" using others by (auto simp: writer_state_def awaiting_def)
    with write_spin others aw show ?thesis by (auto simp: writer_state_def awaiting_def)
  next
    case write_done
    then have "t = w" using others by (auto simp: writer_state_def)
    with write_done others show ?thesis by (auto simp: writer_state_def awaiting_def)
  qed (use others aw in \<open>auto simp: writer_state_def awaiting_def\<close>)
  with inv show ?thesis by (simp add: prio_inv_def)
qed

text \<open>C24: with a single writer thread, once it has announced itself no thread gets a read guard before
  it has had the write guard: no step then adds a reader.\<close>

theorem rwlock_writer_priority:
  assumes "reachable (rw_step {w}) rw_init s" "awaiting (locals s w)" "pool_step (rw_step {w}) s s'"
  shows "{t. locals s' t = Reading} \<subseteq> {t. locals s t = Reading}"
proof -
  have "prio_inv w (shared s) (locals s)"
    using assms(1)
  proof (rule reachable_invariant [where I = "prio_inv w"])
    show "prio_inv w (shared rw_init) (locals rw_init)"
      by (simp add: prio_inv_def rw_inv_def rw_init_def new_def reading_def readers_def
          writer_state_def awaiting_def)
  qed (rule prio_inv_step)
  then have wt: "waiting (shared s)" using assms(2) by (simp add: prio_inv_def)
  from assms(3) show ?thesis
  proof cases
    case (step t g' l')
    have "l' = Reading \<Longrightarrow> locals s t = Reading"
      using step(2) wt
      by (cases rule: rw_step.cases)
        (auto simp: read_exchange_def compare_exchange_def read_spins_iff split: if_splits)
    then show ?thesis using step(1) by auto
  qed
qed

theorem rwlock_writer_priority_witness:
  "\<exists>s s'. reachable (rw_step {1}) rw_init s \<and> pool_step (rw_step {1}) s s' \<and>
    {t. locals s' t = Reading} \<subseteq> {t. locals s t = Reading}"
proof -
  let ?s = "run_pool rw_init [(1, WRITER_WAITING, W_loop)]"
  have "legal (rw_step {1}) rw_init [(1, WRITER_WAITING, W_loop)]"
    by (simp add: rw_init_def new_def rw_step_from word_facts_rw)
  from legal_reachable [OF reachable.start this]
  have r: "reachable (rw_step {1}) rw_init ?s" .
  have "rw_step {1} 3 (shared ?s) (locals ?s 3) (shared ?s) R_loop"
    by (simp add: rw_init_def rw_step_from)
  then have st: "pool_step (rw_step {1}) ?s \<lparr>shared = shared ?s, locals = (locals ?s)(3 := R_loop)\<rparr>"
    by (rule pool_step.step)
  have "awaiting (locals ?s 1)" by (simp add: rw_init_def awaiting_def)
  from rwlock_writer_priority [OF r this st] r st show ?thesis by blast
qed

text \<open>A run with two writers and a reader: writer 1 takes the lock while writer 2 waits, and by
  taking and dropping it clears the announcement of both; reader 3 then gets in before writer 2.\<close>

definition overtaking :: "(nat \<times> u32 \<times> rw) list" where
  "overtaking =
    [(1, WRITER_WAITING, W_loop), (2, WRITER_WAITING, W_loop),
     (1, WRITER_WAITING, W_loaded WRITER_WAITING), (1, WRITER_HOLDING, Writing), (1, 0, Idle),
     (3, 0, R_loop), (3, 0, R_loaded 0), (3, 1, Reading)]"

text \<open>C25: with two writers the announcement is lost: there is a reachable state in which a reader has
  entered although writer 2 announced itself before and still waits.\<close>

theorem rwlock_priority_lost:
  "\<exists>s. reachable (rw_step {1, 2}) rw_init s \<and> awaiting (locals s 2) \<and> \<not> waiting (shared s) \<and>
    locals s 3 = Reading"
proof -
  have "legal (rw_step {1, 2}) rw_init overtaking"
    by (simp add: overtaking_def rw_init_def new_def rw_step_from word_facts_rw)
  from legal_reachable [OF reachable.start this]
  have "reachable (rw_step {1, 2}) rw_init (run_pool rw_init overtaking)" .
  moreover have "awaiting (locals (run_pool rw_init overtaking) 2)"
    "locals (run_pool rw_init overtaking) 3 = Reading" "shared (run_pool rw_init overtaking) = 1"
    by (simp_all add: overtaking_def rw_init_def awaiting_def)
  ultimately show ?thesis by (intro exI conjI) simp_all
qed

end
