(* ===== verification/RwLockClient.thy ===== *)
theory RwLockClient
  imports RwLock
begin

text \<open>
  The data behind the read-write lock, and what the guards of
  \<^verbatim>\<open>exercises/03_os_concurrency/05_rwlock/src/lib.rs\<close> promise about it. The threads make the atomic
  steps of theory RwLock on the lock word; between them, through a guard, they look at the data and,
  through a write guard, change it.
\<close>

section \<open>The guards\<close>

record 'd rw_data =
  word :: u32
  data :: 'd

text \<open>A thread: where it is in the protocol of the lock, and the last value it has seen through the
  guard it holds.\<close>

record 'd rw_thread =
  at :: rw
  seen :: "'d option"

definition new_lock :: "'d \<Rightarrow> 'd rw_data" where
  "new_lock d = \<lparr>word = new, data = d\<rparr>"

definition read_deref :: "'d rw_data \<Rightarrow> 'd" where
  "read_deref g = data g"

definition write_deref :: "'d rw_data \<Rightarrow> 'd" where
  "write_deref g = data g"

definition write_deref_mut :: "('d \<Rightarrow> 'd) \<Rightarrow> 'd rw_data \<Rightarrow> 'd rw_data" where
  "write_deref_mut f g = g\<lparr>data := f (data g)\<rparr>"

lemmas guard_defs = read_deref_def write_deref_def write_deref_mut_def

text \<open>Thread \<open>t\<close> writes what it computes, \<open>f t\<close>, from the value it has seen: a look and a store, between which
  others may run.\<close>

inductive guarded_step ::
  "nat set \<Rightarrow> (nat \<Rightarrow> 'd \<Rightarrow> 'd) \<Rightarrow> ('d rw_data, 'd rw_thread) thread_step" for writers f where
  lock: "rw_step writers t (word g) (at l) w pc \<Longrightarrow>
    guarded_step writers f t g l (g\<lparr>word := w\<rparr>) \<lparr>at = pc, seen = None\<rparr>"
| deref: "at l = Reading \<Longrightarrow> guarded_step writers f t g l g (l\<lparr>seen := Some (read_deref g)\<rparr>)"
| deref_write: "at l = Writing \<Longrightarrow> guarded_step writers f t g l g (l\<lparr>seen := Some (write_deref g)\<rparr>)"
| deref_mut: "at l = Writing \<Longrightarrow> seen l = Some d \<Longrightarrow>
    guarded_step writers f t g l (write_deref_mut (\<lambda>_. f t d) g) (l\<lparr>seen := Some (f t d)\<rparr>)"

definition guarded_init :: "'d \<Rightarrow> ('d rw_data, 'd rw_thread) pool" where
  "guarded_init d = \<lparr>shared = new_lock d, locals = (\<lambda>_. \<lparr>at = Idle, seen = None\<rparr>)\<rparr>"

section \<open>What the guards promise\<close>

definition guarded_inv :: "'d rw_data \<Rightarrow> (nat \<Rightarrow> 'd rw_thread) \<Rightarrow> bool" where
  "guarded_inv g ls \<longleftrightarrow>
     rw_inv (word g) (\<lambda>t. at (ls t)) \<and>
     (\<forall>t d. seen (ls t) = Some d \<longrightarrow> at (ls t) \<in> {Reading, Writing} \<and> d = data g)"

lemma at_upd: "(\<lambda>u. at ((ls(t := l)) u)) = (\<lambda>u. at (ls u))(t := at l)"
  by auto

lemma guarded_inv_step:
  assumes inv: "guarded_inv g ls" and st: "guarded_step ws f t g (ls t) g' l'"
  shows "guarded_inv g' (ls(t := l'))"
  using st
proof (cases rule: guarded_step.cases)
  case (lock w pc)
  then show ?thesis
    using inv rw_inv_step [of "word g" "\<lambda>t. at (ls t)" ws t w pc] unfolding guarded_inv_def at_upd by auto
next
  case deref
  then show ?thesis
    using inv unfolding guarded_inv_def at_upd by (auto simp: guard_defs fun_upd_idem)
next
  case deref_write
  then show ?thesis
    using inv unfolding guarded_inv_def at_upd by (auto simp: guard_defs fun_upd_idem)
next
  case (deref_mut d)
  have "at (ls u) \<notin> {Reading, Writing}" if "u \<noteq> t" for u
    using inv deref_mut(3) that by (force simp: guarded_inv_def rw_inv_def reading_def)
  then have "seen (ls u) = None" if "u \<noteq> t" for u
    using inv that unfolding guarded_inv_def by (metis not_None_eq)
  then show ?thesis
    using inv deref_mut unfolding guarded_inv_def at_upd by (auto simp: guard_defs fun_upd_idem)
qed

lemma guarded_inv_reachable:
  assumes "reachable (guarded_step ws f) (guarded_init d) s"
  shows "guarded_inv (shared s) (locals s)"
  using assms
proof (rule reachable_invariant [where I = guarded_inv])
  show "guarded_inv (shared (guarded_init d)) (locals (guarded_init d))"
    by (simp add: guarded_inv_def rw_inv_def guarded_init_def new_lock_def new_def reading_def readers_def)
qed (rule guarded_inv_step)

text \<open>C12: In every interleaving of threads that read and write under the lock, at most one holds the write
  guard, and then none a read guard; the low bits of the word count the read guards; and what a thread
  has seen through its guard stays the data for as long as it holds the guard, so that readers see no
  change and no writer stores from a stale value.\<close>

theorem rwlock_guards_protect:
  assumes "reachable (guarded_step ws f) (guarded_init d) s"
  shows "(\<forall>t u. at (locals s t) = Writing \<longrightarrow> at (locals s u) \<in> {Reading, Writing} \<longrightarrow> t = u) \<and>
    unat (word (shared s) AND READER_MASK) = card {t. at (locals s t) = Reading} \<and>
    (\<forall>t x. seen (locals s t) = Some x \<longrightarrow> x = data (shared s))"
proof -
  have inv: "guarded_inv (shared s) (locals s)" by (rule guarded_inv_reachable [OF assms])
  then have "unat (word (shared s) AND READER_MASK) = card {t. at (locals s t) = Reading}"
    by (simp add: guarded_inv_def rw_inv_def readers_and reading_def)
  moreover have "t = u" if "at (locals s t) = Writing" "at (locals s u) \<in> {Reading, Writing}" for t u
    using inv that by (force simp: guarded_inv_def rw_inv_def reading_def)
  ultimately show ?thesis using inv by (auto simp: guarded_inv_def)
qed

theorem rwlock_guards_protect_witness:
  "\<exists>s. reachable (guarded_step {1} (\<lambda>_. Suc)) (guarded_init 7) s \<and> at (locals s 3) = Reading \<and>
    seen (locals s 3) = Some 7 \<and> data (shared s) = 7"
proof -
  let ?g = "\<lambda>w. \<lparr>word = w, data = 7 :: nat\<rparr>"
  let ?xs = "[(3, ?g 0, \<lparr>at = R_loop, seen = None\<rparr>), (3, ?g 0, \<lparr>at = R_loaded 0, seen = None\<rparr>),
    (3, ?g 1, \<lparr>at = Reading, seen = None\<rparr>), (3, ?g 1, \<lparr>at = Reading, seen = Some 7\<rparr>)]"
  let ?s = "run_pool (guarded_init 7) ?xs"
  have "legal (guarded_step {1} (\<lambda>_. Suc)) (guarded_init 7) ?xs"
    by (simp add: guarded_init_def new_lock_def new_def guarded_step.simps rw_step_from word_facts_rw guard_defs)
  from legal_reachable [OF reachable.start this]
  have r: "reachable (guarded_step {1} (\<lambda>_. Suc)) (guarded_init 7) ?s" .
  have "at (locals ?s 3) = Reading" "seen (locals ?s 3) = Some 7" by (simp_all add: guarded_init_def)
  moreover have "data (shared ?s) = 7"
    using rwlock_guards_protect [OF r] \<open>seen (locals ?s 3) = Some 7\<close> by metis
  ultimately show ?thesis using r by blast
qed

end
