(* ===== verification/ForkJoin.thy ===== *)
theory ForkJoin
  imports Prelude
begin

text \<open>
  The shape of most of the concurrent exercises: a main thread starts \<open>n\<close> tasks and then joins them in
  the order in which it started them, taking their results, while they run in any interleaving. The
  steps of a task are a parameter. The theory proves once what the exercises rely on: when the
  tasks keep an invariant and can always go on, the main thread gets all their results, in order,
  and always gets to the end.
\<close>

section \<open>The system\<close>

datatype ('l, 'r) task = Absent | Alive 'l | Ended "'r res"

datatype 'r main = Spawning nat | Joining "'r list" | Joined "'r list" | Main_panicked

record ('g, 'l, 'r) fj =
  mem :: 'g
  tasks :: "nat \<Rightarrow> ('l, 'r) task"
  main :: "'r main"

type_synonym ('g, 'l, 'r) task_step = "nat \<Rightarrow> 'g \<Rightarrow> 'l \<Rightarrow> 'g \<Rightarrow> ('l, 'r) task \<Rightarrow> bool"

text \<open>\<^verbatim>\<open>join().unwrap()\<close> of a task that has panicked panics.\<close>

inductive fj_step ::
  "('g, 'l, 'r) task_step \<Rightarrow> (nat \<Rightarrow> 'l) \<Rightarrow> nat \<Rightarrow> ('g, 'l, 'r) fj \<Rightarrow> ('g, 'l, 'r) fj \<Rightarrow> bool"
  for tstep begin_at n where
  spawn: "main s = Spawning i \<Longrightarrow> i < n \<Longrightarrow>
    fj_step tstep begin_at n s
      (s\<lparr>main := Spawning (Suc i), tasks := (tasks s)(i := Alive (begin_at i))\<rparr>)"
| spawned: "main s = Spawning n \<Longrightarrow> fj_step tstep begin_at n s (s\<lparr>main := Joining []\<rparr>)"
| run: "tasks s i = Alive l \<Longrightarrow> tstep i (mem s) l g' t' \<Longrightarrow>
    fj_step tstep begin_at n s (s\<lparr>mem := g', tasks := (tasks s)(i := t')\<rparr>)"
| join: "main s = Joining rs \<Longrightarrow> length rs < n \<Longrightarrow> tasks s (length rs) = Ended (Inr r) \<Longrightarrow>
    fj_step tstep begin_at n s (s\<lparr>main := Joining (rs @ [r])\<rparr>)"
| join_panic: "main s = Joining rs \<Longrightarrow> length rs < n \<Longrightarrow> tasks s (length rs) = Ended (Inl e) \<Longrightarrow>
    fj_step tstep begin_at n s (s\<lparr>main := Main_panicked\<rparr>)"
| joined: "main s = Joining rs \<Longrightarrow> length rs = n \<Longrightarrow> fj_step tstep begin_at n s (s\<lparr>main := Joined rs\<rparr>)"

definition fj_init :: "'g \<Rightarrow> ('g, 'l, 'r) fj" where
  "fj_init g = \<lparr>mem = g, tasks = (\<lambda>_. Absent), main = Spawning 0\<rparr>"

section \<open>The contract of the tasks\<close>

locale fork_join =
  fixes tstep :: "('g, 'l, 'r) task_step"
    and begin_at :: "nat \<Rightarrow> 'l"
    and n :: nat
    and inv :: "'g \<Rightarrow> (nat \<Rightarrow> ('l, 'r) task) \<Rightarrow> bool"
    and ok :: "nat \<Rightarrow> 'r \<Rightarrow> bool"
    and rank :: "'l \<Rightarrow> nat"
  assumes spawn_inv: "inv g ts \<Longrightarrow> i < n \<Longrightarrow> ts i = Absent \<Longrightarrow> inv g (ts(i := Alive (begin_at i)))"
    and step_inv: "inv g ts \<Longrightarrow> ts i = Alive l \<Longrightarrow> tstep i g l g' t' \<Longrightarrow> inv g' (ts(i := t'))"
    and step_task: "inv g ts \<Longrightarrow> ts i = Alive l \<Longrightarrow> tstep i g l g' t' \<Longrightarrow>
      (\<exists>l'. t' = Alive l' \<and> rank l' < rank l) \<or> (\<exists>r. t' = Ended (Inr r) \<and> ok i r)"
    and progress: "inv g ts \<Longrightarrow> ts i = Alive l \<Longrightarrow> \<exists>j lj g' t'. ts j = Alive lj \<and> tstep j g lj g' t'"
begin

definition fj_inv :: "('g, 'l, 'r) fj \<Rightarrow> bool" where
  "fj_inv s \<longleftrightarrow>
     inv (mem s) (tasks s) \<and>
     (\<forall>j x. tasks s j = Ended x \<longrightarrow> (\<exists>r. x = Inr r \<and> ok j r)) \<and>
     (case main s of
        Spawning i \<Rightarrow> i \<le> n \<and> (\<forall>j. tasks s j = Absent \<longleftrightarrow> i \<le> j)
      | Joining rs \<Rightarrow> length rs \<le> n \<and> (\<forall>j. tasks s j = Absent \<longleftrightarrow> n \<le> j) \<and>
          (\<forall>j < length rs. tasks s j = Ended (Inr (rs ! j)))
      | Joined rs \<Rightarrow> length rs = n \<and> (\<forall>j. tasks s j = Absent \<longleftrightarrow> n \<le> j) \<and>
          (\<forall>j < n. tasks s j = Ended (Inr (rs ! j)))
      | Main_panicked \<Rightarrow> False)"

text \<open>A task that is alive has been started, and is not among those that have been joined.\<close>

lemma fj_inv_alive:
  assumes "fj_inv s" "tasks s i = Alive l"
  shows "i < n" and "main s = Spawning k \<Longrightarrow> i < k"
    and "main s = Joining rs \<Longrightarrow> length rs \<le> i" and "main s \<noteq> Joined rs"
proof -
  have started: "tasks s i \<noteq> Absent" and alive: "\<And>x. tasks s i \<noteq> Ended x" using assms(2) by simp_all
  show "main s = Spawning k \<Longrightarrow> i < k" using assms(1) started by (simp add: fj_inv_def not_le [symmetric])
  show "main s = Joining rs \<Longrightarrow> length rs \<le> i"
    using assms(1) alive by (simp add: fj_inv_def) (meson not_le)
  show "i < n"
  proof (rule ccontr)
    assume "\<not> i < n"
    then have "tasks s i = Absent" using assms(1) by (cases "main s") (auto simp: fj_inv_def)
    then show False using started by simp
  qed
  then have "main s = Joined rs \<Longrightarrow> tasks s i = Ended (Inr (rs ! i))"
    using assms(1) by (simp add: fj_inv_def)
  then show "main s \<noteq> Joined rs" using assms(2) by auto
qed

lemma fj_inv_step:
  assumes "fj_inv s" "fj_step tstep begin_at n s s'"
  shows "fj_inv s'"
  using assms(2)
proof (cases rule: fj_step.cases)
  case (spawn i)
  then show ?thesis using assms(1) spawn_inv [of "mem s" "tasks s" i] by (auto simp: fj_inv_def)
next
  case spawned
  then show ?thesis using assms(1) by (auto simp: fj_inv_def)
next
  case (run i l g' t')
  have inv: "inv (mem s) (tasks s)" using assms(1) by (simp add: fj_inv_def)
  from step_task [OF inv run(2,3)] have t': "t' \<noteq> Absent" "\<And>x. t' = Ended x \<Longrightarrow> \<exists>r. x = Inr r \<and> ok i r"
    by auto
  note alive = fj_inv_alive [OF assms(1) run(2)]
  have "\<not> n \<le> i" "\<And>k. main s = Spawning k \<Longrightarrow> \<not> k \<le> i" "\<And>rs. main s = Joining rs \<Longrightarrow> \<not> i < length rs"
    using alive by (simp_all add: not_le not_less)
  then show ?thesis using assms(1) run t' alive(4) step_inv [OF inv run(2,3)]
    unfolding fj_inv_def by (cases "main s") (auto simp: fun_upd_def)
next
  case (join rs r)
  then show ?thesis using assms(1) by (auto simp: fj_inv_def nth_append less_Suc_eq)
next
  case (join_panic rs e)
  then show ?thesis using assms(1) by (auto simp: fj_inv_def)
next
  case (joined rs)
  then show ?thesis using assms(1) by (auto simp: fj_inv_def)
qed

lemma fj_inv_init: "inv g (\<lambda>_. Absent) \<Longrightarrow> fj_inv (fj_init g)"
  by (simp add: fj_inv_def fj_init_def)

lemma fj_inv_steps: "(fj_step tstep begin_at n)\<^sup>*\<^sup>* s s' \<Longrightarrow> fj_inv s \<Longrightarrow> fj_inv s'"
  by (induction rule: rtranclp_induct) (auto intro: fj_inv_step)

text \<open>What the main thread has when it has joined the tasks.\<close>

lemma joined_results:
  assumes "fj_inv s" "main s = Joined rs"
  shows "length rs = n" and "\<And>i. i < n \<Longrightarrow> ok i (rs ! i) \<and> tasks s i = Ended (Inr (rs ! i))"
    and "inv (mem s) (tasks s)" and "\<And>i. n \<le> i \<Longrightarrow> tasks s i = Absent"
  using assms by (auto simp: fj_inv_def)

text \<open>Every step goes down in this measure, so that no run is endless.\<close>

definition task_rank :: "nat \<Rightarrow> ('l, 'r) task \<Rightarrow> nat" where
  "task_rank i t = (case t of Absent \<Rightarrow> rank (begin_at i) + 2 | Alive l \<Rightarrow> rank l + 1 | Ended x \<Rightarrow> 0)"

definition main_rank :: "'r main \<Rightarrow> nat" where
  "main_rank m = (case m of Spawning i \<Rightarrow> n + 2 | Joining rs \<Rightarrow> n - length rs + 1 | _ \<Rightarrow> 0)"

definition fj_rank :: "('g, 'l, 'r) fj \<Rightarrow> nat" where
  "fj_rank s = (\<Sum>i<n. task_rank i (tasks s i)) + main_rank (main s)"

lemma rank_upd:
  assumes "i < n" "task_rank i t < task_rank i (ts i)"
  shows "(\<Sum>j<n. task_rank j ((ts(i := t)) j)) < (\<Sum>j<n. task_rank j (ts j))"
  by (rule sum_strict_mono_ex1) (use assms in auto)

lemma fj_rank_step:
  assumes "fj_inv s" "fj_step tstep begin_at n s s'"
  shows "fj_rank s' < fj_rank s"
  using assms(2)
proof (cases rule: fj_step.cases)
  case (spawn i)
  then have "tasks s i = Absent" using assms(1) by (auto simp: fj_inv_def)
  then show ?thesis using spawn rank_upd [of i "Alive (begin_at i)" "tasks s"]
    by (simp add: fj_rank_def main_rank_def task_rank_def)
next
  case (run i l g' t')
  have inv: "inv (mem s) (tasks s)" using assms(1) by (simp add: fj_inv_def)
  have "task_rank i t' < task_rank i (tasks s i)"
    using step_task [OF inv run(2,3)] run(2) by (auto simp: task_rank_def)
  moreover have "i < n" by (rule fj_inv_alive [OF assms(1) run(2)])
  ultimately show ?thesis using run(1) rank_upd [of i t' "tasks s"] by (simp add: fj_rank_def)
qed (auto simp: fj_rank_def main_rank_def)

text \<open>Unless the main thread is through, some step is possible.\<close>

lemma fj_progress:
  assumes "fj_inv s" "\<And>rs. main s \<noteq> Joined rs"
  shows "\<exists>s'. fj_step tstep begin_at n s s'"
proof (cases "main s")
  case (Spawning i)
  then show ?thesis using assms(1) fj_step.spawn [OF Spawning, of n] fj_step.spawned [of s n]
    by (cases "i < n") (auto simp: fj_inv_def)
next
  case (Joining rs)
  show ?thesis
  proof (cases "length rs < n")
    case True
    then have "tasks s (length rs) \<noteq> Absent" using assms(1) Joining by (auto simp: fj_inv_def)
    then consider l where "tasks s (length rs) = Alive l" | r where "tasks s (length rs) = Ended (Inr r)"
      using assms(1) by (cases "tasks s (length rs)") (auto simp: fj_inv_def)
    then show ?thesis
    proof cases
      case 1
      have "inv (mem s) (tasks s)" using assms(1) by (simp add: fj_inv_def)
      from progress [OF this 1] obtain j lj g' t' where "tasks s j = Alive lj" "tstep j (mem s) lj g' t'"
        by blast
      from fj_step.run [where tstep = tstep, OF this] show ?thesis by blast
    next
      case 2
      from fj_step.join [OF Joining True this] show ?thesis by blast
    qed
  next
    case False
    then have "length rs = n" using assms(1) Joining by (simp add: fj_inv_def)
    from fj_step.joined [OF Joining this] show ?thesis by blast
  qed
qed (use assms in \<open>auto simp: fj_inv_def\<close>)

lemma fj_finishes: "fj_inv s \<Longrightarrow> \<exists>s' rs. (fj_step tstep begin_at n)\<^sup>*\<^sup>* s s' \<and> main s' = Joined rs"
proof (induction "fj_rank s" arbitrary: s rule: less_induct)
  case less
  show ?case
  proof (cases "\<exists>rs. main s = Joined rs")
    case False
    then obtain s1 where s1: "fj_step tstep begin_at n s s1" using fj_progress [OF less.prems] by blast
    from less.hyps [OF fj_rank_step [OF less.prems s1] fj_inv_step [OF less.prems s1]] s1
    show ?thesis by (meson converse_rtranclp_into_rtranclp)
  qed blast
qed

end

section \<open>Tasks that share nothing\<close>

text \<open>A runtime that runs tasks: a task submitted to compute \<open>x\<close> can always go on, has it as its result
  when it ends, and ends after finitely many steps.\<close>

locale task_runtime =
  fixes submit :: "'r res \<Rightarrow> 'l"
    and tstep :: "('g, 'l, 'r) task_step"
    and computes :: "'l \<Rightarrow> 'r res"
    and rank :: "'l \<Rightarrow> nat"
  assumes submitted: "computes (submit x) = x"
    and runs: "tstep i g l g' t' \<Longrightarrow>
      (\<exists>l'. t' = Alive l' \<and> computes l' = computes l \<and> rank l' < rank l) \<or> t' = Ended (computes l)"
    and goes_on: "\<exists>g' t'. tstep i g l g' t'"
begin

definition group_inv :: "(nat \<Rightarrow> 'r) \<Rightarrow> 'g \<Rightarrow> (nat \<Rightarrow> ('l, 'r) task) \<Rightarrow> bool" where
  "group_inv f g ts \<longleftrightarrow> (\<forall>i l. ts i = Alive l \<longrightarrow> computes l = Inr (f i))"

lemma group_fork_join:
  assumes "\<And>i. i < n \<Longrightarrow> body i = Inr (f i)"
  shows "fork_join tstep (\<lambda>i. submit (body i)) n (group_inv f) (\<lambda>i r. r = f i) rank"
proof
  show "group_inv f g (ts(i := Alive (submit (body i))))" if "group_inv f g ts" "i < n" for g ts i
    using that assms by (simp add: group_inv_def submitted)
  show "group_inv f g' (ts(i := t'))" if "group_inv f g ts" "ts i = Alive l" "tstep i g l g' t'"
    for g ts i l g' t'
    using that runs [OF that(3)] by (auto simp: group_inv_def)
  show "(\<exists>l'. t' = Alive l' \<and> rank l' < rank l) \<or> (\<exists>r. t' = Ended (Inr r) \<and> r = f i)"
    if "group_inv f g ts" "ts i = Alive l" "tstep i g l g' t'" for g ts i l g' t'
    using that runs [OF that(3)] by (auto simp: group_inv_def)
qed (use goes_on in blast)

text \<open>Tasks that do not panic are all joined, with their results in the order of their start.\<close>

lemma group_results:
  assumes body: "\<And>i. i < n \<Longrightarrow> body i = Inr (f i)"
    and "(fj_step tstep (\<lambda>i. submit (body i)) n)\<^sup>*\<^sup>* (fj_init g) s"
  shows "main s = Joined rs \<Longrightarrow> rs = map f [0..<n]"
    and "\<exists>s' rs. (fj_step tstep (\<lambda>i. submit (body i)) n)\<^sup>*\<^sup>* s s' \<and> main s' = Joined rs"
proof -
  let ?fj = "fork_join.fj_inv n (group_inv f) (\<lambda>i r. r = f i)"
  note fj = group_fork_join [of n body f, OF body]
  have "?fj s"
    using fork_join.fj_inv_steps [OF fj assms(2)] fork_join.fj_inv_init [OF fj, of g]
    by (simp add: group_inv_def)
  then show "main s = Joined rs \<Longrightarrow> rs = map f [0..<n]"
    and "\<exists>s' rs. (fj_step tstep (\<lambda>i. submit (body i)) n)\<^sup>*\<^sup>* s s' \<and> main s' = Joined rs"
    using fork_join.joined_results(1,2) [OF fj] fork_join.fj_finishes [OF fj, of s]
    by (auto intro!: nth_equalityI)
qed

end

end
