(* ===== verification/MutexCounter.thy ===== *)
theory MutexCounter
  imports ForkJoin "HOL-Library.Multiset"
begin

text \<open>
  \<^verbatim>\<open>exercises/01_concurrency_sync/02_mutex_counter/src/lib.rs\<close>: threads that update data behind a
  \<^verbatim>\<open>Mutex\<close>. The threads run in any interleaving of taking the lock, the update, and dropping the
  guard; a panic while the guard is held poisons the mutex.
\<close>

section \<open>Threads and their mutex\<close>

record 'd mutex =
  holder :: "nat option"
  poisoned :: bool
  contents :: 'd

definition new_mutex :: "'d \<Rightarrow> 'd mutex" where
  "new_mutex d = \<lparr>holder = None, poisoned = False, contents = d\<rparr>"

text \<open>\<^verbatim>\<open>*m.lock().unwrap()\<close> by a thread that has the mutex for itself.\<close>

definition lock_unwrap :: "'d mutex \<Rightarrow> 'd res" where
  "lock_unwrap m = (if poisoned m then Inl UnwrapNone else Inr (contents m))"

text \<open>A thread with \<open>k\<close> rounds of its loop to go: at the top of the loop, with the guard, and with the
  update done and the guard still held. \<open>op i\<close> is the update of thread \<open>i\<close>.\<close>

datatype worker = Looping nat | Holding nat | Updated nat

inductive worker_step :: "(nat \<Rightarrow> 'd \<Rightarrow> 'd res) \<Rightarrow> ('d mutex, worker, unit) task_step"
  for op where
  lock: "holder g = None \<Longrightarrow> \<not> poisoned g \<Longrightarrow>
    worker_step op i g (Looping (Suc k)) (g\<lparr>holder := Some i\<rparr>) (Alive (Holding k))"
| lock_poisoned: "holder g = None \<Longrightarrow> poisoned g \<Longrightarrow>
    worker_step op i g (Looping (Suc k)) g (Ended (Inl UnwrapNone))"
| update: "op i (contents g) = Inr d \<Longrightarrow>
    worker_step op i g (Holding k) (g\<lparr>contents := d\<rparr>) (Alive (Updated k))"
| update_panic: "op i (contents g) = Inl e \<Longrightarrow>
    worker_step op i g (Holding k) (g\<lparr>holder := None, poisoned := True\<rparr>) (Ended (Inl e))"
| unlock: "worker_step op i g (Updated k) (g\<lparr>holder := None\<rparr>) (Alive (Looping k))"
| finish: "worker_step op i g (Looping 0) g (Ended (Inr ()))"

inductive_cases worker_stepE:
  "worker_step op i g (Looping k) g' t'"
  "worker_step op i g (Holding k) g' t'"
  "worker_step op i g (Updated k) g' t'"

text \<open>\<^verbatim>\<open>concurrent_counter\<close>: the update is \<^verbatim>\<open>*num += 1\<close>. \<open>run_threads\<close>: the states the program can get to.\<close>

definition count_op :: "bool \<Rightarrow> nat \<Rightarrow> usize \<Rightarrow> usize res" where
  "count_op ck i num = add_ck ck num 1"

definition run_threads ::
  "(nat \<Rightarrow> 'd \<Rightarrow> 'd res) \<Rightarrow> nat \<Rightarrow> nat \<Rightarrow> ('d mutex, worker, unit) fj \<Rightarrow> ('d mutex, worker, unit) fj \<Rightarrow> bool"
where
  "run_threads op n_threads rounds =
     (fj_step (worker_step op) (\<lambda>_. Looping rounds) n_threads)\<^sup>*\<^sup>*"

definition concurrent_counter ::
  "bool \<Rightarrow> nat \<Rightarrow> nat \<Rightarrow> (usize mutex, worker, unit) fj \<Rightarrow> bool"
where
  "concurrent_counter ck n_threads count_per_thread =
     run_threads (count_op ck) n_threads count_per_thread (fj_init (new_mutex 0))"

text \<open>\<^verbatim>\<open>concurrent_collect\<close>: thread \<open>i\<close> pushes its number, once; the result is sorted.\<close>

definition push_op :: "nat \<Rightarrow> nat list \<Rightarrow> nat list res" where
  "push_op i vec = Inr (vec @ [i])"

definition concurrent_collect :: "nat \<Rightarrow> (nat list mutex, worker, unit) fj \<Rightarrow> bool" where
  "concurrent_collect n_threads = run_threads push_op n_threads 1 (fj_init (new_mutex []))"

definition collect_result :: "nat list mutex \<Rightarrow> nat list res" where
  "collect_result m = bind_res (lock_unwrap m) (\<lambda>vec. Inr (sort vec))"

section \<open>Updates that do not get in each other's way\<close>

text \<open>The contract of the updates: \<open>R f d\<close> says that the data is \<open>d\<close> when thread \<open>i\<close> has made \<open>f i\<close>
  updates; no update of the \<open>rounds\<close> of a thread panics.\<close>

locale updates =
  fixes op :: "nat \<Rightarrow> 'd \<Rightarrow> 'd res"
    and R :: "(nat \<Rightarrow> nat) \<Rightarrow> 'd \<Rightarrow> bool"
    and n rounds :: nat
  assumes op_ok: "R f d \<Longrightarrow> (\<forall>i. f i \<le> rounds) \<Longrightarrow> i < n \<Longrightarrow> f i < rounds \<Longrightarrow>
    \<exists>d'. op i d = Inr d' \<and> R (f(i := Suc (f i))) d'"
begin

fun made :: "(worker, unit) task \<Rightarrow> nat" where
  "made Absent = 0"
| "made (Alive (Looping k)) = rounds - k"
| "made (Alive (Holding k)) = rounds - Suc k"
| "made (Alive (Updated k)) = rounds - k"
| "made (Ended x) = rounds"

fun holds :: "(worker, unit) task \<Rightarrow> bool" where
  "holds (Alive (Holding k)) = True"
| "holds (Alive (Updated k)) = True"
| "holds t = False"

fun sane :: "(worker, unit) task \<Rightarrow> bool" where
  "sane (Alive (Looping k)) = (k \<le> rounds)"
| "sane (Alive (Holding k)) = (k < rounds)"
| "sane (Alive (Updated k)) = (k < rounds)"
| "sane t = True"

definition mutex_inv :: "'d mutex \<Rightarrow> (nat \<Rightarrow> (worker, unit) task) \<Rightarrow> bool" where
  "mutex_inv g ts \<longleftrightarrow>
     \<not> poisoned g \<and> (\<forall>i. holds (ts i) \<longleftrightarrow> holder g = Some i) \<and> (\<forall>i. sane (ts i)) \<and>
     (\<forall>i. ts i \<noteq> Absent \<longrightarrow> i < n) \<and> R (\<lambda>i. made (ts i)) (contents g)"

fun worker_rank :: "worker \<Rightarrow> nat" where
  "worker_rank (Looping k) = 3 * k"
| "worker_rank (Holding k) = 3 * k + 2"
| "worker_rank (Updated k) = 3 * k + 1"

lemma made_le: "made t \<le> rounds"
  by (cases t rule: made.cases) auto

lemma made_upd: "(\<lambda>j. made ((ts(i := t)) j)) = (\<lambda>j. made (ts j))(i := made t)"
  by auto

lemma made_same: "made t = made (ts i) \<Longrightarrow> (\<lambda>j. made ((ts(i := t)) j)) = (\<lambda>j. made (ts j))"
  by auto

lemma worker_step_inv:
  assumes inv: "mutex_inv g ts" and i: "ts i = Alive l" and st: "worker_step op i g l g' t'"
  shows "mutex_inv g' (ts(i := t')) \<and>
    ((\<exists>l'. t' = Alive l' \<and> worker_rank l' < worker_rank l) \<or> t' = Ended (Inr ()))"
  using st
proof (cases rule: worker_step.cases)
  case (lock k)
  have "sane (ts i)" using inv by (simp add: mutex_inv_def)
  then show ?thesis using lock inv i made_same [of "Alive (Holding k)" ts i]
    by (auto simp: mutex_inv_def)
next
  case (lock_poisoned k)
  then show ?thesis using inv by (simp add: mutex_inv_def)
next
  case (update d k)
  have "sane (ts i)" using inv by (simp add: mutex_inv_def)
  then have k: "k < rounds" "i < n" "made (ts i) < rounds" "holds (ts i)"
    using inv i update by (auto simp: mutex_inv_def)
  moreover have "R (\<lambda>j. made (ts j)) (contents g)" using inv by (simp add: mutex_inv_def)
  ultimately have "R ((\<lambda>j. made (ts j))(i := Suc (made (ts i)))) d"
    using op_ok [of "\<lambda>j. made (ts j)" "contents g" i] made_le update(4) k by auto
  moreover have "Suc (made (ts i)) = made (Alive (Updated k))"
    using i update k by simp
  ultimately show ?thesis using inv i update k made_upd [of ts i "Alive (Updated k)"]
    by (auto simp: mutex_inv_def)
next
  case (update_panic e k)
  have "sane (ts i)" using inv by (simp add: mutex_inv_def)
  then have "i < n" "made (ts i) < rounds" "R (\<lambda>j. made (ts j)) (contents g)"
    using inv i update_panic by (auto simp: mutex_inv_def)
  then show ?thesis using op_ok [of "\<lambda>j. made (ts j)" "contents g" i] made_le update_panic by auto
next
  case (unlock k)
  have "sane (ts i)" using inv by (simp add: mutex_inv_def)
  then show ?thesis using unlock inv i made_same [of "Alive (Looping k)" ts i]
    by (auto simp: mutex_inv_def)
next
  case finish
  then have "\<not> holds (ts i)" using i by simp
  then have "holder g \<noteq> Some i" using inv by (simp add: mutex_inv_def)
  then show ?thesis using finish inv i made_same [of "Ended (Inr ())" ts i]
    by (auto simp: mutex_inv_def)
qed

lemma worker_progress:
  assumes "mutex_inv g ts" "ts i = Alive l"
  shows "\<exists>j lj g' t'. ts j = Alive lj \<and> worker_step op j g lj g' t'"
proof (cases "holder g")
  case (Some j)
  then have "holds (ts j)" using assms(1) by (auto simp: mutex_inv_def)
  then consider k where "ts j = Alive (Holding k)" | k where "ts j = Alive (Updated k)"
    by (cases "ts j" rule: holds.cases) auto
  then show ?thesis
  proof cases
    case 1
    then show ?thesis using worker_step.update worker_step.update_panic by (metis sum.exhaust)
  next
    case 2
    then show ?thesis using worker_step.unlock by blast
  qed
next
  case None
  then have "\<not> holds (ts i)" using assms(1) by (auto simp: mutex_inv_def)
  then obtain k where "l = Looping k" using assms(2) by (cases l) auto
  moreover have "\<not> poisoned g" using assms(1) by (simp add: mutex_inv_def)
  ultimately show ?thesis using assms(2) None worker_step.lock worker_step.finish by (metis not0_implies_Suc)
qed

end

sublocale updates \<subseteq> threads: fork_join "worker_step op" "\<lambda>_. Looping rounds" n mutex_inv "\<lambda>_ _. True" worker_rank
proof
  show "mutex_inv g (ts(i := Alive (Looping rounds)))" if "mutex_inv g ts" "i < n" "ts i = Absent" for g ts i
  proof -
    have "holder g \<noteq> Some i" using that(1,3) holds.simps(3) by (metis mutex_inv_def)
    then show ?thesis using that made_same [of "Alive (Looping rounds)" ts i] by (auto simp: mutex_inv_def)
  qed
next
  show "mutex_inv g' (ts(i := t'))" if "mutex_inv g ts" "ts i = Alive l" "worker_step op i g l g' t'" for g ts i l g' t'
    using worker_step_inv [OF that] by blast
  show "(\<exists>l'. t' = Alive l' \<and> worker_rank l' < worker_rank l) \<or> (\<exists>r. t' = Ended (Inr r) \<and> True)"
    if "mutex_inv g ts" "ts i = Alive l" "worker_step op i g l g' t'" for g ts i l g' t'
    using worker_step_inv [OF that] by blast
qed (rule worker_progress)

context updates begin

text \<open>When the threads have been joined the data has all their updates, and the mutex is free.\<close>

lemma all_updates:
  assumes "run_threads op n rounds (fj_init (new_mutex d)) s" "R (\<lambda>_. 0) d"
  shows "main s = Joined rs \<Longrightarrow> R (\<lambda>i. if i < n then rounds else 0) (contents (mem s)) \<and> \<not> poisoned (mem s)"
    and "\<exists>s' rs. run_threads op n rounds s s' \<and> main s' = Joined rs"
proof -
  have "mutex_inv (new_mutex d) (\<lambda>_. Absent)" using assms(2) by (simp add: mutex_inv_def new_mutex_def)
  from threads.fj_inv_steps [OF assms(1) [unfolded run_threads_def] threads.fj_inv_init [OF this]]
  have inv: "threads.fj_inv s" .
  show "R (\<lambda>i. if i < n then rounds else 0) (contents (mem s)) \<and> \<not> poisoned (mem s)" if "main s = Joined rs"
  proof -
    note j = threads.joined_results [OF inv that]
    have "(\<lambda>i. made (tasks s i)) = (\<lambda>i. if i < n then rounds else 0)"
      using j(2,4) by (intro ext) (auto simp: not_less)
    then show ?thesis using j(3) by (simp add: mutex_inv_def)
  qed
  show "\<exists>s' rs. run_threads op n rounds s s' \<and> main s' = Joined rs"
    using threads.fj_finishes [OF inv] by (simp add: run_threads_def)
qed

end

section \<open>The two functions\<close>

lemma sum_upd: "i < (n :: nat) \<Longrightarrow> (\<Sum>j<n. (f(i := Suc (f i))) j) = Suc (\<Sum>j<n. f j)"
proof -
  assume "i < n"
  then have "(\<Sum>j<n. (f(i := Suc (f i))) j) = Suc (f i) + (\<Sum>j\<in>{..<n} - {i}. (f(i := Suc (f i))) j)"
    by (simp add: sum.remove [of _ i])
  also have "(\<Sum>j\<in>{..<n} - {i}. (f(i := Suc (f i))) j) = (\<Sum>j\<in>{..<n} - {i}. f j)"
    by (rule sum.cong) auto
  finally show ?thesis using \<open>i < n\<close> by (simp add: sum.remove [of _ i])
qed

text \<open>The counter is the number of updates, modulo its width; with overflow checks there must be room
  for all of them.\<close>

lemma counter_updates:
  assumes "ck \<longrightarrow> n * rounds < 2 ^ 64"
  shows "updates (count_op ck) (\<lambda>f d. d = of_nat (\<Sum>i<n. f i)) n rounds"
proof
  fix f :: "nat \<Rightarrow> nat" and d :: usize and i
  assume d: "d = of_nat (\<Sum>i<n. f i)" and le: "\<forall>i. f i \<le> rounds" and i: "i < n" "f i < rounds"
  have "(\<Sum>j<n. f j) < (\<Sum>j<n. rounds)"
    by (rule sum_strict_mono_ex1) (use le i in auto)
  then have "ck \<Longrightarrow> (\<Sum>j<n. f j) + 1 < 2 ^ 64" using assms by simp
  then have "ck \<Longrightarrow> unat d + unat (1 :: usize) < 2 ^ LENGTH(64)"
    by (simp only: d unat_of_nat unat_1) simp
  then have "count_op ck i d = Inr (d + 1)" by (auto simp: count_op_def add_ck_def not_le [symmetric])
  then show "\<exists>d'. count_op ck i d = Inr d' \<and> d' = of_nat (\<Sum>j<n. (f(i := Suc (f i))) j)"
    using d sum_upd [OF i(1), of f] by (simp del: fun_upd_apply)
qed

interpretation counter: updates "count_op False" "\<lambda>f d. d = of_nat (\<Sum>i<n. f i)" n rounds
  for n rounds
  by (rule counter_updates) simp

interpretation collect: updates push_op "\<lambda>f d. \<forall>i. count_list d i = f i" n rounds
  for n rounds
  by unfold_locales (auto simp: push_op_def)

text \<open>C16: However the threads interleave, \<^verbatim>\<open>concurrent_counter\<close> returns the number of threads times the
  number of rounds, modulo \<open>2\<^sup>6\<^sup>4\<close>, provided that it does not overflow where overflow is checked;
  from every point it can reach it gets there, without a panic or a deadlock.\<close>

theorem concurrent_counter_total:
  assumes "ck \<longrightarrow> n_threads * count_per_thread < 2 ^ 64"
    and "concurrent_counter ck n_threads count_per_thread s"
  shows "(\<forall>rs. main s = Joined rs \<longrightarrow> lock_unwrap (mem s) = Inr (of_nat (n_threads * count_per_thread))) \<and>
    (\<exists>s' rs. run_threads (count_op ck) n_threads count_per_thread s s' \<and> main s' = Joined rs)"
proof -
  note upd = updates.all_updates [OF counter_updates [OF assms(1)] assms(2) [unfolded concurrent_counter_def]]
  have "(\<Sum>i<n_threads. if i < n_threads then count_per_thread else 0) = n_threads * count_per_thread"
    by simp
  then show ?thesis using upd by (auto simp: lock_unwrap_def)
qed

theorem concurrent_counter_total_witness:
  "\<exists>s rs. concurrent_counter True 2 3 s \<and> main s = Joined rs \<and> lock_unwrap (mem s) = Inr 6"
proof -
  have start: "concurrent_counter True 2 3 (fj_init (new_mutex 0))"
    by (simp add: concurrent_counter_def run_threads_def)
  have fits: "True \<longrightarrow> 2 * 3 < (2 :: nat) ^ 64" by simp
  from concurrent_counter_total [OF fits start] obtain s rs where
    s: "run_threads (count_op True) 2 3 (fj_init (new_mutex 0)) s" "main s = Joined rs" by blast
  then have "concurrent_counter True 2 3 s" by (simp add: concurrent_counter_def)
  with s concurrent_counter_total [OF fits this] show ?thesis by auto
qed

text \<open>Sorting a list that has every number below \<open>n\<close> once.\<close>

lemma sort_upt:
  assumes "\<And>i. count_list xs i = (if i < n then 1 else 0)"
  shows "sort xs = [0..<n]"
proof -
  have "mset xs = mset [0..<n]"
  proof (rule multiset_eqI)
    fix i
    have "count (mset xs) i = count_list xs i" by (simp add: count_mset)
    also have "\<dots> = count (mset_set {0..<n}) i" unfolding assms by simp
    also have "mset_set {0..<n} = mset [0..<n]" by simp
    finally show "count (mset xs) i = count (mset [0..<n]) i" .
  qed
  then show ?thesis by (metis properties_for_sort sorted_upt)
qed

text \<open>However the threads interleave, \<^verbatim>\<open>concurrent_collect\<close> returns the numbers of all threads, each
  once and in ascending order, and it always gets there.\<close>

theorem concurrent_collect_all:
  assumes "concurrent_collect n_threads s"
  shows "(\<forall>rs. main s = Joined rs \<longrightarrow> collect_result (mem s) = Inr [0..<n_threads]) \<and>
    (\<exists>s' rs. run_threads push_op n_threads 1 s s' \<and> main s' = Joined rs)"
proof -
  note upd = collect.all_updates [OF assms [unfolded concurrent_collect_def]]
  have "sort (contents (mem s)) = [0..<n_threads]" if "main s = Joined rs" for rs
    by (rule sort_upt) (use upd(1) [OF _ that] in simp)
  moreover have "\<not> poisoned (mem s)" if "main s = Joined rs" for rs
    using upd(1) [OF _ that] by simp
  ultimately show ?thesis using upd(2) by (auto simp: collect_result_def lock_unwrap_def)
qed

theorem concurrent_collect_all_witness:
  "\<exists>s rs. concurrent_collect 3 s \<and> main s = Joined rs \<and> collect_result (mem s) = Inr [0, 1, 2]"
proof -
  have start: "concurrent_collect 3 (fj_init (new_mutex []))"
    by (simp add: concurrent_collect_def run_threads_def)
  from concurrent_collect_all [OF start] obtain s rs where
    s: "run_threads push_op 3 1 (fj_init (new_mutex [])) s" "main s = Joined rs" by blast
  then have r: "concurrent_collect 3 s" by (simp add: concurrent_collect_def)
  from concurrent_collect_all [OF r] s(2) have "collect_result (mem s) = Inr [0..<3]" by blast
  moreover have "[0..<3] = [0, 1, 2 :: nat]" by (simp add: upt_rec)
  ultimately show ?thesis using r s(2) by auto
qed

end
