(* ===== verification/RwWorkload.thy ===== *)
theory RwWorkload
  imports RwLockClient MutexCounter
begin

text \<open>
  Threads that work under the read-write lock: some write for a number of rounds, the others read, and a
  main thread joins them. The loops of \<^verbatim>\<open>read\<close> and \<^verbatim>\<open>write\<close> with their separate loads and exchanges take
  the lock at one instant, that of the exchange; that is proved first, and lets the threads here take it
  in one step.
\<close>

section \<open>Taking the lock at one instant\<close>

text \<open>One turn of each loop that nobody interrupts.\<close>

definition acquire_read :: "u32 \<Rightarrow> u32 option" where
  "acquire_read s =
     (if read_spins s then None
      else case read_exchange s s of
        (Inl _, _) \<Rightarrow> None
      | (Inr _, g) \<Rightarrow> Some g)"

definition acquire_write :: "u32 \<Rightarrow> u32 option" where
  "acquire_write s =
     (if write_spins s then None
      else case write_exchange s s of
        (Inr _, g) \<Rightarrow> Some g
      | (Inl _, g) \<Rightarrow>
          (case write_exchange_free g of
             (Inl _, _) \<Rightarrow> None
           | (Inr _, g') \<Rightarrow> Some g'))"

lemma acquire_read_Some: "acquire_read s = Some g \<longleftrightarrow> \<not> read_spins s \<and> g = s + 1"
  by (auto simp: acquire_read_def read_exchange_def compare_exchange_def)

lemma acquire_write_Some:
  "acquire_write s = Some g \<longleftrightarrow> \<not> write_spins s \<and> (s = s OR WRITER_WAITING \<or> s = 0) \<and> g = WRITER_HOLDING"
  by (auto simp: acquire_write_def write_exchange_def write_exchange_free_def compare_exchange_def)

text \<open>A step of a thread either takes the lock as that turn would, gives it back, announces a writer, or
  leaves the word as it was.\<close>

theorem rw_step_linear:
  assumes "rw_step ws t g l g' l'"
  shows "(l' = Reading \<and> acquire_read g = Some g') \<or>
    (l' = Writing \<and> acquire_write g = Some g') \<or>
    (l = Reading \<and> l' = Idle \<and> g' = read_drop g) \<or>
    (l = Writing \<and> l' = Idle \<and> g' = write_drop g) \<or>
    (l = Idle \<and> l' = W_loop \<and> t \<in> ws \<and> g' = write_announce g) \<or>
    (l' \<notin> {Reading, Writing} \<and> l \<notin> {Reading, Writing} \<and> g' = g)"
  using assms
proof (cases rule: rw_step.cases)
  case (read_cas s r)
  then show ?thesis
    by (auto simp: acquire_read_Some read_exchange_def compare_exchange_def split: if_splits)
next
  case (write_cas s r)
  have "\<not> write_spins (s OR WRITER_WAITING)"
    using write_cas(3) write_announce_parts [of s] by (simp add: write_spins_iff write_announce_def)
  moreover have "(s OR WRITER_WAITING) OR WRITER_WAITING = s OR WRITER_WAITING" by (simp add: or.assoc)
  ultimately show ?thesis using write_cas
    by (auto simp: acquire_write_Some write_exchange_def compare_exchange_def split: if_splits)
next
  case (write_cas_free r)
  have "\<not> write_spins 0" by (simp add: write_spins_def)
  then show ?thesis using write_cas_free
    by (auto simp: acquire_write_Some write_exchange_free_def compare_exchange_def split: if_splits)
qed auto

section \<open>The threads\<close>

datatype rw_worker = Round nat | Sees nat | Seen nat | Announced nat | Writes nat | Wrote nat

text \<open>\<open>check\<close>: what a reader does with the data, such as assert something of it; \<open>upd\<close>: what a writer makes of
  it. Turns of the loops that do not take the lock change nothing and are not steps here. A guard is
  dropped when its thread panics.\<close>

inductive rw_round ::
  "nat set \<Rightarrow> ('d \<Rightarrow> unit res) \<Rightarrow> ('d \<Rightarrow> 'd res) \<Rightarrow> ('d rw_data, rw_worker, unit) task_step"
  for writers check upd where
  enter_read: "i \<notin> writers \<Longrightarrow> acquire_read (word g) = Some w \<Longrightarrow>
    rw_round writers check upd i g (Round (Suc k)) (g\<lparr>word := w\<rparr>) (Alive (Sees k))"
| look: "check (read_deref g) = Inr u \<Longrightarrow> rw_round writers check upd i g (Sees k) g (Alive (Seen k))"
| look_panic: "check (read_deref g) = Inl e \<Longrightarrow>
    rw_round writers check upd i g (Sees k) (g\<lparr>word := read_drop (word g)\<rparr>) (Ended (Inl e))"
| leave_read: "rw_round writers check upd i g (Seen k) (g\<lparr>word := read_drop (word g)\<rparr>) (Alive (Round k))"
| announce: "i \<in> writers \<Longrightarrow>
    rw_round writers check upd i g (Round (Suc k)) (g\<lparr>word := write_announce (word g)\<rparr>) (Alive (Announced k))"
| enter_write: "acquire_write (word g) = Some w \<Longrightarrow>
    rw_round writers check upd i g (Announced k) (g\<lparr>word := w\<rparr>) (Alive (Writes k))"
| change: "upd (write_deref g) = Inr d \<Longrightarrow>
    rw_round writers check upd i g (Writes k) (write_deref_mut (\<lambda>_. d) g) (Alive (Wrote k))"
| change_panic: "upd (write_deref g) = Inl e \<Longrightarrow>
    rw_round writers check upd i g (Writes k) (g\<lparr>word := write_drop (word g)\<rparr>) (Ended (Inl e))"
| leave_write: "rw_round writers check upd i g (Wrote k) (g\<lparr>word := write_drop (word g)\<rparr>) (Alive (Round k))"
| finish: "rw_round writers check upd i g (Round 0) g (Ended (Inr ()))"

definition run_rw ::
  "nat set \<Rightarrow> ('d \<Rightarrow> unit res) \<Rightarrow> ('d \<Rightarrow> 'd res) \<Rightarrow> nat \<Rightarrow> nat \<Rightarrow>
   ('d rw_data, rw_worker, unit) fj \<Rightarrow> ('d rw_data, rw_worker, unit) fj \<Rightarrow> bool" where
  "run_rw writers check upd n rounds = (fj_step (rw_round writers check upd) (\<lambda>_. Round rounds) n)\<^sup>*\<^sup>*"

text \<open>What a thread does in a round, as an operation of theory MutexCounter.\<close>

definition rw_op :: "nat set \<Rightarrow> ('d \<Rightarrow> unit res) \<Rightarrow> ('d \<Rightarrow> 'd res) \<Rightarrow> nat \<Rightarrow> 'd \<Rightarrow> 'd res" where
  "rw_op writers check upd i d = (if i \<in> writers then upd d else bind_res (check d) (\<lambda>_. Inr d))"

section \<open>They get the work done\<close>

fun pos :: "(rw_worker, unit) task \<Rightarrow> rw" where
  "pos (Alive (Sees k)) = Reading"
| "pos (Alive (Seen k)) = Reading"
| "pos (Alive (Announced k)) = W_loop"
| "pos (Alive (Writes k)) = Writing"
| "pos (Alive (Wrote k)) = Writing"
| "pos t = Idle"

lemma pos_upd: "(\<lambda>j. pos ((ts(i := t)) j)) = (\<lambda>j. pos (ts j))(i := pos t)"
  by auto

text \<open>The protocol of the lock, by the invariant of theory RwLock.\<close>

lemma rw_inv_acquire_read:
  assumes "rw_inv g ls" "ls t = Idle" "acquire_read g = Some g'"
  shows "rw_inv g' (ls(t := Reading))"
proof -
  have s: "\<not> read_spins g" "g' = g + 1" using assms(3) by (simp_all add: acquire_read_Some)
  have "rw_inv g (ls(t := R_loaded g))" using rw_inv_move [OF assms(1), of t "R_loaded g" g] assms(2) by simp
  moreover have "rw_step {} t g (R_loaded g) g' Reading"
    using rw_step.read_cas [OF s(1), of g "Inr g" g' "{}" t] s(2) by (simp add: read_exchange_def compare_exchange_def)
  ultimately show ?thesis using rw_inv_step [of g "ls(t := R_loaded g)" "{}" t g' Reading] by simp
qed

lemma rw_inv_acquire_write:
  assumes "rw_inv g ls" "acquire_write g = Some g'"
  shows "rw_inv g' (ls(t := Writing))"
  using rw_inv_enter_write [OF assms(1)] assms(2) by (auto simp: acquire_write_Some write_spins_iff)

lemma rw_inv_announce:
  assumes "rw_inv g ls" "ls t = Idle"
  shows "rw_inv (write_announce g) (ls(t := W_loop))"
  using rw_inv_move [OF assms(1), of t W_loop "write_announce g"] assms(2) write_announce_parts [of g] by simp

lemma rw_inv_leave:
  assumes "rw_inv g ls"
  shows "ls t = Reading \<Longrightarrow> rw_inv (read_drop g) (ls(t := Idle))"
    and "ls t = Writing \<Longrightarrow> rw_inv (write_drop g) (ls(t := Idle))"
  using rw_inv_step [OF assms, of "{}" t] rw_step.read_done [of "{}" t g] rw_step.write_done [of "{}" t g] by simp_all

lemma acquire_write_free: "readers g = 0 \<Longrightarrow> \<not> holding g \<Longrightarrow> \<exists>g'. acquire_write g = Some g'"
  using free_word [of g] by (auto simp: acquire_write_Some write_spins_iff)

locale rw_workload = updates "rw_op writers check upd" R n rounds
  for writers and check :: "'d \<Rightarrow> unit res" and upd :: "'d \<Rightarrow> 'd res" and R and n and rounds :: nat
begin

fun rounds_made :: "(rw_worker, unit) task \<Rightarrow> nat" where
  "rounds_made Absent = 0"
| "rounds_made (Alive (Round k)) = rounds - k"
| "rounds_made (Alive (Sees k)) = rounds - Suc k"
| "rounds_made (Alive (Seen k)) = rounds - k"
| "rounds_made (Alive (Announced k)) = rounds - Suc k"
| "rounds_made (Alive (Writes k)) = rounds - Suc k"
| "rounds_made (Alive (Wrote k)) = rounds - k"
| "rounds_made (Ended x) = rounds"

fun fits :: "nat \<Rightarrow> (rw_worker, unit) task \<Rightarrow> bool" where
  "fits i (Alive (Round k)) = (k \<le> rounds)"
| "fits i (Alive (Sees k)) = (i \<notin> writers \<and> k < rounds)"
| "fits i (Alive (Seen k)) = (i \<notin> writers \<and> k < rounds)"
| "fits i (Alive (Announced k)) = (i \<in> writers \<and> k < rounds)"
| "fits i (Alive (Writes k)) = (i \<in> writers \<and> k < rounds)"
| "fits i (Alive (Wrote k)) = (i \<in> writers \<and> k < rounds)"
| "fits i t = True"

fun rw_rank :: "rw_worker \<Rightarrow> nat" where
  "rw_rank (Round k) = 4 * k"
| "rw_rank (Announced k) = 4 * k + 3"
| "rw_rank (Sees k) = 4 * k + 2"
| "rw_rank (Writes k) = 4 * k + 2"
| "rw_rank (Seen k) = 4 * k + 1"
| "rw_rank (Wrote k) = 4 * k + 1"

definition announced :: "(nat \<Rightarrow> (rw_worker, unit) task) \<Rightarrow> bool" where
  "announced ts \<longleftrightarrow> (\<exists>i. pos (ts i) = W_loop)"

definition work_inv :: "'d rw_data \<Rightarrow> (nat \<Rightarrow> (rw_worker, unit) task) \<Rightarrow> bool" where
  "work_inv g ts \<longleftrightarrow>
     rw_inv (word g) (\<lambda>i. pos (ts i)) \<and> (waiting (word g) \<longrightarrow> announced ts) \<and> (\<forall>i. fits i (ts i)) \<and>
     (\<forall>i. ts i \<noteq> Absent \<longrightarrow> i < n) \<and> R (\<lambda>i. rounds_made (ts i)) (data g)"

lemma rounds_made_le: "rounds_made t \<le> rounds"
  by (cases t rule: rounds_made.cases) auto

lemma rounds_made_upd: "(\<lambda>j. rounds_made ((ts(i := t)) j)) = (\<lambda>j. rounds_made (ts j))(i := rounds_made t)"
  by auto

lemma announced_upd: "pos (ts i) \<noteq> W_loop \<or> pos t = W_loop \<Longrightarrow> announced ts \<Longrightarrow> announced (ts(i := t))"
  by (auto simp: announced_def)

text \<open>A step of the protocol, and one that works on the data.\<close>

lemma work_inv_protocol:
  assumes "work_inv g ts" "ts i \<noteq> Absent" "rw_inv w ((\<lambda>j. pos (ts j))(i := pos t))"
    and "rounds_made t = rounds_made (ts i)" "fits i t"
    and "pos t = W_loop \<or> \<not> waiting w \<or> pos (ts i) \<noteq> W_loop \<and> waiting w = waiting (word g)"
  shows "work_inv (g\<lparr>word := w\<rparr>) (ts(i := t))"
proof -
  have "announced (ts(i := t))" if "waiting w"
  proof (cases "pos t = W_loop")
    case True
    then show ?thesis unfolding announced_def by (intro exI [of _ i]) simp
  next
    case False
    then show ?thesis using that assms(1,6) announced_upd [of ts i t] by (auto simp: work_inv_def)
  qed
  then show ?thesis
    using assms(1-5) unfolding work_inv_def pos_upd rounds_made_upd by (auto simp: fun_upd_idem)
qed

lemma work_inv_op:
  assumes inv: "work_inv g ts" and i: "ts i = Alive l" and l: "l = Sees k \<or> l = Writes k"
  shows "\<exists>d. rw_op writers check upd i (data g) = Inr d \<and>
    work_inv (g\<lparr>data := d\<rparr>) (ts(i := Alive (if l = Sees k then Seen k else Wrote k)))"
proof -
  let ?t = "Alive (if l = Sees k then Seen k else Wrote k)"
  have k: "k < rounds" "i < n" "fits i ?t" using inv i l by (auto simp: work_inv_def dest!: spec [of _ i])
  then have m: "rounds_made (ts i) < rounds" "Suc (rounds_made (ts i)) = rounds_made ?t" "pos ?t = pos (ts i)"
    using i l by auto
  have "R (\<lambda>j. rounds_made (ts j)) (data g)" using inv by (simp add: work_inv_def)
  from op_ok [OF this _ k(2)] obtain d where
    d: "rw_op writers check upd i (data g) = Inr d" "R ((\<lambda>j. rounds_made (ts j))(i := rounds_made ?t)) d"
    using m rounds_made_le by auto
  have "announced (ts(i := ?t))" if "waiting (word g)"
    using inv that announced_upd [of ts i ?t] m(3) i l by (auto simp: work_inv_def)
  then show ?thesis
    using inv d k m(3) unfolding work_inv_def pos_upd rounds_made_upd by (auto simp: fun_upd_idem)
qed

lemma rw_round_inv:
  assumes inv: "work_inv g ts" and i: "ts i = Alive l" and st: "rw_round writers check upd i g l g' t'"
  shows "work_inv g' (ts(i := t')) \<and>
    ((\<exists>l'. t' = Alive l' \<and> rw_rank l' < rw_rank l) \<or> t' = Ended (Inr ()))"
proof -
  have rw: "rw_inv (word g) (\<lambda>j. pos (ts j))" and fit: "fits i (Alive l)" and alive: "ts i \<noteq> Absent"
    using inv i by (auto simp: work_inv_def dest: spec [of _ i])
  note protocol = work_inv_protocol [OF inv alive]
  show ?thesis
    using st
  proof (cases rule: rw_round.cases)
    case (enter_read w k)
    then have "\<not> waiting w" using read_exchange_parts(3) by (auto simp: acquire_read_Some)
    then show ?thesis
      using enter_read protocol [of w t'] rw_inv_acquire_read [OF rw, of i w] i fit by auto
  next
    case (look u k)
    then show ?thesis using work_inv_op [OF inv i, of k] fit by (auto simp: rw_op_def guard_defs)
  next
    case (look_panic e k)
    then show ?thesis using work_inv_op [OF inv i, of k] fit by (auto simp: rw_op_def guard_defs)
  next
    case (leave_read k)
    then have "readers (word g) \<noteq> 0"
      using rw i by (auto simp: rw_inv_def reading_def intro!: exI [of _ i])
    from read_drop_parts(3) [OF this] show ?thesis
      using leave_read protocol [of "read_drop (word g)" t'] rw_inv_leave(1) [OF rw, of i] i fit by auto
  next
    case (announce k)
    then show ?thesis
      using protocol [of "write_announce (word g)" t'] rw_inv_announce [OF rw, of i] i fit by auto
  next
    case (enter_write w k)
    then have "\<not> waiting w" by (auto simp: acquire_write_Some holding_parts)
    then show ?thesis
      using enter_write protocol [of w t'] rw_inv_acquire_write [OF rw, of w i] i fit by auto
  next
    case (change d k)
    then show ?thesis using work_inv_op [OF inv i, of k] fit by (auto simp: rw_op_def guard_defs)
  next
    case (change_panic e k)
    then show ?thesis using work_inv_op [OF inv i, of k] fit by (auto simp: rw_op_def guard_defs)
  next
    case (leave_write k)
    then show ?thesis
      using protocol [of "write_drop (word g)" t'] rw_inv_leave(2) [OF rw, of i] write_drop_parts(3) i fit by auto
  next
    case finish
    then show ?thesis using protocol [of "word g" t'] rw i by (auto simp: fun_upd_idem)
  qed
qed

lemma rw_round_possible:
  assumes "work_inv g ts" "ts i = Alive l"
  shows "\<exists>j lj g' t'. ts j = Alive lj \<and> rw_round writers check upd j g lj g' t'"
proof -
  let ?moves = "\<lambda>j. \<exists>lj g' t'. ts j = Alive lj \<and> rw_round writers check upd j g lj g' t'"
  have rw: "rw_inv (word g) (\<lambda>j. pos (ts j))" using assms(1) by (simp add: work_inv_def)
  show ?thesis
  proof (cases "\<exists>j. pos (ts j) \<in> {Reading, Writing}")
    case True
    then obtain j where "pos (ts j) \<in> {Reading, Writing}" by blast
    then consider k where "ts j = Alive (Sees k)" | k where "ts j = Alive (Seen k)"
      | k where "ts j = Alive (Writes k)" | k where "ts j = Alive (Wrote k)"
      by (cases "ts j" rule: pos.cases) auto
    then have "?moves j"
    proof cases
      case 1
      then show ?thesis using rw_round.look rw_round.look_panic by (metis sum.exhaust)
    next
      case 3
      then show ?thesis using rw_round.change rw_round.change_panic by (metis sum.exhaust)
    qed (use rw_round.leave_read rw_round.leave_write in blast)+
    then show ?thesis by blast
  next
    case False
    then have free: "readers (word g) = 0" "\<not> holding (word g)"
      using rw by (auto simp: rw_inv_def reading_def)
    show ?thesis
    proof (cases "announced ts")
      case True
      then obtain j where "pos (ts j) = W_loop" by (auto simp: announced_def)
      then obtain k where "ts j = Alive (Announced k)" by (cases "ts j" rule: pos.cases) auto
      then show ?thesis using acquire_write_free [OF free] rw_round.enter_write by blast
    next
      case none: False
      then have "\<not> waiting (word g)" using assms(1) by (simp add: work_inv_def)
      then have "\<not> read_spins (word g)" using free by (simp add: read_spins_iff)
      then have read: "acquire_read (word g) = Some (word g + 1)" by (simp add: acquire_read_Some)
      have "pos (ts i) \<notin> {Reading, Writing, W_loop}" using False none by (auto simp: announced_def)
      then obtain k where "l = Round k" using assms(2) by (cases l) auto
      then show ?thesis
        using assms(2) rw_round.finish rw_round.announce rw_round.enter_read [OF _ read]
        by (metis not0_implies_Suc)
    qed
  qed
qed

end

sublocale rw_workload \<subseteq>
  tasks: fork_join "rw_round writers check upd" "\<lambda>_. Round rounds" n work_inv "\<lambda>_ _. True" rw_rank
proof
  show "work_inv g (ts(i := Alive (Round rounds)))" if "work_inv g ts" "i < n" "ts i = Absent" for g ts i
    using that announced_upd [of ts i "Alive (Round rounds)"]
    unfolding work_inv_def pos_upd rounds_made_upd by (auto simp: fun_upd_idem)
qed (use rw_round_inv rw_round_possible in blast)+

context rw_workload begin

text \<open>All rounds get done, and the lock is free then.\<close>

lemma work_done:
  assumes "run_rw writers check upd n rounds (fj_init (new_lock d)) s" "R (\<lambda>_. 0) d"
  shows "main s = Joined rs \<Longrightarrow> R (\<lambda>i. if i < n then rounds else 0) (data (mem s)) \<and> mem s = new_lock (data (mem s))"
    and "\<exists>s' rs. run_rw writers check upd n rounds s s' \<and> main s' = Joined rs"
proof -
  have "work_inv (new_lock d) (\<lambda>_. Absent)"
    using assms(2) by (simp add: work_inv_def rw_inv_def new_lock_def new_def reading_def readers_def)
  from tasks.fj_inv_steps [OF assms(1) [unfolded run_rw_def] tasks.fj_inv_init [OF this]]
  have inv: "tasks.fj_inv s" .
  show "\<exists>s' rs. run_rw writers check upd n rounds s s' \<and> main s' = Joined rs"
    using tasks.fj_finishes [OF inv] by (simp add: run_rw_def)
  show "R (\<lambda>i. if i < n then rounds else 0) (data (mem s)) \<and> mem s = new_lock (data (mem s))" if "main s = Joined rs"
  proof -
    note j = tasks.joined_results [OF inv that]
    have work: "work_inv (mem s) (tasks s)" by (rule j(3))
    have made: "(\<lambda>i. rounds_made (tasks s i)) = (\<lambda>i. if i < n then rounds else 0)"
      using j(2,4) by (intro ext) (auto simp: not_less)
    have "pos (tasks s i) = Idle" for i using j(2,4) by (cases "i < n") (auto simp: not_less)
    then have "readers (word (mem s)) = 0" "\<not> holding (word (mem s))" "\<not> waiting (word (mem s))"
      using work by (auto simp: work_inv_def announced_def rw_inv_def reading_def)
    then have "word (mem s) = new" using low_bits [of "word (mem s)"] by (simp add: new_def unat_eq_0)
    then show ?thesis using work made by (simp add: work_inv_def new_lock_def)
  qed
qed

end

section \<open>Counting under the lock\<close>

text \<open>Writers that add one, and readers that look.\<close>

definition count_writes :: "nat set \<Rightarrow> nat \<Rightarrow> (nat \<Rightarrow> nat) \<Rightarrow> u64" where
  "count_writes writers n f = of_nat (\<Sum>i \<in> writers \<inter> {..<n}. f i)"

lemma rw_counters:
  assumes "ck \<longrightarrow> n * rounds < 2 ^ 64"
  shows "rw_workload writers (\<lambda>_. Inr ()) (\<lambda>d. add_ck ck d 1) (\<lambda>f d. d = count_writes writers n f) n rounds"
proof
  fix f :: "nat \<Rightarrow> nat" and d :: u64 and i
  assume d: "d = count_writes writers n f" and le: "\<forall>i. f i \<le> rounds" and i: "i < n" "f i < rounds"
  let ?W = "writers \<inter> {..<n}"
  let ?op = "rw_op writers (\<lambda>_. Inr ()) (\<lambda>d. add_ck ck d 1)"
  show "\<exists>d'. ?op i d = Inr d' \<and> d' = count_writes writers n (f(i := Suc (f i)))"
  proof (cases "i \<in> writers")
    case True
    have "(\<Sum>j \<in> ?W. f j) < (\<Sum>j \<in> ?W. rounds)"
      by (rule sum_strict_mono_ex1) (use le i True in auto)
    also have "\<dots> \<le> n * rounds" using card_mono [of "{..<n}" ?W] by simp
    finally have "ck \<Longrightarrow> unat d + unat (1 :: u64) < 2 ^ LENGTH(64)"
      using assms by (simp only: d count_writes_def unat_of_nat unat_1) simp
    then have "add_ck ck d 1 = Inr (d + 1)" by (auto simp: add_ck_def not_le [symmetric])
    moreover have "(\<Sum>j \<in> ?W. (f(i := Suc (f i))) j) = Suc (\<Sum>j \<in> ?W. f j)"
      using i(1) True by (subst (1 2) sum.remove [of ?W i]) auto
    ultimately show ?thesis using True d by (simp add: rw_op_def count_writes_def del: fun_upd_apply)
  next
    case False
    then have "(\<Sum>j \<in> ?W. (f(i := Suc (f i))) j) = (\<Sum>j \<in> ?W. f j)" by (intro sum.cong) auto
    then show ?thesis using False d by (simp add: rw_op_def count_writes_def del: fun_upd_apply)
  qed
qed

interpretation rw_count: rw_workload writers "\<lambda>_. Inr ()" "\<lambda>d. add_ck False d 1"
    "\<lambda>f d. d = count_writes writers n f" n rounds
  for writers n rounds
  by (rule rw_counters) simp

text \<open>C36: \<open>n\<close> threads, of which the writers add one to the data under the lock and the others read it, for
  any number of rounds, always all finish, whatever the interleaving; the data is then the number of all
  additions, and the lock is as good as new.\<close>

theorem rwlock_work_done:
  assumes "ck \<longrightarrow> n * rounds < 2 ^ 64"
    and "run_rw writers (\<lambda>_. Inr ()) (\<lambda>d. add_ck ck d 1) n rounds (fj_init (new_lock (0 :: u64))) s"
  shows "(\<forall>rs. main s = Joined rs \<longrightarrow> mem s = new_lock (of_nat (card (writers \<inter> {..<n}) * rounds))) \<and>
    (\<exists>s' rs. run_rw writers (\<lambda>_. Inr ()) (\<lambda>d. add_ck ck d 1) n rounds s s' \<and> main s' = Joined rs)"
proof -
  have "(\<Sum>i \<in> writers \<inter> {..<n}. if i < n then rounds else 0) = card (writers \<inter> {..<n}) * rounds"
    by (simp add: sum.If_cases Int_def)
  then have "count_writes writers n (\<lambda>i. if i < n then rounds else 0) = of_nat (card (writers \<inter> {..<n}) * rounds)"
    by (simp only: count_writes_def)
  with rw_workload.work_done [OF rw_counters [OF assms(1)] assms(2)] show ?thesis
    by (auto simp: count_writes_def)
qed

theorem rwlock_work_done_witness:
  "\<exists>s. run_rw {0, 1} (\<lambda>_. Inr ()) (\<lambda>d. add_ck True d 1) 3 2 (fj_init (new_lock (0 :: u64))) s \<and> mem s = new_lock 4"
proof -
  let ?run = "run_rw {0, 1} (\<lambda>_. Inr ()) (\<lambda>d. add_ck True d 1) 3 2"
  have start: "?run (fj_init (new_lock (0 :: u64))) (fj_init (new_lock 0))" by (simp add: run_rw_def)
  note work = rwlock_work_done [where ck = True and n = 3 and rounds = 2 and writers = "{0, 1}"]
  from work [OF _ start, THEN conjunct2] obtain s rs where s: "?run (fj_init (new_lock (0 :: u64))) s" "main s = Joined rs"
    by auto
  have "{0, 1} \<inter> {..<3 :: nat} = {0, 1}" by auto
  with work [OF _ s(1)] s(2) have "mem s = new_lock 4" by simp
  with s(1) show ?thesis by blast
qed

end
