(* ===== verification/PoolRefinement.thy ===== *)
theory PoolRefinement
  imports Interleaving
begin

text \<open>
  When a pool of threads refines another one: a step of the first is a step of the second between the
  images of its states, or changes nothing in them.
\<close>

definition abs_pool :: "('g \<Rightarrow> 'h) \<Rightarrow> ('l \<Rightarrow> 'm) \<Rightarrow> ('g, 'l) pool \<Rightarrow> ('h, 'm) pool" where
  "abs_pool f k s = \<lparr>shared = f (shared s), locals = (\<lambda>t. k (locals s t))\<rparr>"

lemma abs_pool_upd:
  "abs_pool f k \<lparr>shared = g, locals = ls(t := l)\<rparr> = \<lparr>shared = f g, locals = (\<lambda>u. k (ls u))(t := k l)\<rparr>"
  by (auto simp: abs_pool_def)

lemma reachable_trans: "reachable tstep s1 s2 \<Longrightarrow> reachable tstep s0 s1 \<Longrightarrow> reachable tstep s0 s2"
  by (induction rule: reachable.induct) (auto intro: reachable.step)

text \<open>One thread that runs while the others do nothing.\<close>

definition alone :: "('g, 'l) thread_step \<Rightarrow> nat \<Rightarrow> 'g \<times> 'l \<Rightarrow> 'g \<times> 'l \<Rightarrow> bool" where
  "alone tstep t = (\<lambda>(g, l) (g', l'). tstep t g l g' l')"

lemma alone_step: "tstep t g l g' l' \<Longrightarrow> (alone tstep t)\<^sup>*\<^sup>* (g', l') x \<Longrightarrow> (alone tstep t)\<^sup>*\<^sup>* (g, l) x"
  by (rule converse_rtranclp_into_rtranclp) (simp_all add: alone_def)

lemma alone_reachable:
  assumes "(alone tstep t)\<^sup>*\<^sup>* (shared s, locals s t) x"
  shows "reachable tstep s \<lparr>shared = fst x, locals = (locals s)(t := snd x)\<rparr>"
  using assms
proof (induction rule: rtranclp_induct)
  case base
  show ?case by (cases s) (simp add: reachable.start)
next
  case (step x y)
  let ?s = "\<lparr>shared = fst x, locals = (locals s)(t := snd x)\<rparr>"
  have "tstep t (shared ?s) (locals ?s t) (fst y) (snd y)"
    using step.hyps(2) by (simp add: alone_def case_prod_unfold)
  from reachable.step [OF step.IH pool_step.step [where tstep = tstep, OF this]] show ?case
    by (simp add: fun_upd_def cong: if_cong)
qed

locale pool_refinement =
  fixes tstep :: "('g, 'l) thread_step"
    and spec :: "('h, 'm) thread_step"
    and inv :: "'g \<Rightarrow> (nat \<Rightarrow> 'l) \<Rightarrow> bool"
    and f :: "'g \<Rightarrow> 'h"
    and k :: "'l \<Rightarrow> 'm"
  assumes inv_step: "inv g ls \<Longrightarrow> tstep t g (ls t) g' l' \<Longrightarrow> inv g' (ls(t := l'))"
    and simulates: "inv g ls \<Longrightarrow> tstep t g (ls t) g' l' \<Longrightarrow>
      spec t (f g) (k (ls t)) (f g') (k l') \<or> f g' = f g \<and> k l' = k (ls t)"
begin

lemma refines:
  assumes "reachable tstep s0 s" "inv (shared s0) (locals s0)"
  shows "reachable spec (abs_pool f k s0) (abs_pool f k s)"
  using assms(1)
proof induction
  case (step s s')
  have inv: "inv (shared s) (locals s)"
    using reachable_invariant [where I = inv, OF step.hyps(1) assms(2)] inv_step by blast
  from step.hyps(2) obtain t g' l' where
    st: "tstep t (shared s) (locals s t) g' l'" "s' = \<lparr>shared = g', locals = (locals s)(t := l')\<rparr>"
    by cases
  let ?a = "abs_pool f k s"
  have a': "abs_pool f k s' = \<lparr>shared = f g', locals = (locals ?a)(t := k l')\<rparr>"
    by (simp add: st(2) abs_pool_upd) (simp add: abs_pool_def)
  from simulates [OF inv st(1)] show ?case
  proof
    assume "spec t (f (shared s)) (k (locals s t)) (f g') (k l')"
    then have "spec t (shared ?a) (locals ?a t) (f g') (k l')" by (simp add: abs_pool_def)
    from reachable.step [OF step.IH pool_step.step [where tstep = spec, OF this]] show ?thesis by (simp add: a')
  next
    assume "f g' = f (shared s) \<and> k l' = k (locals s t)"
    then have "abs_pool f k s' = ?a" unfolding a' by (auto simp: abs_pool_def)
    with step.IH show ?thesis by simp
  qed
qed (rule reachable.start)

end

end
