(* ===== verification/RwLockSpec.thy ===== *)
theory RwLockSpec
  imports RwLock PoolRefinement
begin

text \<open>
  What the read-write lock of \<^verbatim>\<open>exercises/03_os_concurrency/05_rwlock/src/lib.rs\<close> is meant to be: a number of
  readers, a writer, and whether a writer has asked for the lock, with operations that happen at one
  instant. The word and the loops of theory RwLock are the same lock: they do nothing else, and can do
  everything it can.
\<close>

section \<open>The specification\<close>

record rw_spec =
  reader_count :: nat
  writer_in :: bool
  writer_asks :: bool

datatype rw_role = Outside | Asks_read | Reads | Asks_write | Writes

inductive spec_step :: "nat set \<Rightarrow> (rw_spec, rw_role) thread_step" for writers where
  ask_read: "spec_step writers t g Outside g Asks_read"
| enter_read: "\<not> writer_in g \<Longrightarrow> \<not> writer_asks g \<Longrightarrow> reader_count g < 2 ^ 30 - 1 \<Longrightarrow>
    spec_step writers t g Asks_read (g\<lparr>reader_count := reader_count g + 1\<rparr>) Reads"
| leave_read: "spec_step writers t g Reads (g\<lparr>reader_count := reader_count g - 1\<rparr>) Outside"
| ask_write: "t \<in> writers \<Longrightarrow> spec_step writers t g Outside (g\<lparr>writer_asks := True\<rparr>) Asks_write"
| enter_write: "\<not> writer_in g \<Longrightarrow> reader_count g = 0 \<Longrightarrow>
    spec_step writers t g Asks_write (g\<lparr>writer_in := True, writer_asks := False\<rparr>) Writes"
| leave_write: "spec_step writers t g Writes (g\<lparr>writer_in := False, writer_asks := False\<rparr>) Outside"

definition spec_init :: "(rw_spec, rw_role) pool" where
  "spec_init = \<lparr>shared = \<lparr>reader_count = 0, writer_in = False, writer_asks = False\<rparr>, locals = (\<lambda>_. Outside)\<rparr>"

section \<open>What the word and the loops stand for\<close>

definition abs_word :: "u32 \<Rightarrow> rw_spec" where
  "abs_word g = \<lparr>reader_count = readers g, writer_in = holding g, writer_asks = waiting g\<rparr>"

fun abs_role :: "rw \<Rightarrow> rw_role" where
  "abs_role Idle = Outside"
| "abs_role R_loop = Asks_read"
| "abs_role (R_loaded s) = Asks_read"
| "abs_role Reading = Reads"
| "abs_role W_loop = Asks_write"
| "abs_role (W_loaded s) = Asks_write"
| "abs_role W_second = Asks_write"
| "abs_role Writing = Writes"

lemma abs_word_eq:
  "abs_word g = \<lparr>reader_count = c, writer_in = b, writer_asks = a\<rparr> \<longleftrightarrow>
   readers g = c \<and> holding g = b \<and> waiting g = a"
  by (auto simp: abs_word_def)

lemma readers_less: "readers g < 2 ^ 30"
  by (simp add: readers_def)

lemma abs_word_read:
  assumes "\<not> read_spins s"
  shows "abs_word (s + 1) = (abs_word s)\<lparr>reader_count := readers s + 1\<rparr>" "\<not> waiting s" "\<not> holding s"
    "readers s < 2 ^ 30 - 1"
proof -
  have s: "\<not> waiting s" "\<not> holding s" "readers s < 2 ^ 30 - 1"
    using assms readers_less [of s] by (auto simp: read_spins_iff)
  then show "abs_word (s + 1) = (abs_word s)\<lparr>reader_count := readers s + 1\<rparr>"
    using read_exchange_parts [OF assms] by (simp add: abs_word_def)
  show "\<not> waiting s" "\<not> holding s" "readers s < 2 ^ 30 - 1" by (rule s)+
qed

lemma abs_word_write:
  "readers g = 0 \<Longrightarrow> abs_word WRITER_HOLDING = (abs_word g)\<lparr>writer_in := True, writer_asks := False\<rparr>"
  using holding_parts by (simp add: abs_word_def)

lemma abs_word_announce: "abs_word (write_announce g) = (abs_word g)\<lparr>writer_asks := True\<rparr>"
  using write_announce_parts [of g] by (simp add: abs_word_def)

lemma abs_word_drop:
  "readers g \<noteq> 0 \<Longrightarrow> abs_word (read_drop g) = (abs_word g)\<lparr>reader_count := readers g - 1\<rparr>"
  "abs_word (write_drop g) = (abs_word g)\<lparr>writer_in := False, writer_asks := False\<rparr>"
  using read_drop_parts [of g] write_drop_parts [of g] by (simp_all add: abs_word_def)

lemma abs_word_sel [simp]:
  "reader_count (abs_word g) = readers g" "writer_in (abs_word g) = holding g" "writer_asks (abs_word g) = waiting g"
  by (simp_all add: abs_word_def)

lemma reading_readers: "rw_inv g ls \<Longrightarrow> ls t = Reading \<Longrightarrow> readers g \<noteq> 0"
  by (auto simp: rw_inv_def reading_def)

lemma rw_step_simulates:
  assumes "rw_inv g ls" "rw_step ws t g (ls t) g' l'"
  shows "spec_step ws t (abs_word g) (abs_role (ls t)) (abs_word g') (abs_role l') \<or>
    abs_word g' = abs_word g \<and> abs_role l' = abs_role (ls t)"
  using assms(2)
proof (cases rule: rw_step.cases)
  case read
  then show ?thesis by (simp add: spec_step.ask_read)
next
  case (read_cas s r)
  show ?thesis
  proof (cases "g = s")
    case True
    with read_cas have g: "g' = g + 1" "l' = Reading" by (auto simp: read_exchange_def compare_exchange_def)
    note e = abs_word_read [OF read_cas(3)]
    show ?thesis
      using spec_step.enter_read [of "abs_word g" ws t] e g True read_cas(1) by simp
  qed (use read_cas in \<open>auto simp: read_exchange_def compare_exchange_def\<close>)
next
  case read_done
  then show ?thesis using spec_step.leave_read [of ws t "abs_word g"] abs_word_drop(1) [of g] reading_readers [OF assms(1)]
    by simp
next
  case write_start
  then show ?thesis using spec_step.ask_write [of t ws "abs_word g"] by (simp add: abs_word_announce)
next
  case (write_cas s r)
  show ?thesis
  proof (cases "g = s OR WRITER_WAITING")
    case True
    have "readers s = 0" "\<not> holding s" using write_cas(3) by (simp_all add: write_spins_iff)
    then have "readers g = 0" "\<not> holding g" using True write_announce_parts [of s] by (simp_all add: write_announce_def)
    then show ?thesis
      using spec_step.enter_write [of "abs_word g" ws t] True write_cas
      by (auto simp: abs_word_write write_exchange_def compare_exchange_def)
  qed (use write_cas in \<open>auto simp: write_exchange_def compare_exchange_def\<close>)
next
  case (write_cas_free r)
  show ?thesis
  proof (cases "g = 0")
    case True
    then have "readers g = 0" "\<not> holding g" by (simp_all add: readers_def)
    then show ?thesis
      using spec_step.enter_write [of "abs_word g" ws t] True write_cas_free
      by (auto simp: abs_word_write write_exchange_free_def compare_exchange_def)
  qed (use write_cas_free in \<open>auto simp: write_exchange_free_def compare_exchange_def\<close>)
next
  case write_done
  then show ?thesis using spec_step.leave_write [of ws t "abs_word g"] by (simp add: abs_word_drop)
qed auto

interpretation rw: pool_refinement "rw_step ws" "spec_step ws" rw_inv abs_word abs_role
  for ws
  by unfold_locales (rule rw_inv_step rw_step_simulates; assumption)+

section \<open>Nothing is lost\<close>

text \<open>Whatever the specification lets a thread do, the thread can do, from wherever it is in its loop, when
  the others let it run.\<close>

lemmas rw_alone = alone_step [where tstep = "rw_step ws" for ws]

lemma read_gets_in:
  assumes "\<not> read_spins g" "abs_role l = Asks_read"
  shows "(alone (rw_step ws) t)\<^sup>*\<^sup>* (g, l) (g + 1, Reading)"
proof -
  let ?run = "(alone (rw_step ws) t)\<^sup>*\<^sup>*"
  have cas: "?run (g, R_loaded g) (g + 1, Reading)"
    using rw_step.read_cas [OF assms(1), of g "Inr g" "g + 1" ws t]
    by (auto simp: read_exchange_def compare_exchange_def intro: rw_alone)
  then have loop: "?run (g, R_loop) (g + 1, Reading)" by (rule rw_alone [OF rw_step.read_load])
  consider "l = R_loop" | "l = R_loaded g" | s where "l = R_loaded s" "s \<noteq> g" "read_spins s"
    | s where "l = R_loaded s" "s \<noteq> g" "\<not> read_spins s"
    using assms(2) by (cases l) auto
  then show ?thesis
  proof cases
    case 3
    then show ?thesis using rw_alone [OF rw_step.read_spin loop] by simp
  next
    case 4
    then have "rw_step ws t g l g R_loop"
      using rw_step.read_cas [OF 4(3), of g "Inl g" g ws t] by (simp add: read_exchange_def compare_exchange_def)
    from rw_alone [OF this loop] show ?thesis .
  qed (use cas loop in simp_all)
qed

lemma write_gets_in:
  assumes "readers g = 0" "\<not> holding g" "abs_role l = Asks_write"
  shows "(alone (rw_step ws) t)\<^sup>*\<^sup>* (g, l) (WRITER_HOLDING, Writing)"
proof -
  let ?run = "(alone (rw_step ws) t)\<^sup>*\<^sup>*" and ?in = "(WRITER_HOLDING, Writing)"
  have ns: "\<not> write_spins g" using assms(1,2) by (simp add: write_spins_iff)
  have zero: "?run (0, W_second) ?in"
    using rw_step.write_cas_free [of 0 "Inr 0" WRITER_HOLDING ws t]
    by (auto simp: write_exchange_free_def compare_exchange_def intro: rw_alone)
  have cas: "rw_step ws t g (W_loaded s) WRITER_HOLDING Writing" if "\<not> write_spins s" "g = s OR WRITER_WAITING" for s
    using rw_step.write_cas [OF that(1), of g "Inr g" WRITER_HOLDING ws t] that(2)
    by (simp add: write_exchange_def compare_exchange_def)
  have miss: "rw_step ws t g (W_loaded s) g W_second" if "\<not> write_spins s" "g \<noteq> s OR WRITER_WAITING" for s
    using rw_step.write_cas [OF that(1), of g "Inl g" g ws t] that(2)
    by (simp add: write_exchange_def compare_exchange_def)
  have free: "g = g OR WRITER_WAITING \<or> g = 0" by (rule free_word [OF assms(1,2)])
  have loaded: "?run (g, W_loaded g) ?in"
  proof (cases "g = g OR WRITER_WAITING")
    case True
    from rw_alone [OF cas [OF ns True]] show ?thesis by simp
  next
    case False
    from rw_alone [OF miss [OF ns False]] False free zero show ?thesis by simp
  qed
  then have loop: "?run (g, W_loop) ?in" by (rule rw_alone [OF rw_step.write_load])
  have second: "?run (g, W_second) ?in"
  proof (cases "g = 0")
    case False
    then have "rw_step ws t g W_second g W_loop"
      using rw_step.write_cas_free [of g "Inl g" g ws t] by (simp add: write_exchange_free_def compare_exchange_def)
    from rw_alone [OF this loop] show ?thesis .
  qed (use zero in simp)
  show ?thesis
  proof (cases l)
    case (W_loaded s)
    consider "write_spins s" | "\<not> write_spins s" "g = s OR WRITER_WAITING" | "\<not> write_spins s" "g \<noteq> s OR WRITER_WAITING"
      by blast
    then show ?thesis
    proof cases
      case 1
      then show ?thesis using W_loaded rw_alone [OF rw_step.write_spin loop] by simp
    next
      case 2
      then show ?thesis using W_loaded rw_alone [OF cas] by simp
    next
      case 3
      then show ?thesis using W_loaded rw_alone [OF miss second] by simp
    qed
  qed (use assms(3) loop second in auto)
qed

lemma spec_step_possible:
  assumes "rw_inv g ls" "spec_step ws t (abs_word g) (abs_role (ls t)) h r"
  shows "\<exists>g' l'. (alone (rw_step ws) t)\<^sup>*\<^sup>* (g, ls t) (g', l') \<and> abs_word g' = h \<and> abs_role l' = r"
proof -
  let ?run = "(alone (rw_step ws) t)\<^sup>*\<^sup>*"
  have one: "?run (g, ls t) (g', l')" if "rw_step ws t g (ls t) g' l'" for g' l'
    using rw_alone [OF that] by blast
  have idle: "ls t = Idle" if "abs_role (ls t) = Outside" using that by (cases "ls t") simp_all
  have reads: "ls t = Reading" if "abs_role (ls t) = Reads" using that by (cases "ls t") simp_all
  have writes: "ls t = Writing" if "abs_role (ls t) = Writes" using that by (cases "ls t") simp_all
  show ?thesis
    using assms(2)
  proof (cases rule: spec_step.cases)
    case ask_read
    then show ?thesis using one [of g R_loop] idle rw_step.read [of ws t g] by (intro exI conjI) auto
  next
    case enter_read
    then have "\<not> read_spins g" by (simp add: read_spins_iff)
    from read_gets_in [OF this, of "ls t" ws t] abs_word_read(1) [OF this] enter_read show ?thesis
      by (intro exI conjI) auto
  next
    case leave_read
    then show ?thesis
      using one [of "read_drop g" Idle] reads rw_step.read_done [of ws t g] abs_word_drop(1) [of g]
        reading_readers [OF assms(1), of t]
      by (intro exI conjI) auto
  next
    case ask_write
    then show ?thesis
      using one [of "write_announce g" W_loop] idle rw_step.write_start [of t ws g] abs_word_announce [of g]
      by (intro exI conjI) auto
  next
    case enter_write
    then show ?thesis
      using write_gets_in [of g "ls t" ws t] abs_word_write [of g] by (intro exI conjI) auto
  next
    case leave_write
    then show ?thesis
      using one [of "write_drop g" Idle] writes rw_step.write_done [of ws t g] abs_word_drop(2) [of g]
      by (intro exI conjI) auto
  qed
qed

text \<open>C26: The lock refines its specification, and exactly: every state that threads at the atomic operations
  of \<^verbatim>\<open>read\<close>, \<^verbatim>\<open>write\<close> and the guards can reach stands for one that the specification reaches, and
  whatever the specification can do there, the threads can do.\<close>

theorem rwlock_refines_spec:
  assumes "reachable (rw_step ws) rw_init s"
  shows "reachable (spec_step ws) spec_init (abs_pool abs_word abs_role s) \<and>
    (\<forall>a. pool_step (spec_step ws) (abs_pool abs_word abs_role s) a \<longrightarrow>
      (\<exists>s'. reachable (rw_step ws) s s' \<and> abs_pool abs_word abs_role s' = a))"
proof (intro conjI allI impI)
  have inv0: "rw_inv (shared rw_init) (locals rw_init)"
    by (rule rw_inv_reachable [OF reachable.start])
  have "abs_pool abs_word abs_role rw_init = spec_init"
    by (simp add: abs_pool_def rw_init_def spec_init_def abs_word_def new_def readers_def)
  with rw.refines [OF assms inv0] show "reachable (spec_step ws) spec_init (abs_pool abs_word abs_role s)" by simp
  fix a
  assume "pool_step (spec_step ws) (abs_pool abs_word abs_role s) a"
  then obtain t h r where st: "spec_step ws t (abs_word (shared s)) (abs_role (locals s t)) h r"
    "a = \<lparr>shared = h, locals = (\<lambda>u. abs_role (locals s u))(t := r)\<rparr>"
    by cases (auto simp: abs_pool_def)
  from spec_step_possible [OF rw_inv_reachable [OF assms] st(1)] obtain g' l' where
    "(alone (rw_step ws) t)\<^sup>*\<^sup>* (shared s, locals s t) (g', l')" "abs_word g' = h" "abs_role l' = r"
    by blast
  from alone_reachable [OF this(1)] this(2,3) st(2)
  show "\<exists>s'. reachable (rw_step ws) s s' \<and> abs_pool abs_word abs_role s' = a"
    by (intro exI [of _ "\<lparr>shared = g', locals = (locals s)(t := l')\<rparr>"]) (simp add: abs_pool_upd)
qed

theorem rwlock_refines_spec_witness:
  "\<exists>s'. reachable (rw_step {1}) rw_init s' \<and>
    abs_pool abs_word abs_role s' = spec_init\<lparr>locals := (\<lambda>_. Outside)(3 := Asks_read)\<rparr>"
proof -
  have init: "abs_pool abs_word abs_role rw_init = spec_init"
    by (simp add: abs_pool_def rw_init_def spec_init_def abs_word_def new_def readers_def)
  have "pool_step (spec_step {1}) (abs_pool abs_word abs_role rw_init)
      (spec_init\<lparr>locals := (\<lambda>_. Outside)(3 := Asks_read)\<rparr>)"
    unfolding init using pool_step.step [of "spec_step {1}" 3 spec_init, OF _] spec_step.ask_read [of "{1}" 3]
    by (simp add: spec_init_def)
  with rwlock_refines_spec [OF reachable.start, of "{1}"] show ?thesis by blast
qed

end
