(* ===== verification/AtomicCounter.thy ===== *)
theory AtomicCounter
  imports Interleaving
begin

text \<open>
  \<^verbatim>\<open>exercises/03_os_concurrency/01_atomic_counter/src/lib.rs\<close>: a 64-bit atomic counter. Each
  operation but \<^verbatim>\<open>fetch_multiply\<close> is one atomic access; that one is a loop of compare-and-swaps.
\<close>

section \<open>The operations\<close>

text \<open>Each operation returns its result and the new value. \<^verbatim>\<open>fetch_add\<close> and \<^verbatim>\<open>fetch_sub\<close> wrap around
  in every build profile; the product of \<^verbatim>\<open>fetch_multiply\<close> is an ordinary \<^verbatim>\<open>*\<close>.\<close>

definition new :: "u64 \<Rightarrow> u64" where
  "new init = init"

definition increment :: "u64 \<Rightarrow> u64 \<times> u64" where
  "increment v = (v, v + 1)"

definition decrement :: "u64 \<Rightarrow> u64 \<times> u64" where
  "decrement v = (v, v - 1)"

definition get :: "u64 \<Rightarrow> u64" where
  "get v = v"

definition compare_and_swap :: "u64 \<Rightarrow> u64 \<Rightarrow> u64 \<Rightarrow> (u64 + u64) \<times> u64" where
  "compare_and_swap v expected new_val = compare_exchange v expected new_val"

text \<open>One round of the loop of \<^verbatim>\<open>fetch_multiply\<close>, which expects \<open>current\<close>: returning, or the value
  for the next round.\<close>

definition multiply_round :: "bool \<Rightarrow> u64 \<Rightarrow> u64 \<Rightarrow> u64 \<Rightarrow> ((u64 + u64) \<times> u64) res" where
  "multiply_round ck multiplier current v =
     bind_res (mul_ck ck current multiplier) (\<lambda>n. Inr (compare_and_swap v current n))"

text \<open>Without other threads the first round succeeds.\<close>

definition fetch_multiply :: "bool \<Rightarrow> u64 \<Rightarrow> u64 \<Rightarrow> (u64 \<times> u64) res" where
  "fetch_multiply ck multiplier v =
     bind_res (multiply_round ck multiplier (get v) v) (\<lambda>(r, v').
       case r of Inr old \<Rightarrow> Inr (old, v') | Inl actual \<Rightarrow> Inl NoReturn)"

lemma fetch_multiply_seq:
  "fetch_multiply ck m v =
     (if ck \<and> 2 ^ 64 \<le> unat v * unat m then Inl Overflow else Inr (v, v * m))"
  by (simp add: fetch_multiply_def multiply_round_def compare_and_swap_def compare_exchange_def
      get_def mul_ck_def)

section \<open>Threads\<close>

datatype counter_op = Increment | Decrement | Cas u64 u64 | Multiply u64

text \<open>A thread between calls, in the loop of \<^verbatim>\<open>fetch_multiply\<close>, or after a panic.\<close>

datatype pc = Idle | Round u64 u64 | Panicked

text \<open>Beside the value, the operations that have taken effect, with the value each returned, last
  first.\<close>

record counter =
  counter_value :: u64
  effects :: "(counter_op \<times> (u64 + u64)) list"

definition atomic_op :: "counter_op \<Rightarrow> u64 \<Rightarrow> (u64 + u64) \<times> u64" where
  "atomic_op x v =
     (case x of
        Increment \<Rightarrow> (case increment v of (r, v') \<Rightarrow> (Inr r, v'))
      | Decrement \<Rightarrow> (case decrement v of (r, v') \<Rightarrow> (Inr r, v'))
      | Cas e n \<Rightarrow> compare_and_swap v e n
      | Multiply m \<Rightarrow> (Inr v, v * m))"

inductive counter_step :: "bool \<Rightarrow> (counter, pc) thread_step" for ck where
  atomic: "x \<in> {Increment, Decrement} \<or> (\<exists>e n. x = Cas e n) \<Longrightarrow>
    atomic_op x (counter_value g) = (r, v) \<Longrightarrow>
    counter_step ck t g Idle \<lparr>counter_value = v, effects = (x, r) # effects g\<rparr> Idle"
| enter: "counter_step ck t g Idle g (Round m (get (counter_value g)))"
| panic: "multiply_round ck m current (counter_value g) = Inl e \<Longrightarrow>
    counter_step ck t g (Round m current) g Panicked"
| retry: "multiply_round ck m current (counter_value g) = Inr (Inl actual, v) \<Longrightarrow>
    counter_step ck t g (Round m current) g (Round m actual)"
| finish: "multiply_round ck m current (counter_value g) = Inr (Inr old, v) \<Longrightarrow>
    counter_step ck t g (Round m current)
      \<lparr>counter_value = v, effects = (Multiply m, Inr old) # effects g\<rparr> Idle"

definition counter_init :: "u64 \<Rightarrow> (counter, pc) pool" where
  "counter_init v = \<lparr>shared = \<lparr>counter_value = new v, effects = []\<rparr>, locals = (\<lambda>_. Idle)\<rparr>"

text \<open>The operations replayed one after the other: the value they end with, and whether each
  returned what it would have returned then.\<close>

fun replay :: "u64 \<Rightarrow> (counter_op \<times> (u64 + u64)) list \<Rightarrow> u64 \<times> bool" where
  "replay v [] = (v, True)"
| "replay v ((x, r) # xs) =
     (let (u, ok) = replay v xs; (r', u') = atomic_op x u in (u', ok \<and> r = r'))"

lemma multiply_round_ok:
  "multiply_round ck m c v = Inr (Inr old, v') \<Longrightarrow>
   old = v \<and> v' = v * m \<and> (ck \<longrightarrow> unat v * unat m < 2 ^ 64)"
  by (auto simp: multiply_round_def compare_and_swap_def compare_exchange_def mul_ck_def
      split: if_splits)

lemma multiply_round_current:
  "multiply_round ck m v v \<noteq> Inr (Inl a, w)"
  by (auto simp: multiply_round_def compare_and_swap_def compare_exchange_def mul_ck_def)

definition counter_inv :: "bool \<Rightarrow> u64 \<Rightarrow> counter \<Rightarrow> bool" where
  "counter_inv ck v0 g \<longleftrightarrow> replay v0 (effects g) = (counter_value g, True)"

lemma counter_inv_step:
  assumes "counter_inv ck v0 g" "counter_step ck t g l g' l'"
  shows "counter_inv ck v0 g'"
  using assms(2)
proof (cases rule: counter_step.cases)
  case (atomic x r v)
  then show ?thesis using assms(1) by (simp add: counter_inv_def)
next
  case (finish m current old v)
  then show ?thesis using assms(1) multiply_round_ok [OF finish(4)]
    by (simp add: counter_inv_def atomic_op_def)
qed (use assms(1) in simp_all)

text \<open>C15: the counter is linearizable. Whatever threads do, the operations that have taken effect, in
  the order of their successful accesses, lead from the initial value to the current one, and each
  returned what it would have returned alone at its place in that order; in particular
  \<^verbatim>\<open>fetch_multiply\<close> is one atomic multiplication, and no increment is lost.\<close>

theorem counter_linearizable:
  assumes "reachable (counter_step ck) (counter_init v) s"
  shows "replay v (effects (shared s)) = (counter_value (shared s), True)"
proof -
  have "counter_inv ck v (shared s)"
    using assms
  proof (rule reachable_invariant [where I = "\<lambda>g ls. counter_inv ck v g"])
    show "counter_inv ck v (shared (counter_init v))"
      by (simp add: counter_init_def new_def counter_inv_def)
  qed (rule counter_inv_step)
  then show ?thesis by (simp add: counter_inv_def)
qed

theorem counter_linearizable_witness:
  "\<exists>s. reachable (counter_step True) (counter_init 5) s \<and> counter_value (shared s) = 18 \<and>
    replay 5 (effects (shared s)) = (18, True)"
proof -
  let ?xs = "[(0, \<lparr>counter_value = 5, effects = []\<rparr>, Round 3 5),
    (1, \<lparr>counter_value = 6, effects = [(Increment, Inr 5)]\<rparr>, Idle),
    (0, \<lparr>counter_value = 6, effects = [(Increment, Inr 5)]\<rparr>, Round 3 6),
    (0, \<lparr>counter_value = 18, effects = [(Multiply 3, Inr 6), (Increment, Inr 5)]\<rparr>, Idle)]"
  let ?s = "run_pool (counter_init 5) ?xs"
  have r: "reachable (counter_step True) (counter_init 5) ?s"
    by (rule legal_reachable [OF reachable.start])
      (simp add: counter_init_def new_def counter_step.simps atomic_op_def increment_def get_def
        multiply_round_def compare_and_swap_def compare_exchange_def mul_ck_def)
  have "counter_value (shared ?s) = 18" by simp
  with r counter_linearizable [OF r] show ?thesis by metis
qed

text \<open>Overflow is treated differently by the operations: an increment of the largest value wraps
  to zero in every build, while \<^verbatim>\<open>fetch_multiply\<close> panics in a build with overflow checks and wraps
  in one without.\<close>

theorem counter_overflow:
  "increment (- 1) = (- 1, 0) \<and> decrement 0 = (0, - 1) \<and>
   fetch_multiply ck m v =
     (if ck \<and> 2 ^ 64 \<le> unat v * unat m then Inl Overflow else Inr (v, v * m))"
  by (simp add: increment_def decrement_def fetch_multiply_seq)

end
