(* ===== verification/MemoryOrdering.thy ===== *)
theory MemoryOrdering
  imports Interleaving
begin

text \<open>
  \<^verbatim>\<open>exercises/03_os_concurrency/02_atomic_ordering/src/lib.rs\<close>: a flag that publishes data, and a
  cell that is initialised once. The first is about memory orderings, so its atomics are not
  interleaved sequentially consistently: each location keeps the history of its writes, a thread
  has a view of how much of each history it must respect, a read may return any write its view does
  not exclude, a release write carries the writer's view, and an acquire read takes it over.
\<close>

section \<open>Locations with histories and views\<close>

datatype ordering = Relaxed | Acquire | Release | AcqRel | SeqCst

definition releases :: "ordering \<Rightarrow> bool" where
  "releases o' \<longleftrightarrow> o' = Release \<or> o' = AcqRel \<or> o' = SeqCst"

definition acquires :: "ordering \<Rightarrow> bool" where
  "acquires o' \<longleftrightarrow> o' = Acquire \<or> o' = AcqRel \<or> o' = SeqCst"

text \<open>A view is the index of a write in the history of \<^verbatim>\<open>data\<close> and of \<^verbatim>\<open>ready\<close>.\<close>

record view =
  v_data :: nat
  v_ready :: nat

record FlagChannel =
  data :: "(u32 \<times> view) list"
  ready :: "(bool \<times> view) list"

definition view0 :: view where
  "view0 = \<lparr>v_data = 0, v_ready = 0\<rparr>"

definition channel_new :: FlagChannel where
  "channel_new = \<lparr>data = [(0, view0)], ready = [(False, view0)]\<rparr>"

definition join :: "view \<Rightarrow> view \<Rightarrow> view" where
  "join a b = \<lparr>v_data = max (v_data a) (v_data b), v_ready = max (v_ready a) (v_ready b)\<rparr>"

text \<open>A store appends to the history; its message carries the writer's view when it releases.\<close>

definition store_data :: "ordering \<Rightarrow> u32 \<Rightarrow> FlagChannel \<Rightarrow> view \<Rightarrow> FlagChannel \<times> view" where
  "store_data o' x c w =
     (let w' = w\<lparr>v_data := length (data c)\<rparr> in
      (c\<lparr>data := data c @ [(x, if releases o' then w' else view0)]\<rparr>, w'))"

definition store_ready :: "ordering \<Rightarrow> bool \<Rightarrow> FlagChannel \<Rightarrow> view \<Rightarrow> FlagChannel \<times> view" where
  "store_ready o' b c w =
     (let w' = w\<lparr>v_ready := length (ready c)\<rparr> in
      (c\<lparr>ready := ready c @ [(b, if releases o' then w' else view0)]\<rparr>, w'))"

text \<open>A load returns any write from the view on.\<close>

definition load_data :: "ordering \<Rightarrow> FlagChannel \<Rightarrow> view \<Rightarrow> u32 \<Rightarrow> view \<Rightarrow> bool" where
  "load_data o' c w x w' \<longleftrightarrow>
     (\<exists>i. v_data w \<le> i \<and> i < length (data c) \<and> x = fst (data c ! i) \<and>
       w' = (if acquires o' then join else (\<lambda>a b. a)) (w\<lparr>v_data := i\<rparr>) (snd (data c ! i)))"

definition load_ready :: "ordering \<Rightarrow> FlagChannel \<Rightarrow> view \<Rightarrow> bool \<Rightarrow> view \<Rightarrow> bool" where
  "load_ready o' c w b w' \<longleftrightarrow>
     (\<exists>i. v_ready w \<le> i \<and> i < length (ready c) \<and> b = fst (ready c ! i) \<and>
       w' = (if acquires o' then join else (\<lambda>a b. a)) (w\<lparr>v_ready := i\<rparr>) (snd (ready c ! i)))"

section \<open>The channel\<close>

text \<open>The producer before its two stores, between them and after; a consumer in its loop, past it, and
  with its result. The orderings of the accesses to \<^verbatim>\<open>ready\<close> are parameters, so that the code's
  choice can be compared with weaker ones.\<close>

datatype flag_pc = Produce u32 | Stored | Produced | Spin | Seen | Got u32

type_synonym flag_thread = "flag_pc \<times> view"

inductive flag_step :: "ordering \<Rightarrow> ordering \<Rightarrow> (FlagChannel, flag_thread) thread_step"
  for wo ro where
  produce_data: "store_data Relaxed x c w = (c', w') \<Longrightarrow>
    flag_step wo ro t c (Produce x, w) c' (Stored, w')"
| produce_ready: "store_ready wo True c w = (c', w') \<Longrightarrow>
    flag_step wo ro t c (Stored, w) c' (Produced, w')"
| consume_spin: "load_ready ro c w b w' \<Longrightarrow>
    flag_step wo ro t c (Spin, w) c (if b then Seen else Spin, w')"
| consume_data: "load_data Relaxed c w x w' \<Longrightarrow>
    flag_step wo ro t c (Seen, w) c (Got x, w')"

inductive_simps flag_step_from:
  "flag_step wo ro t c (Produce x, w) c' l"
  "flag_step wo ro t c (Stored, w) c' l"
  "flag_step wo ro t c (Spin, w) c' l"
  "flag_step wo ro t c (Seen, w) c' l"

text \<open>What the code chooses.\<close>

definition produce_ordering :: ordering where "produce_ordering = Release"
definition consume_ordering :: ordering where "consume_ordering = Acquire"

text \<open>Thread 0 produces \<open>x\<close>; every other thread consumes.\<close>

definition flag_init :: "u32 \<Rightarrow> (FlagChannel, flag_thread) pool" where
  "flag_init x = \<lparr>shared = channel_new, locals = (\<lambda>t. (if t = 0 then Produce x else Spin, view0))\<rparr>"

text \<open>\<^verbatim>\<open>reset\<close> makes the initial values the latest ones.\<close>

definition reset :: "FlagChannel \<Rightarrow> view \<Rightarrow> FlagChannel \<times> view" where
  "reset c w = (let (c1, w1) = store_ready Relaxed False c w in store_data Relaxed 0 c1 w1)"

text \<open>The invariant: the histories are what the producer has written so far, and whoever has seen the
  flag has a view that excludes the initial data.\<close>

definition producer_ok :: "u32 \<Rightarrow> FlagChannel \<Rightarrow> flag_thread \<Rightarrow> bool" where
  "producer_ok x c l \<longleftrightarrow>
     (case fst l of
        Produce y \<Rightarrow> y = x \<and> c = channel_new \<and> snd l = view0
      | Stored \<Rightarrow> map fst (data c) = [0, x] \<and> ready c = [(False, view0)] \<and> v_data (snd l) = 1
      | Produced \<Rightarrow> map fst (data c) = [0, x] \<and>
          (\<exists>w. ready c = [(False, view0), (True, w)] \<and> v_data w = 1)
      | _ \<Rightarrow> False)"

definition consumer_ok :: "u32 \<Rightarrow> FlagChannel \<Rightarrow> flag_thread \<Rightarrow> bool" where
  "consumer_ok x c l \<longleftrightarrow>
     (case fst l of
        Spin \<Rightarrow> True
      | Seen \<Rightarrow> map fst (data c) = [0, x] \<and> 1 \<le> v_data (snd l)
      | Got y \<Rightarrow> y = x
      | _ \<Rightarrow> False)"

definition flag_inv :: "u32 \<Rightarrow> FlagChannel \<Rightarrow> (nat \<Rightarrow> flag_thread) \<Rightarrow> bool" where
  "flag_inv x c ls \<longleftrightarrow> producer_ok x c (ls 0) \<and> (\<forall>t. t \<noteq> 0 \<longrightarrow> consumer_ok x c (ls t))"

lemma flag_inv_consumer:
  "flag_inv x c ls \<Longrightarrow> t \<noteq> 0 \<Longrightarrow> consumer_ok x c l \<Longrightarrow> flag_inv x c (ls(t := l))"
  by (simp add: flag_inv_def)

lemma flag_inv_producer:
  "flag_inv x c ls \<Longrightarrow> producer_ok x c' l \<Longrightarrow>
   (\<And>m. consumer_ok x c m \<Longrightarrow> consumer_ok x c' m) \<Longrightarrow> flag_inv x c' (ls(0 := l))"
  by (simp add: flag_inv_def)

lemma flag_inv_step:
  assumes "flag_inv x c ls" "flag_step Release Acquire t c (ls t) c' l'"
  shows "flag_inv x c' (ls(t := l'))"
proof (cases "t = 0")
  case True
  then have p: "producer_ok x c (ls 0)" using assms(1) by (simp add: flag_inv_def)
  have "producer_ok x c' l' \<and> (\<forall>m. consumer_ok x c m \<longrightarrow> consumer_ok x c' m)"
    using assms(2) p unfolding True
    by (cases rule: flag_step.cases)
      (auto simp: producer_ok_def consumer_ok_def store_data_def store_ready_def channel_new_def
        releases_def Let_def split: flag_pc.splits)
  then show ?thesis using flag_inv_producer [OF assms(1)] True by blast
next
  case False
  then have k: "consumer_ok x c (ls t)" and p: "producer_ok x c (ls 0)"
    using assms(1) by (auto simp: flag_inv_def)
  from assms(2) have "c' = c \<and> consumer_ok x c l'"
  proof (cases rule: flag_step.cases)
    case (consume_spin w b w')
    show ?thesis
    proof (cases b)
      case True
      with consume_spin obtain i where i: "i < length (ready c)" "fst (ready c ! i)"
        "w' = join (w\<lparr>v_ready := i\<rparr>) (snd (ready c ! i))"
        by (auto simp: load_ready_def acquires_def)
      have "map fst (data c) = [0, x] \<and> 1 \<le> v_data (snd (ready c ! i))"
        using p i(1,2)
        by (auto simp: producer_ok_def channel_new_def less_Suc_eq split: flag_pc.splits)
      then show ?thesis using consume_spin True i(3) by (simp add: consumer_ok_def join_def max.coboundedI2)
    qed (use consume_spin in \<open>simp add: consumer_ok_def\<close>)
  next
    case (consume_data w y w')
    then have d: "map fst (data c) = [0, x]" "1 \<le> v_data w" using k by (simp_all add: consumer_ok_def)
    from d(1) obtain a b where "data c = [a, b]" "fst b = x" by (auto simp: map_eq_Cons_conv)
    moreover from consume_data obtain i where "v_data w \<le> i" "i < length (data c)" "y = fst (data c ! i)"
      by (auto simp: load_data_def)
    moreover from calculation d(2) have "i = 1" by simp
    ultimately show ?thesis using consume_data by (simp add: consumer_ok_def)
  qed (use k in \<open>auto simp: consumer_ok_def\<close>)
  then show ?thesis using flag_inv_consumer [OF assms(1) False] by simp
qed

text \<open>C14: with a release store and an acquire load of the flag, every consumer that returns has the
  produced value, however the threads run and whatever else the memory lets their loads return.\<close>

theorem flag_channel_publishes:
  assumes "reachable (flag_step produce_ordering consume_ordering) (flag_init x) s"
    and "fst (locals s t) = Got y"
  shows "y = x"
proof -
  have "flag_inv x (shared s) (locals s)"
    using assms(1) unfolding produce_ordering_def consume_ordering_def
  proof (rule reachable_invariant [where I = "flag_inv x"])
    show "flag_inv x (shared (flag_init x)) (locals (flag_init x))"
      by (simp add: flag_inv_def flag_init_def producer_ok_def consumer_ok_def)
  qed (rule flag_inv_step)
  then show ?thesis using assms(2)
    by (cases "t = 0")
      (auto simp: flag_inv_def producer_ok_def consumer_ok_def dest!: spec [of _ t])
qed

text \<open>A run in which consumer 1 sees the flag and reads the initial data.\<close>

definition flag_run :: "u32 \<Rightarrow> u32 \<Rightarrow> view \<Rightarrow> view \<Rightarrow> (nat \<times> FlagChannel \<times> flag_thread) list" where
  "flag_run x y m v =
    (let w = \<lparr>v_data = 1, v_ready = 1\<rparr>;
         c1 = channel_new\<lparr>data := [(0, view0), (x, view0)]\<rparr>;
         c2 = c1\<lparr>ready := [(False, view0), (True, m)]\<rparr>
     in [(0, c1, (Stored, \<lparr>v_data = 1, v_ready = 0\<rparr>)), (0, c2, (Produced, w)),
         (1, c2, (Seen, v)), (1, c2, (Got y, v))])"

text \<open>The steps of that run, in which the message of the flag carries the view \<open>m\<close>.\<close>

lemma flag_run_legal:
  fixes x y m v
  defines "w \<equiv> \<lparr>v_data = 1, v_ready = 1\<rparr>"
  defines "c2 \<equiv> \<lparr>data = [(0, view0), (x, view0)], ready = [(False, view0), (True, m)]\<rparr>"
  assumes "m = (if releases wo then w else view0)"
    and "load_ready ro c2 view0 True v" "load_data Relaxed c2 v y v"
  shows "legal (flag_step wo ro) (flag_init x) (flag_run x y m v)"
proof -
  let ?c1 = "channel_new\<lparr>data := [(0, view0), (x, view0)]\<rparr>"
  have c2: "?c1\<lparr>ready := [(False, view0), (True, m)]\<rparr> = c2" by (simp add: channel_new_def c2_def)
  have s1: "flag_step wo ro 0 channel_new (Produce x, view0) ?c1 (Stored, \<lparr>v_data = 1, v_ready = 0\<rparr>)"
    by (rule flag_step.produce_data)
      (simp add: store_data_def channel_new_def view0_def releases_def Let_def)
  have s2: "flag_step wo ro 0 ?c1 (Stored, \<lparr>v_data = 1, v_ready = 0\<rparr>) c2 (Produced, w)"
    by (rule flag_step.produce_ready)
      (simp add: store_ready_def channel_new_def view0_def Let_def c2_def assms(3) w_def)
  have s3: "flag_step wo ro 1 c2 (Spin, view0) c2 (Seen, v)"
    using flag_step.consume_spin [OF assms(4)] by simp
  have s4: "flag_step wo ro 1 c2 (Seen, v) c2 (Got y, v)"
    using assms(5) by (rule flag_step.consume_data)
  show ?thesis
    unfolding flag_run_def Let_def c2 w_def [symmetric]
    by (rule legal_Cons, rule s1, simp add: flag_init_def, simp add: flag_init_def,
        rule legal_Cons, rule s2, simp, simp,
        rule legal_Cons, rule s3, simp, simp add: flag_init_def,
        rule legal_Cons, rule s4, simp_all)
qed

lemma flag_run_got: "fst (locals (run_pool s (flag_run x y m v)) 1) = Got y"
  by (simp add: flag_run_def Let_def)

text \<open>Both orderings are needed: if either the store or the load of the flag is relaxed, a consumer
  can return the initial 0 instead of the value produced.\<close>

theorem flag_channel_needs_both:
  "(\<exists>s. reachable (flag_step Relaxed Acquire) (flag_init 42) s \<and> fst (locals s 1) = Got 0) \<and>
   (\<exists>s. reachable (flag_step Release Relaxed) (flag_init 42) s \<and> fst (locals s 1) = Got 0)"
proof -
  have "\<exists>s. reachable (flag_step wo ro) (flag_init 42) s \<and> fst (locals s 1) = Got 0"
    if weak: "\<not> (releases wo \<and> acquires ro)" for wo ro
  proof -
    let ?v = "\<lparr>v_data = 0, v_ready = 1\<rparr>"
    let ?m = "if releases wo then \<lparr>v_data = 1, v_ready = 1\<rparr> else view0"
    have "legal (flag_step wo ro) (flag_init 42) (flag_run 42 0 ?m ?v)"
    proof (rule flag_run_legal [OF refl])
      show "load_ready ro \<lparr>data = [(0, view0), (42, view0)], ready = [(False, view0), (True, ?m)]\<rparr>
          view0 True ?v"
        unfolding load_ready_def using weak by (intro exI [of _ 1]) (auto simp: view0_def join_def)
      show "load_data Relaxed \<lparr>data = [(0, view0), (42, view0)], ready = [(False, view0), (True, ?m)]\<rparr>
          ?v 0 ?v"
        unfolding load_data_def by (intro exI [of _ 0]) (auto simp: view0_def acquires_def)
    qed
    from legal_reachable [OF reachable.start this] flag_run_got show ?thesis by blast
  qed
  from this [of Relaxed Acquire] this [of Release Relaxed] show ?thesis
    by (simp add: releases_def acquires_def)
qed

section \<open>The once-cell\<close>

text \<open>Here interleaving is enough. A thread inside \<^verbatim>\<open>init\<close> between its exchange and its store, and
  inside \<^verbatim>\<open>get\<close> between its two loads; \<open>winners\<close> records the values of the calls whose exchange
  succeeded.\<close>

record OnceCell =
  initialized :: bool
  cell_value :: u32
  winners :: "u32 list"

definition once_new :: OnceCell where
  "once_new = \<lparr>initialized = False, cell_value = 0, winners = []\<rparr>"

datatype once_pc = Outside | Won u32 | Initialized bool | Checked | Gotten "u32 option"

definition init_exchange :: "bool \<Rightarrow> (bool + bool) \<times> bool" where
  "init_exchange b = compare_exchange b False True"

inductive once_step :: "(OnceCell, once_pc) thread_step" where
  init_ok: "init_exchange (initialized g) = (Inr old, b) \<Longrightarrow>
    once_step t g Outside (g\<lparr>initialized := b, winners := v # winners g\<rparr>) (Won v)"
| init_err: "init_exchange (initialized g) = (Inl actual, b) \<Longrightarrow>
    once_step t g Outside (g\<lparr>initialized := b\<rparr>) (Initialized False)"
| init_store: "once_step t g (Won v) (g\<lparr>cell_value := v\<rparr>) (Initialized True)"
| get_check: "once_step t g Outside g (if initialized g then Checked else Gotten None)"
| get_load: "once_step t g Checked g (Gotten (Some (cell_value g)))"
| return: "l = Initialized b \<or> l = Gotten r \<Longrightarrow> once_step t g l g Outside"

definition once_init :: "(OnceCell, once_pc) pool" where
  "once_init = \<lparr>shared = once_new, locals = (\<lambda>_. Outside)\<rparr>"

text \<open>A single thread: \<^verbatim>\<open>init\<close> and \<^verbatim>\<open>get\<close> from start to end.\<close>

definition init :: "OnceCell \<Rightarrow> u32 \<Rightarrow> bool \<times> OnceCell" where
  "init g v =
     (case init_exchange (initialized g) of
        (Inr _, b) \<Rightarrow> (True, g\<lparr>initialized := b, winners := v # winners g, cell_value := v\<rparr>)
      | (Inl _, b) \<Rightarrow> (False, g\<lparr>initialized := b\<rparr>))"

definition once_get :: "OnceCell \<Rightarrow> u32 option" where
  "once_get g = (if initialized g then Some (cell_value g) else None)"

definition once_pc_ok :: "OnceCell \<Rightarrow> once_pc \<Rightarrow> bool" where
  "once_pc_ok g l \<longleftrightarrow>
     (case l of
        Outside \<Rightarrow> True
      | Won v \<Rightarrow> initialized g \<and> winners g = [v]
      | Initialized b \<Rightarrow> initialized g \<and> (b \<longrightarrow> winners g = [cell_value g])
      | Checked \<Rightarrow> initialized g
      | Gotten r \<Rightarrow> (\<forall>x. r = Some x \<longrightarrow> initialized g \<and> (x = 0 \<or> winners g = [x])))"

definition once_inv :: "OnceCell \<Rightarrow> (nat \<Rightarrow> once_pc) \<Rightarrow> bool" where
  "once_inv g ls \<longleftrightarrow>
     (\<not> initialized g \<longrightarrow> winners g = [] \<and> cell_value g = 0) \<and>
     (initialized g \<longrightarrow> (\<exists>v. winners g = [v] \<and> cell_value g \<in> {0, v})) \<and>
     (\<forall>t. once_pc_ok g (ls t))"

lemma once_inv_upd:
  "once_inv g ls \<Longrightarrow>
   (\<not> initialized g' \<longrightarrow> winners g' = [] \<and> cell_value g' = 0) \<Longrightarrow>
   (initialized g' \<longrightarrow> (\<exists>v. winners g' = [v] \<and> cell_value g' \<in> {0, v})) \<Longrightarrow>
   once_pc_ok g' l \<Longrightarrow> (\<And>m. once_pc_ok g m \<Longrightarrow> once_pc_ok g' m) \<Longrightarrow> once_inv g' (ls(t := l))"
  by (simp add: once_inv_def)

lemma once_inv_step:
  assumes "once_inv g ls" "once_step t g (ls t) g' l'"
  shows "once_inv g' (ls(t := l'))"
proof -
  have ok: "once_pc_ok g (ls t)" and
    g: "\<not> initialized g \<longrightarrow> winners g = [] \<and> cell_value g = 0"
      "initialized g \<longrightarrow> (\<exists>v. winners g = [v] \<and> cell_value g \<in> {0, v})"
    using assms(1) by (auto simp: once_inv_def)
  from assms(2) show ?thesis
  proof (cases rule: once_step.cases)
    case (init_ok old b v)
    then have i: "\<not> initialized g" "b"
      by (auto simp: init_exchange_def compare_exchange_def split: if_splits)
    have "once_pc_ok g m \<Longrightarrow> once_pc_ok g' m" for m
      using i init_ok g by (auto simp: once_pc_ok_def split: once_pc.splits)
    then show ?thesis using init_ok i g
      by (intro once_inv_upd [OF assms(1)]) (auto simp: once_pc_ok_def)
  next
    case (init_err actual b)
    then have "initialized g" "b"
      by (auto simp: init_exchange_def compare_exchange_def split: if_splits)
    then have "g' = g" using init_err by simp
    with \<open>initialized g\<close> show ?thesis using init_err g
      by (intro once_inv_upd [OF assms(1)]) (auto simp: once_pc_ok_def)
  next
    case (init_store v)
    then have v: "initialized g" "winners g = [v]" using ok by (auto simp: once_pc_ok_def)
    have "once_pc_ok g m \<Longrightarrow> once_pc_ok g' m" for m
      using v init_store by (auto simp: once_pc_ok_def split: once_pc.splits)
    then show ?thesis using init_store v
      by (intro once_inv_upd [OF assms(1)]) (auto simp: once_pc_ok_def)
  next
    case get_check
    then show ?thesis using g by (intro once_inv_upd [OF assms(1)]) (auto simp: once_pc_ok_def)
  next
    case get_load
    then show ?thesis using g ok by (intro once_inv_upd [OF assms(1)]) (auto simp: once_pc_ok_def)
  next
    case (return b r)
    then show ?thesis using g by (intro once_inv_upd [OF assms(1)]) (auto simp: once_pc_ok_def)
  qed
qed

text \<open>C34: however threads race, at most one \<^verbatim>\<open>init\<close> succeeds; once it has returned, the cell holds its
  value; and \<^verbatim>\<open>get\<close> returns nothing but that value or 0.\<close>

theorem once_cell_single_init:
  assumes "reachable once_step once_init s"
  shows "length (winners (shared s)) \<le> 1 \<and>
    (\<forall>t. locals s t = Initialized True \<longrightarrow> winners (shared s) = [cell_value (shared s)]) \<and>
    (\<forall>t x. locals s t = Gotten (Some x) \<longrightarrow> x = 0 \<or> winners (shared s) = [x])"
proof -
  have inv: "once_inv (shared s) (locals s)"
    using assms
  proof (rule reachable_invariant [where I = once_inv])
    show "once_inv (shared once_init) (locals once_init)"
      by (simp add: once_inv_def once_init_def once_new_def once_pc_ok_def)
  qed (rule once_inv_step)
  then have "length (winners (shared s)) \<le> 1"
    by (cases "initialized (shared s)") (auto simp: once_inv_def)
  moreover have "winners (shared s) = [cell_value (shared s)]" if "locals s t = Initialized True" for t
    using inv that by (auto simp: once_inv_def once_pc_ok_def dest!: spec [of _ t])
  moreover have "x = 0 \<or> winners (shared s) = [x]" if "locals s t = Gotten (Some x)" for t x
    using inv that by (auto simp: once_inv_def once_pc_ok_def dest!: spec [of _ t])
  ultimately show ?thesis by blast
qed

text \<open>A run in which thread 2 reads the cell between the exchange and the store of thread 1.\<close>

definition early_get :: "(nat \<times> OnceCell \<times> once_pc) list" where
  "early_get =
    (let g = \<lparr>initialized = True, cell_value = 0, winners = [42]\<rparr>
     in [(1, g, Won 42), (2, g, Checked), (2, g, Gotten (Some 0))])"

lemma early_get_legal: "legal once_step once_init early_get"
  by (simp add: early_get_def Let_def once_init_def once_new_def once_step.simps init_exchange_def
      compare_exchange_def) blast

theorem once_cell_single_init_witness:
  "\<exists>s. reachable once_step once_init s \<and> length (winners (shared s)) = 1 \<and>
    (\<forall>t x. locals s t = Gotten (Some x) \<longrightarrow> x = 0 \<or> winners (shared s) = [x])"
proof -
  let ?s = "run_pool once_init early_get"
  have r: "reachable once_step once_init ?s"
    by (rule legal_reachable [OF reachable.start early_get_legal])
  have "length (winners (shared ?s)) = 1" by (simp add: early_get_def Let_def)
  with r once_cell_single_init [OF r] show ?thesis by blast
qed

text \<open>C35: \<^verbatim>\<open>get\<close> can return a value nobody initialised the cell with: the flag is set before the value
  is stored, so that a call in between returns \<^verbatim>\<open>Some(0)\<close> although the cell is being initialised
  with 42.\<close>

theorem once_cell_early_get:
  "\<exists>s. reachable once_step once_init s \<and> locals s 2 = Gotten (Some 0) \<and> winners (shared s) = [42]"
proof (intro exI conjI)
  show "reachable once_step once_init (run_pool once_init early_get)"
    by (rule legal_reachable [OF reachable.start early_get_legal])
qed (simp_all add: early_get_def Let_def)

theorem flag_channel_publishes_witness:
  "\<exists>s. reachable (flag_step produce_ordering consume_ordering) (flag_init 7) s \<and>
    fst (locals s 1) = Got 7"
proof -
  let ?w = "\<lparr>v_data = 1, v_ready = 1\<rparr>"
  let ?c2 = "\<lparr>data = [(0, view0), (7, view0)], ready = [(False, view0), (True, ?w)]\<rparr>"
  have "\<exists>y. load_data Relaxed ?c2 ?w y ?w"
    unfolding load_data_def by (intro exI exI [of _ 1]) (auto simp: acquires_def)
  then obtain y where y: "load_data Relaxed ?c2 ?w y ?w" ..
  have "load_ready Acquire ?c2 view0 True ?w"
    unfolding load_ready_def by (intro exI [of _ 1]) (auto simp: view0_def join_def acquires_def)
  then have "legal (flag_step produce_ordering consume_ordering) (flag_init 7) (flag_run 7 y ?w ?w)"
    using y by (intro flag_run_legal) (simp_all add: produce_ordering_def consume_ordering_def releases_def)
  note r = legal_reachable [OF reachable.start this]
  from flag_channel_publishes [OF r flag_run_got] r flag_run_got show ?thesis by metis
qed

end
