(* ===== verification/StackCoroutine.thy ===== *)
theory StackCoroutine
  imports Prelude
begin

text \<open>
  \<^verbatim>\<open>exercises/04_context_switch/01_stack_coroutine/src/lib.rs\<close>: saving and restoring the registers
  of a task. The assembly is a list of instructions, run by an interpreter of the RISC-V
  instructions it uses. Memory is a map from addresses to the 64-bit words stored there; contexts
  are 8-byte aligned, so that words at different addresses of theirs do not overlap.
\<close>

section \<open>Contexts and stacks\<close>

record TaskContext =
  sp :: u64
  ra :: u64
  s0 :: u64
  s1 :: u64
  s2 :: u64
  s3 :: u64
  s4 :: u64
  s5 :: u64
  s6 :: u64
  s7 :: u64
  s8 :: u64
  s9 :: u64
  s10 :: u64
  s11 :: u64

definition empty :: TaskContext where
  "empty = \<lparr>sp = 0, ra = 0, s0 = 0, s1 = 0, s2 = 0, s3 = 0, s4 = 0, s5 = 0, s6 = 0, s7 = 0,
     s8 = 0, s9 = 0, s10 = 0, s11 = 0\<rparr>"

definition init :: "TaskContext \<Rightarrow> usize \<Rightarrow> usize \<Rightarrow> TaskContext" where
  "init c stack_top entry = c\<lparr>sp := stack_top AND NOT 0xF, ra := entry\<rparr>"

definition STACK_SIZE :: usize where
  "STACK_SIZE = 1024 * 64"

text \<open>\<^verbatim>\<open>alloc_stack\<close>, with the address the buffer got.\<close>

definition alloc_stack :: "bool \<Rightarrow> usize \<Rightarrow> usize res" where
  "alloc_stack ck buffer =
     bind_res (add_ck ck buffer STACK_SIZE) (\<lambda>raw_top. Inr (raw_top AND NOT 0xF))"

section \<open>The instructions\<close>

datatype reg = Sp | Ra | S nat | A nat

datatype instr = Sd reg u64 reg | Ld reg u64 reg | Li reg u64 | Ret

record machine =
  regs :: "reg \<Rightarrow> u64"
  words :: "u64 \<Rightarrow> u64"
  pc :: u64

text \<open>\<^verbatim>\<open>ret\<close> is \<^verbatim>\<open>jalr zero, 0(ra)\<close>, which clears the lowest bit of its target.\<close>

fun exec :: "instr \<Rightarrow> machine \<Rightarrow> machine" where
  "exec (Sd r off b) m = m\<lparr>words := (words m)(regs m b + off := regs m r)\<rparr>"
| "exec (Ld r off b) m = m\<lparr>regs := (regs m)(r := words m (regs m b + off))\<rparr>"
| "exec (Li r x) m = m\<lparr>regs := (regs m)(r := x)\<rparr>"
| "exec Ret m = m\<lparr>pc := regs m Ra AND NOT 1\<rparr>"

definition switch_context :: "instr list" where
  "switch_context =
    [Sd Sp 0 (A 0), Sd Ra 8 (A 0), Sd (S 0) 16 (A 0), Sd (S 1) 24 (A 0), Sd (S 2) 32 (A 0),
     Sd (S 3) 40 (A 0), Sd (S 4) 48 (A 0), Sd (S 5) 56 (A 0), Sd (S 6) 64 (A 0),
     Sd (S 7) 72 (A 0), Sd (S 8) 80 (A 0), Sd (S 9) 88 (A 0), Sd (S 10) 96 (A 0),
     Sd (S 11) 104 (A 0),
     Ld Sp 0 (A 1), Ld Ra 8 (A 1), Ld (S 0) 16 (A 1), Ld (S 1) 24 (A 1), Ld (S 2) 32 (A 1),
     Ld (S 3) 40 (A 1), Ld (S 4) 48 (A 1), Ld (S 5) 56 (A 1), Ld (S 6) 64 (A 1),
     Ld (S 7) 72 (A 1), Ld (S 8) 80 (A 1), Ld (S 9) 88 (A 1), Ld (S 10) 96 (A 1),
     Ld (S 11) 104 (A 1),
     Li (A 0) 0, Li (A 1) 0, Ret]"

text \<open>A call of it: the arguments in \<^verbatim>\<open>a0\<close> and \<^verbatim>\<open>a1\<close>, then the instructions.\<close>

definition run_switch :: "u64 \<Rightarrow> u64 \<Rightarrow> machine \<Rightarrow> machine" where
  "run_switch old new m =
     fold exec switch_context (m\<lparr>regs := (regs m)(A 0 := old, A 1 := new)\<rparr>)"

section \<open>Saving and restoring\<close>

text \<open>The slots of a context: which register is kept at which offset.\<close>

definition slots :: "(reg \<times> u64) list" where
  "slots =
    [(Sp, 0), (Ra, 8), (S 0, 16), (S 1, 24), (S 2, 32), (S 3, 40), (S 4, 48), (S 5, 56), (S 6, 64),
     (S 7, 72), (S 8, 80), (S 9, 88), (S 10, 96), (S 11, 104)]"

lemma switch_context_slots:
  "switch_context = map (\<lambda>(r, off). Sd r off (A 0)) slots @ map (\<lambda>(r, off). Ld r off (A 1)) slots @
     [Li (A 0) 0, Li (A 1) 0, Ret]"
  by (simp add: switch_context_def slots_def)

lemma distinct_slots: "distinct (map fst slots)" "distinct (map snd slots)"
  by (simp_all add: slots_def)

lemma slots_regs: "(r, off) \<in> set slots \<Longrightarrow> r \<noteq> A n"
  by (auto simp: slots_def)

lemma save_regs:
  "regs (fold exec (map (\<lambda>(r, off). Sd r off b) xs) m) = regs m"
  "pc (fold exec (map (\<lambda>(r, off). Sd r off b) xs) m) = pc m"
  by (induction xs arbitrary: m) auto

lemma save_other:
  "a \<notin> (\<lambda>(r, off). regs m b + off) ` set xs \<Longrightarrow>
   words (fold exec (map (\<lambda>(r, off). Sd r off b) xs) m) a = words m a"
  by (induction xs arbitrary: m) auto

lemma save_slot:
  "distinct (map snd xs) \<Longrightarrow> (r, off) \<in> set xs \<Longrightarrow>
   words (fold exec (map (\<lambda>(r, off). Sd r off b) xs) m) (regs m b + off) = regs m r"
proof (induction xs arbitrary: m)
  case (Cons x xs)
  obtain r' off' where x: "x = (r', off')" by (cases x)
  show ?case
  proof (cases "x = (r, off)")
    case True
    let ?m = "exec (Sd r off b) m"
    have "regs ?m b + off \<notin> (\<lambda>(r, off). regs ?m b + off) ` set xs"
      using Cons.prems(1) True by (auto simp: rev_image_eqI)
    from save_other [OF this] True show ?thesis by simp
  next
    case False
    then have "(r, off) \<in> set xs" using Cons.prems(2) by auto
    from Cons.IH [OF _ this, of "exec (Sd r' off' b) m"] Cons.prems(1) x show ?thesis by simp
  qed
qed simp

lemma restore_words:
  "words (fold exec (map (\<lambda>(r, off). Ld r off b) xs) m) = words m"
  "pc (fold exec (map (\<lambda>(r, off). Ld r off b) xs) m) = pc m"
  by (induction xs arbitrary: m) auto

lemma restore_other:
  "q \<notin> fst ` set xs \<Longrightarrow> regs (fold exec (map (\<lambda>(r, off). Ld r off b) xs) m) q = regs m q"
  by (induction xs arbitrary: m) auto

lemma restore_slot:
  "distinct (map fst xs) \<Longrightarrow> b \<notin> fst ` set xs \<Longrightarrow> (r, off) \<in> set xs \<Longrightarrow>
   regs (fold exec (map (\<lambda>(r, off). Ld r off b) xs) m) r = words m (regs m b + off)"
proof (induction xs arbitrary: m)
  case (Cons x xs)
  obtain r' off' where x: "x = (r', off')" by (cases x)
  show ?case
  proof (cases "x = (r, off)")
    case True
    then have "r \<notin> fst ` set xs" using Cons.prems(1) by simp
    from restore_other [OF this] True show ?thesis by simp
  next
    case False
    then have "(r, off) \<in> set xs" using Cons.prems(3) by auto
    from Cons.IH [OF _ _ this, of "exec (Ld r' off' b) m"] Cons.prems(1,2) x show ?thesis by auto
  qed
qed simp

text \<open>Two contexts that are the same or share no word.\<close>

definition ctx_words :: "u64 \<Rightarrow> u64 set" where
  "ctx_words p = (\<lambda>(r, off). p + off) ` set slots"

definition separate :: "u64 \<Rightarrow> u64 \<Rightarrow> bool" where
  "separate p q \<longleftrightarrow> ctx_words p \<inter> ctx_words q = {}"

lemma run_switch_facts:
  assumes "separate old new"
  shows "\<And>r off. (r, off) \<in> set slots \<Longrightarrow> words (run_switch old new m) (old + off) = regs m r"
    and "\<And>r off. (r, off) \<in> set slots \<Longrightarrow> regs (run_switch old new m) r = words m (new + off)"
    and "\<And>a. a \<notin> ctx_words old \<Longrightarrow> words (run_switch old new m) a = words m a"
    and "pc (run_switch old new m) = words m (new + 8) AND NOT 1"
    and "regs (run_switch old new m) (A 0) = 0" "regs (run_switch old new m) (A 1) = 0"
proof -
  let ?m0 = "m\<lparr>regs := (regs m)(A 0 := old, A 1 := new)\<rparr>"
  define m1 where "m1 = fold exec (map (\<lambda>(r, off). Sd r off (A 0)) slots) ?m0"
  define m2 where "m2 = fold exec (map (\<lambda>(r, off). Ld r off (A 1)) slots) m1"
  have run: "run_switch old new m = fold exec [Li (A 0) 0, Li (A 1) 0, Ret] m2"
    by (simp only: run_switch_def switch_context_slots fold_append comp_def m1_def m2_def)
  have r1: "regs m1 = regs ?m0" by (simp add: m1_def save_regs)
  have A: "A n \<notin> fst ` set slots" for n using slots_regs by fastforce
  have w1: "words m1 a = words m a" if "a \<notin> ctx_words old" for a
    unfolding m1_def using that by (subst save_other) (auto simp: ctx_words_def)
  have new: "words m1 (new + off) = words m (new + off)" if "(r, off) \<in> set slots" for r off
  proof (rule w1)
    have "new + off \<in> ctx_words new" using that by (force simp: ctx_words_def)
    then show "new + off \<notin> ctx_words old" using assms by (auto simp: separate_def)
  qed
  have r2: "regs m2 r = words m (new + off)" if "(r, off) \<in> set slots" for r off
    unfolding m2_def using restore_slot [OF distinct_slots(1) A that, where m = m1] new [OF that] by (simp add: r1)
  have w2: "words m2 = words m1" by (simp add: m2_def restore_words)
  show "words (run_switch old new m) (old + off) = regs m r" if "(r, off) \<in> set slots" for r off
  proof -
    have "words m1 (old + off) = regs ?m0 r"
      unfolding m1_def using save_slot [OF distinct_slots(2) that, where b = "A 0" and m = ?m0] by simp
    then show ?thesis using slots_regs [OF that] by (simp add: run w2)
  qed
  show "regs (run_switch old new m) r = words m (new + off)" if "(r, off) \<in> set slots" for r off
    using r2 [OF that] slots_regs [OF that] by (simp add: run)
  show "words (run_switch old new m) a = words m a" if "a \<notin> ctx_words old" for a
    using w1 [OF that] by (simp add: run w2)
  have "(Ra, 8) \<in> set slots" by (simp add: slots_def)
  from r2 [OF this] show "pc (run_switch old new m) = words m (new + 8) AND NOT 1" by (simp add: run)
  show "regs (run_switch old new m) (A 0) = 0" "regs (run_switch old new m) (A 1) = 0"
    by (simp_all add: run)
qed

lemma and_not_15: "(a :: u64) AND NOT 0xF = a AND NOT (mask 4)"
  by (simp add: mask_eq_exp_minus_1)

lemma align_16:
  "16 dvd unat ((a :: u64) AND NOT 0xF)" "unat (a AND NOT 0xF) \<le> unat a"
  "unat a < unat (a AND NOT 0xF) + 16"
proof -
  have u: "unat (a AND NOT 0xF) = unat a div 16 * 16"
    unfolding and_not_15 and_not_mask_unat by simp
  show "16 dvd unat (a AND NOT 0xF)" "unat (a AND NOT 0xF) \<le> unat a"
    "unat a < unat (a AND NOT 0xF) + 16"
    unfolding u by simp_all
qed

text \<open>C6: a task that is switched away from and later switched back to continues exactly where it
  was: at its return address, with its stack pointer and all its callee-saved registers, whatever
  ran in between, as long as that left the task's saved context alone.\<close>

theorem coroutine_resumes:
  assumes "separate a b" "separate c a"
    and "\<forall>w \<in> ctx_words a. words m' w = words (run_switch a b m) w"
    and "(r, off) \<in> set slots"
  shows "regs (run_switch c a m') r = regs m r \<and> pc (run_switch c a m') = regs m Ra AND NOT 1"
proof -
  have saved: "words m' (a + o') = regs m q" if "(q, o') \<in> set slots" for q o'
  proof -
    have "a + o' \<in> ctx_words a" using that by (force simp: ctx_words_def)
    with assms(3) run_switch_facts(1) [OF assms(1) that] show ?thesis by simp
  qed
  have "(Ra, 8) \<in> set slots" by (simp add: slots_def)
  from saved [OF this] saved [OF assms(4)] run_switch_facts(2) [OF assms(2,4)]
    run_switch_facts(4) [OF assms(2)]
  show ?thesis by simp
qed

text \<open>The machine of the examples: two contexts, and a register of the running task.\<close>

definition example_machine :: machine where
  "example_machine = \<lparr>regs = (\<lambda>_. 0)(S 3 := 77, Ra := 0x4000), words = (\<lambda>_. 0), pc = 0\<rparr>"

theorem coroutine_resumes_witness:
  "regs (run_switch 0x2000 0x1000 (run_switch 0x1000 0x2000 example_machine)) (S 3) = 77"
proof -
  have "separate 0x1000 0x2000" "separate 0x2000 0x1000" "(S 3, 40) \<in> set slots"
    by (simp_all add: separate_def ctx_words_def slots_def)
  from coroutine_resumes [OF this(1,2) _ this(3), of "run_switch 0x1000 0x2000 example_machine"
      example_machine]
  show ?thesis by (simp add: example_machine_def)
qed

text \<open>A context in memory.\<close>

fun field :: "TaskContext \<Rightarrow> reg \<Rightarrow> u64" where
  "field c Sp = sp c"
| "field c Ra = ra c"
| "field c (S n) =
     (if n < 12 then [s0 c, s1 c, s2 c, s3 c, s4 c, s5 c, s6 c, s7 c, s8 c, s9 c, s10 c, s11 c] ! n
      else 0)"
| "field c (A n) = 0"

definition ctx_in :: "(u64 \<Rightarrow> u64) \<Rightarrow> u64 \<Rightarrow> TaskContext \<Rightarrow> bool" where
  "ctx_in w p c \<longleftrightarrow> (\<forall>(r, off) \<in> set slots. w (p + off) = field c r)"

text \<open>The first switch to a context prepared by \<^verbatim>\<open>init\<close> starts at the entry with a 16-byte aligned
  stack pointer at most 15 bytes below the given top and all other callee-saved registers zero,
  and leaks neither argument; the task switched from is saved in its context and no other memory
  changes.\<close>

theorem coroutine_starts:
  assumes "separate old new" "ctx_in (words m) new (init empty stack_top entry)" "\<not> bit entry 0"
  shows "pc (run_switch old new m) = entry \<and>
    16 dvd unat (regs (run_switch old new m) Sp) \<and>
    unat (regs (run_switch old new m) Sp) \<le> unat stack_top \<and>
    unat stack_top < unat (regs (run_switch old new m) Sp) + 16 \<and>
    (\<forall>n < 12. regs (run_switch old new m) (S n) = 0) \<and>
    regs (run_switch old new m) (A 0) = 0 \<and> regs (run_switch old new m) (A 1) = 0 \<and>
    (\<forall>(r, off) \<in> set slots. words (run_switch old new m) (old + off) = regs m r) \<and>
    (\<forall>a. a \<notin> ctx_words old \<longrightarrow> words (run_switch old new m) a = words m a)"
proof -
  note facts = run_switch_facts [OF assms(1)]
  have reg: "regs (run_switch old new m) r = field (init empty stack_top entry) r"
    if "(r, off) \<in> set slots" for r off
    using facts(2) [OF that] assms(2) that by (auto simp: ctx_in_def)
  have sp: "regs (run_switch old new m) Sp = stack_top AND NOT 0xF"
    using reg [of Sp 0] by (simp add: slots_def init_def)
  have "entry AND NOT 1 = entry"
  proof (rule bit_word_eqI)
    fix n assume "n < LENGTH(64)"
    then show "bit (entry AND NOT 1) n = bit entry n"
      using assms(3) by (cases n) (simp_all add: bit_simps)
  qed
  moreover have "words m (new + 8) = entry"
    using assms(2) by (simp add: ctx_in_def slots_def init_def)
  ultimately have "pc (run_switch old new m) = entry" using facts(4) by simp
  moreover have "regs (run_switch old new m) (S n) = 0" if "n < 12" for n
  proof -
    have "\<exists>off. (S n, off) \<in> set slots"
      using that by (auto simp: slots_def less_Suc_eq eval_nat_numeral)
    moreover have "field (init empty stack_top entry) (S n) = 0"
      using that by (auto simp: init_def empty_def less_Suc_eq eval_nat_numeral)
    ultimately show ?thesis using reg by metis
  qed
  ultimately show ?thesis using sp align_16 [of stack_top] facts by auto
qed

theorem coroutine_starts_witness:
  "\<exists>m. pc (run_switch 0x1000 0x2000 m) = 0x8000 \<and> 16 dvd unat (regs (run_switch 0x1000 0x2000 m) Sp)"
proof -
  let ?c = "init empty 0x20007 0x8000"
  let ?m = "\<lparr>regs = (\<lambda>_. 1), words = (\<lambda>_. 0)(0x2000 := 0x20000, 0x2008 := 0x8000), pc = 0\<rparr>"
  have "separate 0x1000 0x2000" by (simp add: separate_def ctx_words_def slots_def)
  moreover have "ctx_in (words ?m) 0x2000 ?c"
    by (simp add: ctx_in_def slots_def init_def empty_def)
  moreover have "\<not> bit (0x8000 :: u64) 0" by simp
  ultimately show ?thesis using coroutine_starts by blast
qed

text \<open>The stack of a coroutine: a 16-byte aligned top inside its buffer, with at least
  \<^verbatim>\<open>STACK_SIZE - 15\<close> bytes below it.\<close>

lemma alloc_stack_top:
  assumes "unat buffer + unat STACK_SIZE < 2 ^ 64"
  shows "\<exists>top. alloc_stack ck buffer = Inr top \<and> 16 dvd unat top \<and>
    unat top \<le> unat buffer + unat STACK_SIZE \<and> unat buffer + unat STACK_SIZE < unat top + 16"
  using assms align_16 [of "buffer + STACK_SIZE"] unat_add_in_range [of buffer STACK_SIZE]
  by (simp add: alloc_stack_def add_ck_in_range)

end
