(* ===== verification/GreenThreads.thy ===== *)
theory GreenThreads
  imports StackCoroutine
begin

text \<open>
  \<^verbatim>\<open>exercises/04_context_switch/02_green_threads/src/lib.rs\<close>: the cooperative scheduler. What a
  thread does is a list of visible actions and calls of \<^verbatim>\<open>yield_now\<close>. In place of the registers a
  thread's context holds the point of the program at which it continues, which is what saving and
  restoring the registers amounts to (theory StackCoroutine); \<^verbatim>\<open>switch_context\<close> then continues at
  the point in the new context.
\<close>

section \<open>The scheduler\<close>

text \<open>The assembly of this crate, which has to be that of the coroutine exercise.\<close>

definition switch_context :: "instr list" where
  "switch_context =
    [Sd Sp 0 (A 0), Sd Ra 8 (A 0), Sd (S 0) 16 (A 0), Sd (S 1) 24 (A 0), Sd (S 2) 32 (A 0),
     Sd (S 3) 40 (A 0), Sd (S 4) 48 (A 0), Sd (S 5) 56 (A 0), Sd (S 6) 64 (A 0),
     Sd (S 7) 72 (A 0), Sd (S 8) 80 (A 0), Sd (S 9) 88 (A 0), Sd (S 10) 96 (A 0),
     Sd (S 11) 104 (A 0), Ld Sp 0 (A 1), Ld Ra 8 (A 1), Ld (S 0) 16 (A 1), Ld (S 1) 24 (A 1),
     Ld (S 2) 32 (A 1), Ld (S 3) 40 (A 1), Ld (S 4) 48 (A 1), Ld (S 5) 56 (A 1),
     Ld (S 6) 64 (A 1), Ld (S 7) 72 (A 1), Ld (S 8) 80 (A 1), Ld (S 9) 88 (A 1),
     Ld (S 10) 96 (A 1), Ld (S 11) 104 (A 1), Li (A 0) 0, Li (A 1) 0, Ret]"

lemma switch_context_same: "switch_context = StackCoroutine.switch_context"
  by (simp add: switch_context_def StackCoroutine.switch_context_def)

datatype ThreadState = Ready | Running | Finished

datatype 'e act = Emit 'e | Yield_now

text \<open>Where the processor is: at the top of the loop of \<^verbatim>\<open>run\<close>, at the start of \<^verbatim>\<open>thread_wrapper\<close>, in
  the user's entry with the actions to come, at the call of \<^verbatim>\<open>thread_finished\<close>, behind that call
  (from where \<^verbatim>\<open>thread_wrapper\<close> would return to nowhere), and after \<^verbatim>\<open>run\<close> has returned.\<close>

datatype 'e code = Run_loop | In_wrapper | User "'e act list" | Finishing | Off_end | Returned

record 'e GreenThread =
  ctx :: "'e code"
  state :: ThreadState
  entry :: "'e act list option"

record 'e Scheduler =
  threads :: "'e GreenThread list"
  current :: nat

text \<open>The main thread's context is written before it is first read.\<close>

definition new :: "'e Scheduler" where
  "new = \<lparr>threads = [\<lparr>ctx = Returned, state = Running, entry = None\<rparr>], current = 0\<rparr>"

definition spawn :: "'e act list \<Rightarrow> 'e Scheduler \<Rightarrow> 'e Scheduler" where
  "spawn f s = s\<lparr>threads := threads s @ [\<lparr>ctx = In_wrapper, state = Ready, entry = Some f\<rparr>]\<rparr>"

lemma scan_measure:
  assumes "nxt \<noteq> start" "start < n" "nxt < (n::nat)"
  shows "(start + n - (nxt + 1) mod n) mod n < (start + n - nxt) mod n"
proof (cases "nxt < start")
  case True
  have "(start + n - nxt) mod n = (start - nxt + n) mod n"
    "(start + n - (nxt + 1)) mod n = (start - (nxt + 1) + n) mod n"
    using True by (simp_all only: Nat.add_diff_assoc2 less_imp_le Suc_leI Suc_eq_plus1 [symmetric])
  then have "(start + n - nxt) mod n = start - nxt" "(start + n - (nxt + 1)) mod n = start - (nxt + 1)"
    using assms(2) by (simp_all only: mod_add_self2 mod_less)
  moreover have "(nxt + 1) mod n = nxt + 1" using True assms(2) by simp
  ultimately show ?thesis using True by simp
next
  case False
  then have gt: "start < nxt" using assms(1) by simp
  show ?thesis
  proof (cases "nxt + 1 = n")
    case True
    then show ?thesis using gt assms by simp
  next
    case False
    then show ?thesis using gt assms by simp
  qed
qed

text \<open>The search for the next ready thread, round robin from \<open>next\<close> until it is back at \<open>start\<close>.\<close>

function scan :: "'e GreenThread list \<Rightarrow> nat \<Rightarrow> nat \<Rightarrow> nat" where
  "scan ths start nxt =
     (if nxt = start \<or> length ths \<le> start \<or> length ths \<le> nxt then nxt
      else if state (ths ! nxt) = Ready then nxt
      else scan ths start ((nxt + 1) mod length ths))"
  by pat_completeness auto

termination
  by (relation "measure (\<lambda>(ths, start, nxt). (start + length ths - nxt) mod length ths)")
    (auto intro: scan_measure [simplified])

declare scan.simps [simp del]

text \<open>The program as a whole: the scheduler and the globals \<^verbatim>\<open>CURRENT_THREAD_ENTRY\<close> and \<^verbatim>\<open>SCHEDULER\<close>
  (is it set?), the processor, and the actions done so far with the threads that did them.\<close>

record 'e system =
  sched :: "'e Scheduler"
  current_entry :: "'e act list option"
  scheduler_set :: bool
  code :: "'e code"
  trace :: "(nat \<times> 'e) list"

text \<open>The thread that is switched away from: ready again unless it is finished, with its context saved.\<close>

definition suspend :: "'e code \<Rightarrow> 'e GreenThread \<Rightarrow> 'e GreenThread" where
  "suspend k th = th\<lparr>state := (if state th \<noteq> Finished then Ready else state th), ctx := k\<rparr>"

text \<open>\<^verbatim>\<open>schedule_next\<close>, called where the program continues at \<open>k\<close> when the call returns.\<close>

definition schedule_next :: "'e code \<Rightarrow> 'e system \<Rightarrow> 'e system" where
  "schedule_next k s =
     (let ths = threads (sched s); start = current (sched s);
          nxt = scan ths start ((start + 1) mod length ths)
      in if nxt = start then s\<lparr>code := k\<rparr>
         else
           let ths1 = ths[start := suspend k (ths ! start)];
               nth = ths1 ! nxt;
               ths2 = ths1[nxt := nth\<lparr>state := Running, entry := None\<rparr>]
           in s\<lparr>sched := \<lparr>threads = ths2, current = nxt\<rparr>,
                current_entry := (case entry nth of Some f \<Rightarrow> Some f | None \<Rightarrow> current_entry s),
                code := ctx nth\<rparr>)"

definition finish_current :: "'e system \<Rightarrow> 'e system" where
  "finish_current s =
     (let c = current (sched s); ths = threads (sched s) in
      s\<lparr>sched := (sched s)\<lparr>threads := ths[c := (ths ! c)\<lparr>state := Finished\<rparr>]\<rparr>\<rparr>)"

text \<open>The body of the loop of \<^verbatim>\<open>run\<close>, and what \<^verbatim>\<open>thread_wrapper\<close> does before the user's entry.\<close>

definition run_step :: "'e system \<Rightarrow> 'e system" where
  "run_step s =
     (if list_all (\<lambda>t. state t = Finished) (tl (threads (sched s)))
      then s\<lparr>scheduler_set := False, code := Returned\<rparr>
      else schedule_next Run_loop s)"

definition thread_wrapper :: "'e system \<Rightarrow> 'e system" where
  "thread_wrapper s =
     (case current_entry s of
        Some f \<Rightarrow> s\<lparr>current_entry := None, code := User f\<rparr>
      | None \<Rightarrow> s\<lparr>code := Finishing\<rparr>)"

text \<open>\<^verbatim>\<open>yield_now\<close>, called where the program continues at \<open>k\<close>, and \<^verbatim>\<open>thread_finished\<close>.\<close>

definition yield_now :: "'e code \<Rightarrow> 'e system \<Rightarrow> 'e system" where
  "yield_now k s = (if scheduler_set s then schedule_next k s else s\<lparr>code := k\<rparr>)"

definition thread_finished :: "'e system \<Rightarrow> 'e system" where
  "thread_finished s =
     (if scheduler_set s then schedule_next Off_end (finish_current s) else s\<lparr>code := Off_end\<rparr>)"

fun step :: "'e system \<Rightarrow> 'e system" where
  "step s =
     (case code s of
        Run_loop \<Rightarrow> run_step s
      | In_wrapper \<Rightarrow> thread_wrapper s
      | User [] \<Rightarrow> s\<lparr>code := Finishing\<rparr>
      | User (Emit e # p) \<Rightarrow> s\<lparr>trace := trace s @ [(current (sched s), e)], code := User p\<rparr>
      | User (Yield_now # p) \<Rightarrow> yield_now (User p) s
      | Finishing \<Rightarrow> thread_finished s
      | Off_end \<Rightarrow> s
      | Returned \<Rightarrow> s)"

declare step.simps [simp del]

lemmas step_simps = step.simps run_step_def thread_wrapper_def yield_now_def thread_finished_def

text \<open>\<^verbatim>\<open>run\<close> called on a scheduler with a thread spawned for each entry.\<close>

definition boot :: "'e act list list \<Rightarrow> 'e system" where
  "boot fs = \<lparr>sched = fold spawn fs new, current_entry = None, scheduler_set = True,
     code = Run_loop, trace = []\<rparr>"

section \<open>The order of the actions\<close>

text \<open>The actions of a thread between its calls of \<^verbatim>\<open>yield_now\<close>, with its number.\<close>

fun segments :: "nat \<Rightarrow> 'e act list \<Rightarrow> (nat \<times> 'e) list list" where
  "segments i [] = [[]]"
| "segments i (Yield_now # p) = [] # segments i p"
| "segments i (Emit e # p) = ((i, e) # hd (segments i p)) # tl (segments i p)"

lemma sum_length_tl: "(\<Sum>r\<leftarrow>rs. length r - Suc 0) \<le> (\<Sum>r\<leftarrow>rs. length r)"
  by (induction rs) auto

lemma sum_length_tl_less:
  "\<not> list_all (\<lambda>r. r = []) rs \<Longrightarrow> (\<Sum>r\<leftarrow>rs. length r - Suc 0) < (\<Sum>r\<leftarrow>rs. length r)"
proof (induction rs)
  case (Cons r rs)
  show ?case
  proof (cases r)
    case Nil
    then show ?thesis using Cons by simp
  next
    case (Cons x xs)
    then show ?thesis using sum_length_tl [of rs] by (simp add: le_imp_less_Suc)
  qed
qed simp

text \<open>Round robin: in each round every thread that has segments left runs the next one.\<close>

function round_robin :: "'a list list list \<Rightarrow> 'a list" where
  "round_robin rs =
     (if list_all (\<lambda>r. r = []) rs then []
      else concat (map hd (filter (\<lambda>r. r \<noteq> []) rs)) @ round_robin (map tl rs))"
  by pat_completeness auto

termination
  by (relation "measure (\<lambda>rs. sum_list (map length rs))") (auto dest: sum_length_tl_less simp: comp_def)

declare round_robin.simps [simp del]

section \<open>The search\<close>

lemma scan_finds:
  "start < nxt \<Longrightarrow> nxt \<le> j \<Longrightarrow> j < length ths \<Longrightarrow> state (ths ! j) = Ready \<Longrightarrow>
   (\<And>k. nxt \<le> k \<Longrightarrow> k < j \<Longrightarrow> state (ths ! k) \<noteq> Ready) \<Longrightarrow> scan ths start nxt = j"
proof (induction "j - nxt" arbitrary: nxt)
  case 0
  then show ?case by (subst scan.simps) auto
next
  case (Suc d)
  then have "nxt < j" by simp
  moreover from this have "scan ths start (Suc nxt) = j" using Suc by (intro Suc.hyps(1)) auto
  ultimately show ?case using Suc.prems by (subst scan.simps) auto
qed

lemma scan_wraps:
  "start < nxt \<Longrightarrow> nxt < length ths \<Longrightarrow>
   (\<And>k. nxt \<le> k \<Longrightarrow> k < length ths \<Longrightarrow> state (ths ! k) \<noteq> Ready) \<Longrightarrow>
   start = 0 \<or> state (ths ! 0) = Ready \<Longrightarrow> scan ths start nxt = 0"
proof (induction "length ths - nxt" arbitrary: nxt)
  case (Suc d)
  show ?case
  proof (cases "Suc nxt = length ths")
    case True
    then have "scan ths start nxt = scan ths start 0"
      using Suc.prems by (subst scan.simps) auto
    also have "\<dots> = 0" using Suc.prems by (subst scan.simps) auto
    finally show ?thesis .
  next
    case False
    then have "scan ths start (Suc nxt) = 0" using Suc by (intro Suc.hyps(1)) auto
    then show ?thesis using False Suc.prems by (subst scan.simps) auto
  qed
qed simp

text \<open>The search from the thread after \<open>start\<close> finds the first ready thread behind it, and the main
  thread when there is none.\<close>

lemma scan_next_ready:
  assumes "start < j" "j < length ths" "state (ths ! j) = Ready"
    "\<And>k. start < k \<Longrightarrow> k < j \<Longrightarrow> state (ths ! k) \<noteq> Ready"
  shows "scan ths start ((start + 1) mod length ths) = j"
proof -
  have "(start + 1) mod length ths = Suc start" using assms by simp
  then show ?thesis using assms by (simp add: scan_finds)
qed

lemma scan_next_main:
  assumes "start < length ths" "start = 0 \<or> state (ths ! 0) = Ready"
    "\<And>k. start < k \<Longrightarrow> k < length ths \<Longrightarrow> state (ths ! k) \<noteq> Ready"
  shows "scan ths start ((start + 1) mod length ths) = 0"
proof (cases "Suc start = length ths")
  case True
  then have "scan ths start ((start + 1) mod length ths) = scan ths start 0" by simp
  also have "\<dots> = 0" using assms(1,2) by (subst scan.simps) auto
  finally show ?thesis .
next
  case False
  then have "(start + 1) mod length ths = Suc start" using assms(1) by simp
  then show ?thesis using assms False by (simp add: scan_wraps)
qed

section \<open>Turns\<close>

text \<open>Thread \<open>i\<close> waits with the segments \<open>r\<close> left; none are left of a finished thread.\<close>

definition waits :: "nat \<Rightarrow> 'e GreenThread \<Rightarrow> (nat \<times> 'e) list list \<Rightarrow> bool" where
  "waits i th r \<longleftrightarrow>
     (if r = [] then state th = Finished
      else state th = Ready \<and>
        (\<exists>p. r = segments i p \<and>
          ((ctx th = In_wrapper \<and> entry th = Some p) \<or> (ctx th = User p \<and> entry th = None))))"

definition all_wait :: "nat \<Rightarrow> (nat \<times> 'e) list list list \<Rightarrow> 'e GreenThread list \<Rightarrow> bool" where
  "all_wait j rs ths \<longleftrightarrow>
     length ths = Suc (length rs) \<and>
     (\<forall>i < length rs. i \<noteq> j \<longrightarrow> waits (Suc i) (ths ! Suc i) (rs ! i))"

definition main_turn :: "(nat \<times> 'e) list list list \<Rightarrow> 'e system \<Rightarrow> bool" where
  "main_turn rs s \<longleftrightarrow>
     code s = Run_loop \<and> current (sched s) = 0 \<and> scheduler_set s \<and> current_entry s = None \<and>
     all_wait (length rs) rs (threads (sched s)) \<and>
     state (threads (sched s) ! 0) = Running \<and> entry (threads (sched s) ! 0) = None"

text \<open>The thread of row \<open>j\<close> runs, with the actions \<open>p\<close> before it.\<close>

definition thread_turn :: "nat \<Rightarrow> 'e act list \<Rightarrow> (nat \<times> 'e) list list list \<Rightarrow> 'e system \<Rightarrow> bool" where
  "thread_turn j p rs s \<longleftrightarrow>
     j < length rs \<and> rs ! j = segments (Suc j) p \<and>
     current (sched s) = Suc j \<and> scheduler_set s \<and>
     ((code s = User p \<and> current_entry s = None) \<or> (code s = In_wrapper \<and> current_entry s = Some p)) \<and>
     all_wait j rs (threads (sched s)) \<and>
     state (threads (sched s) ! Suc j) = Running \<and> entry (threads (sched s) ! Suc j) = None \<and>
     state (threads (sched s) ! 0) = Ready \<and> ctx (threads (sched s) ! 0) = Run_loop \<and>
     entry (threads (sched s) ! 0) = None"

text \<open>The turn of the first unfinished thread from row \<open>i\<close> on, or of the main thread.\<close>

definition next_turn :: "nat \<Rightarrow> (nat \<times> 'e) list list list \<Rightarrow> 'e system \<Rightarrow> bool" where
  "next_turn i rs s \<longleftrightarrow>
     (\<exists>j p. i \<le> j \<and> (\<forall>k. i \<le> k \<longrightarrow> k < j \<longrightarrow> rs ! k = []) \<and> thread_turn j p rs s) \<or>
     ((\<forall>k. i \<le> k \<longrightarrow> k < length rs \<longrightarrow> rs ! k = []) \<and> main_turn rs s)"

lemma waits_ready: "waits i th r \<Longrightarrow> state th = Ready \<longleftrightarrow> r \<noteq> []"
  by (auto simp: waits_def split: if_splits)

lemma segments_nonempty [simp]: "segments i p \<noteq> []"
  by (induction i p rule: segments.induct) auto

lemma segments_not_Nil [simp]: "[] = segments i p \<longleftrightarrow> False"
  using segments_nonempty [of i p] by metis

lemma first_unfinished:
  assumes "\<not> (\<forall>k. i \<le> k \<longrightarrow> k < length rs \<longrightarrow> rs ! k = [])"
  obtains j where "i \<le> j" "j < length rs" "rs ! j \<noteq> []" "\<And>k. i \<le> k \<Longrightarrow> k < j \<Longrightarrow> rs ! k = []"
proof -
  let ?P = "\<lambda>k. i \<le> k \<and> k < length rs \<and> rs ! k \<noteq> []"
  from assms obtain k where "?P k" by auto
  then have "?P (LEAST k. ?P k)" by (rule LeastI)
  moreover have "rs ! k = []" if "i \<le> k" "k < (LEAST k. ?P k)" for k
    using not_less_Least [OF that(2)] that calculation by auto
  ultimately show ?thesis using that by blast
qed

text \<open>What \<^verbatim>\<open>schedule_next\<close> does when it switches.\<close>

lemma schedule_next_switch:
  assumes "scan (threads (sched s)) (current (sched s))
      ((current (sched s) + 1) mod length (threads (sched s))) = j"
    and "j \<noteq> current (sched s)"
  shows "schedule_next k s =
    (let ths = threads (sched s); c = current (sched s)
     in s\<lparr>sched := \<lparr>threads = ths[c := suspend k (ths ! c), j := (ths ! j)\<lparr>state := Running, entry := None\<rparr>],
            current = j\<rparr>,
          current_entry := (case entry (ths ! j) of Some f \<Rightarrow> Some f | None \<Rightarrow> current_entry s),
          code := ctx (ths ! j)\<rparr>)"
  using assms by (simp add: schedule_next_def Let_def)

text \<open>The state just before a switch: the switching thread, once its context is saved, waits like the
  others.\<close>

definition leaves :: "'e code \<Rightarrow> (nat \<times> 'e) list list list \<Rightarrow> 'e system \<Rightarrow> bool" where
  "leaves k rs s \<longleftrightarrow>
     (let ths = threads (sched s); c = current (sched s);
          ths1 = ths[c := suspend k (ths ! c)]
      in c < length ths \<and> scheduler_set s \<and> current_entry s = None \<and> all_wait (length rs) rs ths1 \<and>
         state (ths1 ! 0) = Ready \<and> ctx (ths1 ! 0) = Run_loop \<and> entry (ths1 ! 0) = None)"

lemma all_wait_nth: "all_wait (length rs) rs ths \<Longrightarrow> i < length rs \<Longrightarrow> waits (Suc i) (ths ! Suc i) (rs ! i)"
  by (simp add: all_wait_def)

lemma dispatch_thread:
  assumes "leaves k rs s" "current (sched s) \<le> j" "j < length rs" "rs ! j \<noteq> []"
    "\<And>i. current (sched s) \<le> i \<Longrightarrow> i < j \<Longrightarrow> rs ! i = []"
  shows "\<exists>p. thread_turn j p rs (schedule_next k s)"
proof -
  define ths c where "ths = threads (sched s)" and "c = current (sched s)"
  define old where "old = suspend k (ths ! c)"
  from assms(1) have l: "c < length ths" "scheduler_set s" "current_entry s = None"
    "all_wait (length rs) rs (ths[c := old])" "length ths = Suc (length rs)"
    "state (ths[c := old] ! 0) = Ready" "ctx (ths[c := old] ! 0) = Run_loop"
    "entry (ths[c := old] ! 0) = None"
    by (simp_all add: leaves_def Let_def ths_def c_def old_def all_wait_def)
  have w: "waits (Suc i) (ths ! Suc i) (rs ! i)" if "i < length rs" "c \<le> i" for i
    using all_wait_nth [OF l(4) that(1)] that by simp
  from w [OF assms(3)] assms(2,4) obtain p where p: "state (ths ! Suc j) = Ready" "rs ! j = segments (Suc j) p"
    "(ctx (ths ! Suc j) = In_wrapper \<and> entry (ths ! Suc j) = Some p) \<or>
     (ctx (ths ! Suc j) = User p \<and> entry (ths ! Suc j) = None)"
    by (auto simp: waits_def c_def split: if_splits)
  have "state (ths ! i) \<noteq> Ready" if "c < i" "i < Suc j" for i
  proof -
    from that obtain i' where i': "i = Suc i'" "c \<le> i'" "i' < j" by (cases i) auto
    then have "rs ! i' = []" using assms(5) by (simp add: c_def)
    then show ?thesis using w [of i'] i' assms(3) by (simp add: waits_ready)
  qed
  then have "scan ths c ((c + 1) mod length ths) = Suc j"
    using assms(2,3) l(5) p(1) by (intro scan_next_ready) (auto simp: c_def)
  then have sw: "schedule_next k s =
      s\<lparr>sched := \<lparr>threads = ths[c := old, Suc j := (ths ! Suc j)\<lparr>state := Running, entry := None\<rparr>],
          current = Suc j\<rparr>,
        current_entry := (case entry (ths ! Suc j) of Some f \<Rightarrow> Some f | None \<Rightarrow> current_entry s),
        code := ctx (ths ! Suc j)\<rparr>"
    using assms(2) l(3) by (subst schedule_next_switch) (auto simp: Let_def ths_def c_def old_def)
  have "all_wait j rs (ths[c := old, Suc j := (ths ! Suc j)\<lparr>state := Running, entry := None\<rparr>])"
    using l(4,5) by (auto simp: all_wait_def)
  then show ?thesis
    using p l assms(2,3) unfolding sw by (intro exI [of _ p]) (auto simp: thread_turn_def)
qed

lemma dispatch_main:
  assumes "leaves k rs s" "current (sched s) \<noteq> 0"
    "\<And>i. current (sched s) \<le> i \<Longrightarrow> i < length rs \<Longrightarrow> rs ! i = []"
  shows "main_turn rs (schedule_next k s)"
proof -
  define ths c where "ths = threads (sched s)" and "c = current (sched s)"
  define old where "old = suspend k (ths ! c)"
  from assms(1) have l: "c < length ths" "scheduler_set s" "current_entry s = None"
    "all_wait (length rs) rs (ths[c := old])" "length ths = Suc (length rs)"
    "state (ths[c := old] ! 0) = Ready" "ctx (ths[c := old] ! 0) = Run_loop"
    "entry (ths[c := old] ! 0) = None"
    by (simp_all add: leaves_def Let_def ths_def c_def old_def all_wait_def)
  have c0: "c \<noteq> 0" using assms(2) by (simp add: c_def)
  have m: "state (ths ! 0) = Ready" "ctx (ths ! 0) = Run_loop" "entry (ths ! 0) = None"
    using l(6-8) c0 by simp_all
  have "state (ths ! i) \<noteq> Ready" if "c < i" "i < length ths" for i
  proof -
    from that l(5) obtain i' where i': "i = Suc i'" "c \<le> i'" "i' < length rs" by (cases i) auto
    then have "rs ! i' = []" using assms(3) by (simp add: c_def)
    then show ?thesis using all_wait_nth [OF l(4) i'(3)] i' by (simp add: waits_ready)
  qed
  then have "scan ths c ((c + 1) mod length ths) = 0"
    using l(1) m(1) by (intro scan_next_main) auto
  then have sw: "schedule_next k s =
      s\<lparr>sched := \<lparr>threads = ths[c := old, 0 := (ths ! 0)\<lparr>state := Running, entry := None\<rparr>],
          current = 0\<rparr>,
        current_entry := None, code := Run_loop\<rparr>"
    using c0 m l(3) by (subst schedule_next_switch) (auto simp: Let_def ths_def c_def old_def)
  have "all_wait (length rs) rs (ths[c := old, 0 := (ths ! 0)\<lparr>state := Running, entry := None\<rparr>])"
    using l(4) by (auto simp: all_wait_def)
  then show ?thesis using l unfolding sw by (auto simp: main_turn_def)
qed

lemma dispatch:
  assumes "leaves k rs s" "current (sched s) \<noteq> 0"
  shows "next_turn (current (sched s)) rs (schedule_next k s)"
proof (cases "\<forall>i. current (sched s) \<le> i \<longrightarrow> i < length rs \<longrightarrow> rs ! i = []")
  case True
  then show ?thesis using dispatch_main [OF assms] by (simp add: next_turn_def)
next
  case False
  then obtain j where "current (sched s) \<le> j" "j < length rs" "rs ! j \<noteq> []"
    "\<And>i. current (sched s) \<le> i \<Longrightarrow> i < j \<Longrightarrow> rs ! i = []"
    by (rule first_unfinished) (rule that)
  with dispatch_thread [OF assms(1)] show ?thesis unfolding next_turn_def by blast
qed

text \<open>Reaching a state by some number of steps.\<close>

definition leads :: "'e system \<Rightarrow> 'e system \<Rightarrow> bool" where
  "leads s s' \<longleftrightarrow> (\<exists>n. (step ^^ n) s = s')"

lemma leads_refl: "leads s s"
  unfolding leads_def by (rule exI [of _ 0]) simp

lemma leads_step: "leads (step s) s' \<Longrightarrow> leads s s'"
  unfolding leads_def by (metis funpow_Suc_right comp_apply)

lemma leads_trans: "leads s s' \<Longrightarrow> leads s' s'' \<Longrightarrow> leads s s''"
  unfolding leads_def by (metis comp_apply funpow_add)

lemma schedule_next_trace [simp]: "trace (schedule_next k s) = trace s"
  by (simp add: schedule_next_def Let_def)

text \<open>One turn of a thread: it runs its next segment and hands over.\<close>

lemma turn_user:
  "thread_turn j p rs s \<Longrightarrow> code s = User p \<Longrightarrow>
   \<exists>s'. leads s s' \<and> next_turn (Suc j) (rs[j := tl (rs ! j)]) s' \<and> trace s' = trace s @ hd (rs ! j)"
proof (induction p arbitrary: s rs)
  case Nil
  let ?s = "s\<lparr>code := Finishing\<rparr>" and ?rs = "rs[j := []]"
  from Nil have t: "j < length rs" "rs ! j = [[]]" "current (sched s) = Suc j" "scheduler_set s"
    "current_entry s = None" "all_wait j rs (threads (sched s))"
    "state (threads (sched s) ! 0) = Ready" "ctx (threads (sched s) ! 0) = Run_loop"
    "entry (threads (sched s) ! 0) = None"
    by (auto simp: thread_turn_def)
  have len: "length (threads (sched s)) = Suc (length rs)" using t(6) by (simp add: all_wait_def)
  have "leaves Off_end ?rs (finish_current ?s)"
    using t len by (auto simp: leaves_def finish_current_def Let_def all_wait_def nth_list_update waits_def suspend_def)
  from dispatch [OF this] have "next_turn (Suc j) ?rs (schedule_next Off_end (finish_current ?s))"
    using t(3) by (simp add: finish_current_def Let_def)
  moreover have "step (step s) = schedule_next Off_end (finish_current ?s)"
    using Nil(2) t(4) by (simp add: step_simps)
  then have "leads s (schedule_next Off_end (finish_current ?s))"
    by (metis leads_refl leads_step)
  moreover have "trace (finish_current ?s) = trace s" by (simp add: finish_current_def Let_def)
  ultimately show ?case using t(2)
    by (intro exI [of _ "schedule_next Off_end (finish_current ?s)"]) simp
next
  case (Cons x p)
  show ?case
  proof (cases x)
    case (Emit e)
    let ?s = "s\<lparr>trace := trace s @ [(Suc j, e)], code := User p\<rparr>"
    let ?rs = "rs[j := segments (Suc j) p]"
    have j: "j < length rs" "rs ! j = ((Suc j, e) # hd (segments (Suc j) p)) # tl (segments (Suc j) p)"
      using Cons.prems(1) Emit by (auto simp: thread_turn_def)
    have "step s = ?s" using Cons.prems Emit by (simp add: step_simps thread_turn_def)
    moreover have "thread_turn j p ?rs ?s"
      using Cons.prems by (auto simp: thread_turn_def all_wait_def)
    from Cons.IH [OF this] obtain s' where "leads ?s s'"
      "next_turn (Suc j) (?rs[j := tl (?rs ! j)]) s'" "trace s' = trace ?s @ hd (?rs ! j)"
      by auto
    ultimately show ?thesis using j by (intro exI [of _ s']) (auto intro: leads_step)
  next
    case Yield_now
    let ?rs = "rs[j := tl (rs ! j)]"
    from Cons.prems Yield_now have t: "j < length rs" "rs ! j = [] # segments (Suc j) p"
      "current (sched s) = Suc j" "scheduler_set s"
      "current_entry s = None" "all_wait j rs (threads (sched s))"
      "state (threads (sched s) ! Suc j) = Running" "entry (threads (sched s) ! Suc j) = None"
      "state (threads (sched s) ! 0) = Ready" "ctx (threads (sched s) ! 0) = Run_loop"
      "entry (threads (sched s) ! 0) = None"
      by (auto simp: thread_turn_def)
    have len: "length (threads (sched s)) = Suc (length rs)" using t(6) by (simp add: all_wait_def)
    have "leaves (User p) ?rs s"
      using t len by (auto simp: leaves_def Let_def all_wait_def nth_list_update waits_def suspend_def)
    from dispatch [OF this] have "next_turn (Suc j) ?rs (schedule_next (User p) s)"
      using t(3) by simp
    moreover have "step s = schedule_next (User p) s"
      using Cons.prems(2) Yield_now t(4) by (simp add: step_simps)
    then have "leads s (schedule_next (User p) s)"
      by (metis leads_refl leads_step)
    ultimately show ?thesis using t(2)
      by (intro exI [of _ "schedule_next (User p) s"]) simp
  qed
qed

lemma turn:
  assumes "thread_turn j p rs s"
  shows "\<exists>s'. leads s s' \<and> next_turn (Suc j) (rs[j := tl (rs ! j)]) s' \<and> trace s' = trace s @ hd (rs ! j)"
proof (cases "code s = User p")
  case True
  then show ?thesis using turn_user [OF assms] by simp
next
  case False
  let ?s = "s\<lparr>current_entry := None, code := User p\<rparr>"
  from False assms have w: "code s = In_wrapper" "current_entry s = Some p" by (auto simp: thread_turn_def)
  have "thread_turn j p rs ?s" using assms by (auto simp: thread_turn_def)
  from turn_user [OF this] obtain s' where "leads ?s s'"
    "next_turn (Suc j) (rs[j := tl (rs ! j)]) s'" "trace s' = trace s @ hd (rs ! j)"
    by auto
  moreover have "step s = ?s" using w by (simp add: step_simps)
  ultimately show ?thesis by (metis leads_step)
qed

section \<open>Rounds\<close>

lemma round_rows:
  assumes "i \<le> j" "j < length rs" "\<And>k. i \<le> k \<Longrightarrow> k < j \<Longrightarrow> rs ! k = []"
  shows "take (Suc j) (rs[j := tl (rs ! j)]) @ map tl (drop (Suc j) rs) =
      take i rs @ map tl (drop i rs)"
  by (rule nth_equalityI)
    (use assms in \<open>auto simp: nth_append min_def nth_list_update less_Suc_eq\<close>)

lemma drop_rows:
  assumes "i \<le> j" "j < length rs" "\<And>k. i \<le> k \<Longrightarrow> k < j \<Longrightarrow> rs ! k = []"
  shows "filter (\<lambda>r. r \<noteq> []) (drop i rs) = filter (\<lambda>r. r \<noteq> []) (drop j rs)"
proof -
  have "drop i rs = take (j - i) (drop i rs) @ drop j rs"
    using assms(1) append_take_drop_id [of "j - i" "drop i rs"] by simp
  moreover have "filter (\<lambda>r. r \<noteq> []) (take (j - i) (drop i rs)) = []"
    using assms by (auto simp: filter_empty_conv in_set_conv_nth)
  ultimately show ?thesis by (metis append_Nil filter_append)
qed

lemma round:
  "next_turn i rs s \<Longrightarrow> i \<le> length rs \<Longrightarrow>
   \<exists>s'. leads s s' \<and> main_turn (take i rs @ map tl (drop i rs)) s' \<and>
     trace s' = trace s @ concat (map hd (filter (\<lambda>r. r \<noteq> []) (drop i rs)))"
proof (induction "length rs - i" arbitrary: i rs s rule: less_induct)
  case less
  show ?case
  proof (cases "\<forall>k. i \<le> k \<longrightarrow> k < length rs \<longrightarrow> rs ! k = []")
    case True
    then have "\<not> thread_turn j p rs s" if "i \<le> j" for j p
      using that by (auto simp: thread_turn_def)
    then have m: "main_turn rs s" using less.prems(1) by (auto simp: next_turn_def)
    have e: "list_all (\<lambda>r. r = []) (drop i rs)" using True by (auto simp: list_all_length)
    then have "map tl (drop i rs) = drop i rs" by (intro map_idI) (auto simp: list_all_iff)
    moreover have "filter (\<lambda>r. r \<noteq> []) (drop i rs) = []" using e by (auto simp: list_all_iff filter_empty_conv)
    ultimately show ?thesis using m by (intro exI [of _ s]) (simp add: leads_refl)
  next
    case False
    then obtain j p where j: "i \<le> j" "\<And>k. i \<le> k \<Longrightarrow> k < j \<Longrightarrow> rs ! k = []" "thread_turn j p rs s"
      using less.prems(1) by (auto simp: next_turn_def)
    then have len: "j < length rs" "rs ! j \<noteq> []" by (auto simp: thread_turn_def)
    let ?rs = "rs[j := tl (rs ! j)]"
    obtain s1 where s1: "leads s s1" "next_turn (Suc j) ?rs s1" "trace s1 = trace s @ hd (rs ! j)"
      using turn [OF j(3)] by blast
    have shorter: "length rs - Suc j < length rs - i" using j(1) len(1) by linarith
    obtain s2 where s2: "leads s1 s2" "main_turn (take (Suc j) ?rs @ map tl (drop (Suc j) ?rs)) s2"
      "trace s2 = trace s1 @ concat (map hd (filter (\<lambda>r. r \<noteq> []) (drop (Suc j) ?rs)))"
      using less.hyps [OF _ s1(2)] shorter len(1) by auto
    have "main_turn (take i rs @ map tl (drop i rs)) s2"
      using s2(2) round_rows [OF j(1) len(1) j(2)] by simp
    moreover have "filter (\<lambda>r. r \<noteq> []) (drop i rs) = rs ! j # filter (\<lambda>r. r \<noteq> []) (drop (Suc j) rs)"
      using drop_rows [OF j(1) len(1) j(2)] len by (simp add: Cons_nth_drop_Suc [symmetric])
    ultimately show ?thesis
      using leads_trans [OF s1(1) s2(1)] s1(3) s2(3) by (intro exI [of _ s2]) simp
  qed
qed

lemma run_rounds:
  "main_turn rs s \<Longrightarrow>
   \<exists>s'. leads s s' \<and> code s' = Returned \<and> \<not> scheduler_set s' \<and> trace s' = trace s @ round_robin rs \<and>
     list_all (\<lambda>t. state t = Finished) (tl (threads (sched s')))"
proof (induction rs arbitrary: s rule: round_robin.induct)
  case (1 rs)
  have len: "length (threads (sched s)) = Suc (length rs)"
    using 1(2) by (simp add: main_turn_def all_wait_def)
  have w: "waits (Suc i) (threads (sched s) ! Suc i) (rs ! i)" if "i < length rs" for i
    using 1(2) that by (simp add: main_turn_def all_wait_def)
  show ?case
  proof (cases "list_all (\<lambda>r. r = []) rs")
    case True
    have fin: "list_all (\<lambda>t. state t = Finished) (tl (threads (sched s)))"
      unfolding list_all_length
    proof (intro allI impI)
      fix i assume "i < length (tl (threads (sched s)))"
      then have i: "i < length rs" using len by simp
      then have "rs ! i = []" using True by (simp add: list_all_length)
      then show "state (tl (threads (sched s)) ! i) = Finished"
        using w [OF i] i len by (simp add: waits_def nth_tl)
    qed
    then have "step s = s\<lparr>scheduler_set := False, code := Returned\<rparr>"
      using 1(2) by (simp add: step_simps main_turn_def)
    then have "leads s (s\<lparr>scheduler_set := False, code := Returned\<rparr>)" by (metis leads_step leads_refl)
    then show ?thesis using fin True
      by (intro exI [of _ "s\<lparr>scheduler_set := False, code := Returned\<rparr>"]) (simp add: round_robin.simps)
  next
    case False
    then have nf: "\<not> (\<forall>k. 0 \<le> k \<longrightarrow> k < length rs \<longrightarrow> rs ! k = [])" by (simp add: list_all_length)
    obtain j where j: "j < length rs" "rs ! j \<noteq> []" "\<And>k. k < j \<Longrightarrow> rs ! k = []"
      using first_unfinished [OF nf] by auto
    have "leaves Run_loop rs s"
      using 1(2) len by (auto simp: leaves_def Let_def main_turn_def all_wait_def suspend_def)
    from dispatch_thread [OF this _ j(1,2)] j(3) 1(2)
    have "next_turn 0 rs (schedule_next Run_loop s)"
      using j(3) by (auto simp: next_turn_def main_turn_def)
    from round [OF this] obtain s1 where s1: "leads (schedule_next Run_loop s) s1"
      "main_turn (map tl rs) s1"
      "trace s1 = trace s @ concat (map hd (filter (\<lambda>r. r \<noteq> []) rs))"
      by auto
    have "\<exists>i < length rs. state (threads (sched s) ! Suc i) = Ready"
      using j(1,2) w [OF j(1)] waits_ready by blast
    then have "\<not> list_all (\<lambda>t. state t = Finished) (tl (threads (sched s)))"
      using len by (auto simp: list_all_length nth_tl)
    then have "step s = schedule_next Run_loop s"
      using 1(2) by (simp add: step_simps main_turn_def)
    then have "leads s s1" using s1(1) by (metis leads_step)
    moreover obtain s2 where "leads s1 s2" "code s2 = Returned" "\<not> scheduler_set s2"
      "trace s2 = trace s1 @ round_robin (map tl rs)"
      "list_all (\<lambda>t. state t = Finished) (tl (threads (sched s2)))"
      using 1(1) [OF False s1(2)] by blast
    ultimately show ?thesis using s1(3) False leads_trans
      by (intro exI [of _ s2]) (auto simp: round_robin.simps [of rs])
  qed
qed

lemma spawn_all:
  "threads (fold spawn fs s) = threads s @ map (\<lambda>f. \<lparr>ctx = In_wrapper, state = Ready, entry = Some f\<rparr>) fs"
  "current (fold spawn fs s) = current s"
  by (induction fs arbitrary: s) (auto simp: spawn_def)

definition rows :: "'e act list list \<Rightarrow> (nat \<times> 'e) list list list" where
  "rows fs = map (\<lambda>(i, f). segments i f) (enumerate 1 fs)"

lemma boot_main_turn: "main_turn (rows fs) (boot fs)"
proof -
  have "rows fs ! i = segments (Suc i) (fs ! i)" if "i < length fs" for i
    using that by (simp add: rows_def nth_enumerate_eq)
  then show ?thesis
    by (auto simp: main_turn_def boot_def spawn_all new_def all_wait_def waits_def rows_def
        nth_enumerate_eq)
qed

text \<open>C5: \<^verbatim>\<open>run\<close> returns, with every spawned thread finished and the global pointer cleared, and the
  threads have done their actions in round-robin order: in each round every thread that has not
  finished does what comes before its next \<^verbatim>\<open>yield_now\<close>, in the order in which they were spawned.
  In particular no action is lost or done twice.\<close>

theorem green_threads_round_robin:
  "\<exists>n. let s = (step ^^ n) (boot fs) in
     code s = Returned \<and> \<not> scheduler_set s \<and>
     list_all (\<lambda>t. state t = Finished) (tl (threads (sched s))) \<and>
     trace s = round_robin (rows fs) \<and> step s = s"
proof -
  have "trace (boot fs) = []" by (simp add: boot_def)
  with run_rounds [OF boot_main_turn, of fs] obtain n where
    "code ((step ^^ n) (boot fs)) = Returned" "\<not> scheduler_set ((step ^^ n) (boot fs))"
    "list_all (\<lambda>t. state t = Finished) (tl (threads (sched ((step ^^ n) (boot fs)))))"
    "trace ((step ^^ n) (boot fs)) = round_robin (rows fs)"
    unfolding leads_def by auto
  moreover from this(1) have "step ((step ^^ n) (boot fs)) = (step ^^ n) (boot fs)"
    by (simp add: step_simps)
  ultimately show ?thesis unfolding Let_def by blast
qed

text \<open>The actions of a thread, in the order of its program.\<close>

definition emits :: "'e act list \<Rightarrow> 'e list" where
  "emits p = concat (map (\<lambda>x. case x of Emit e \<Rightarrow> [e] | Yield_now \<Rightarrow> []) p)"

lemma segments_concat: "concat (segments i p) = map (Pair i) (emits p)"
proof (induction i p rule: segments.induct)
  case (3 i e p)
  then show ?case using segments_nonempty [of i p]
    by (cases "segments i p") (auto simp: emits_def)
qed (simp_all add: emits_def)

text \<open>The actions of row \<open>i\<close> carry the number \<open>n + i\<close>.\<close>

definition tagged :: "nat \<Rightarrow> (nat \<times> 'e) list list list \<Rightarrow> bool" where
  "tagged n rs \<longleftrightarrow> (\<forall>i < length rs. \<forall>r \<in> set (rs ! i). \<forall>x \<in> set r. fst x = n + i)"

lemma tagged_Cons:
  "tagged n (r # rs) \<longleftrightarrow> (\<forall>s \<in> set r. \<forall>x \<in> set s. fst x = n) \<and> tagged (Suc n) rs"
  by (auto simp: tagged_def All_less_Suc2)

lemma round_filter:
  "tagged n rs \<Longrightarrow>
   filter (\<lambda>x. fst x = m) (concat (map hd (filter (\<lambda>r. r \<noteq> []) rs))) =
     (if n \<le> m \<and> m - n < length rs \<and> rs ! (m - n) \<noteq> [] then hd (rs ! (m - n)) else [])"
proof (induction rs arbitrary: n)
  case (Cons r rs)
  then have t: "\<And>s x. s \<in> set r \<Longrightarrow> x \<in> set s \<Longrightarrow> fst x = n" "tagged (Suc n) rs"
    by (auto simp: tagged_Cons)
  have split: "concat (map hd (filter (\<lambda>r. r \<noteq> []) (r # rs))) =
      (if r = [] then [] else hd r) @ concat (map hd (filter (\<lambda>r. r \<noteq> []) rs))"
    by simp
  have hd: "filter (\<lambda>x. fst x = m) (if r = [] then [] else hd r) = (if r \<noteq> [] \<and> m = n then hd r else [])"
    using t(1) [of "hd r"] by (auto simp: filter_empty_conv filter_id_conv)
  note IH = Cons.IH [OF t(2)]
  consider "m = n" | "m < n" | "Suc n \<le> m" by linarith
  then show ?case
  proof cases
    case 3
    then have "m - n = Suc (m - Suc n)" by simp
    then show ?thesis using 3 unfolding split filter_append hd IH by simp
  qed (unfold split filter_append hd IH, simp_all)
qed simp

lemma set_tlD: "x \<in> set (tl xs) \<Longrightarrow> x \<in> set xs"
  by (cases xs) auto

lemma round_robin_filter:
  "tagged n rs \<Longrightarrow> i < length rs \<Longrightarrow>
   filter (\<lambda>x. fst x = n + i) (round_robin rs) = concat (rs ! i)"
proof (induction rs rule: round_robin.induct)
  case (1 rs)
  show ?case
  proof (cases "list_all (\<lambda>r. r = []) rs")
    case True
    then show ?thesis using 1(3) by (simp add: round_robin.simps list_all_length)
  next
    case False
    have "tagged n (map tl rs)"
      using 1(2) by (simp add: tagged_def) (blast dest: set_tlD)
    from 1(1) [OF False this] 1(3)
    have "filter (\<lambda>x. fst x = n + i) (round_robin (map tl rs)) = concat (tl (rs ! i))" by simp
    moreover have "rs ! i \<noteq> [] \<Longrightarrow> hd (rs ! i) @ concat (tl (rs ! i)) = concat (rs ! i)"
      by (cases "rs ! i") simp_all
    ultimately show ?thesis
      using False round_filter [OF 1(2), of "n + i"] 1(3) by (simp add: round_robin.simps [of rs])
  qed
qed

text \<open>Of every thread all actions are done when \<^verbatim>\<open>run\<close> returns, once and in program order.\<close>

theorem green_threads_program_order:
  assumes "i < length fs"
  shows "\<exists>n. let s = (step ^^ n) (boot fs) in
    code s = Returned \<and> map snd (filter (\<lambda>x. fst x = Suc i) (trace s)) = emits (fs ! i)"
proof -
  have "trace (boot fs) = []" by (simp add: boot_def)
  with run_rounds [OF boot_main_turn, of fs] obtain n where
    n: "code ((step ^^ n) (boot fs)) = Returned" "trace ((step ^^ n) (boot fs)) = round_robin (rows fs)"
    unfolding leads_def by auto
  have row: "rows fs ! k = segments (Suc k) (fs ! k)" if "k < length fs" for k
    using that by (simp add: rows_def nth_enumerate_eq)
  have len: "length (rows fs) = length fs" by (simp add: rows_def)
  have "\<forall>r \<in> set (segments k p). \<forall>x \<in> set r. fst x = k" for k and p :: "'a act list"
  proof -
    have "\<forall>x \<in> set (concat (segments k p)). fst x = k" by (auto simp: segments_concat)
    then show ?thesis by auto
  qed
  then have "tagged 1 (rows fs)" using row by (simp add: tagged_def len)
  from round_robin_filter [OF this, of i] assms
  have "filter (\<lambda>x. fst x = Suc i) (round_robin (rows fs)) = map (Pair (Suc i)) (emits (fs ! i))"
    by (simp add: len row segments_concat)
  with n show ?thesis by (intro exI [of _ n]) (simp add: Let_def comp_def)
qed

theorem green_threads_program_order_witness:
  "\<exists>n. let s = (step ^^ n) (boot [[Emit ''a'', Yield_now, Emit ''b''], [Emit ''c'']]) in
    code s = Returned \<and> map snd (filter (\<lambda>x. fst x = 1) (trace s)) = [''a'', ''b'']"
  using green_threads_program_order [of 0 "[[Emit ''a'', Yield_now, Emit ''b''], [Emit ''c'']]"]
  by (simp add: emits_def)

end
