(* ===== verification/GreenMachine.thy ===== *)
theory GreenMachine
  imports GreenThreads
begin

text \<open>
  The scheduler of \<^verbatim>\<open>exercises/04_context_switch/02_green_threads/src/lib.rs\<close> on the machine. Theory
  GreenThreads says of a context only where its thread continues; here the scheduler runs together with
  the registers and the memory of theory StackCoroutine, and its switches are calls of \<^verbatim>\<open>switch_context\<close>
  on the contexts of the threads.
\<close>

section \<open>Contexts of new threads\<close>

definition STACK_SIZE :: usize where
  "STACK_SIZE = 1024 * 128"

text \<open>\<^verbatim>\<open>TaskContext::default\<close>.\<close>

definition default_context :: TaskContext where
  "default_context = \<lparr>sp = 0, ra = 0, s0 = 0, s1 = 0, s2 = 0, s3 = 0, s4 = 0, s5 = 0, s6 = 0, s7 = 0,
     s8 = 0, s9 = 0, s10 = 0, s11 = 0\<rparr>"

text \<open>The context that \<^verbatim>\<open>spawn\<close> prepares, with the address the buffer got and that of \<^verbatim>\<open>thread_wrapper\<close>.\<close>

definition spawn_context :: "bool \<Rightarrow> usize \<Rightarrow> u64 \<Rightarrow> TaskContext res" where
  "spawn_context ck buffer wrapper =
     bind_res (add_ck ck buffer STACK_SIZE) (\<lambda>raw_top.
       let stack_top = raw_top AND NOT 0xF in Inr (default_context\<lparr>ra := wrapper, sp := stack_top\<rparr>))"

lemma spawn_context_stack:
  assumes "unat buffer + unat STACK_SIZE < 2 ^ 64"
  shows "\<exists>c. spawn_context ck buffer wrapper = Inr c \<and> ra c = wrapper \<and> 16 dvd unat (sp c) \<and>
    unat (sp c) \<le> unat buffer + unat STACK_SIZE \<and> unat buffer + unat STACK_SIZE < unat (sp c) + 16"
  using assms align_16 [of "buffer + STACK_SIZE"] unat_add_in_range [of buffer STACK_SIZE]
  by (simp add: spawn_context_def add_ck_in_range)

section \<open>The machine under the scheduler\<close>

text \<open>The call of this crate's \<^verbatim>\<open>switch_context\<close>, which does what that of the coroutines does.\<close>

definition run_green_switch :: "u64 \<Rightarrow> u64 \<Rightarrow> machine \<Rightarrow> machine" where
  "run_green_switch from_ctx to_ctx m =
     fold exec GreenThreads.switch_context (m\<lparr>regs := (regs m)(A 0 := from_ctx, A 1 := to_ctx)\<rparr>)"

lemma run_green_switch_same: "run_green_switch = run_switch"
  by (simp add: fun_eq_iff run_green_switch_def run_switch_def switch_context_same)

lemmas green_switch_facts = run_switch_facts [folded run_green_switch_same]

text \<open>\<open>kept\<close> is history: the registers each thread had when it was last switched away from.\<close>

record 'e green =
  sys :: "'e system"
  mach :: machine
  kept :: "nat \<Rightarrow> reg \<Rightarrow> u64"

abbreviation turn_of :: "'e green \<Rightarrow> nat" where
  "turn_of s \<equiv> current (sched (sys s))"

text \<open>What the code of the threads and of the scheduler may do to the machine: anything but to the contexts.
  \<open>at i\<close>: the address of the context of thread \<open>i\<close>, of \<open>n\<close> threads.\<close>

definition leaves_contexts :: "(nat \<Rightarrow> u64) \<Rightarrow> nat \<Rightarrow> machine \<Rightarrow> machine \<Rightarrow> bool" where
  "leaves_contexts at n m m' \<longleftrightarrow> (\<forall>i < n. \<forall>w \<in> ctx_words (at i). words m' w = words m w)"

text \<open>A step of the system: while it stays with its thread the machine computes; when it turns to another one,
  it computes up to the call of \<^verbatim>\<open>switch_context\<close>, and that runs.\<close>

inductive green_step :: "(nat \<Rightarrow> u64) \<Rightarrow> 'e green \<Rightarrow> 'e green \<Rightarrow> bool" for at where
  compute: "current (sched (step (sys s))) = turn_of s \<Longrightarrow>
    leaves_contexts at (length (threads (sched (sys s)))) (mach s) m \<Longrightarrow>
    green_step at s (s\<lparr>sys := step (sys s), mach := m\<rparr>)"
| switch: "current (sched (step (sys s))) = j \<Longrightarrow> j \<noteq> turn_of s \<Longrightarrow>
    leaves_contexts at (length (threads (sched (sys s)))) (mach s) m \<Longrightarrow>
    green_step at s
      \<lparr>sys = step (sys s), mach = run_green_switch (at (turn_of s)) (at j) m, kept = (kept s)(turn_of s := regs m)\<rparr>"

text \<open>\<^verbatim>\<open>run\<close> is called: the contexts of the spawned threads are in memory.\<close>

definition green_boot :: "(nat \<Rightarrow> u64) \<Rightarrow> 'e act list list \<Rightarrow> TaskContext list \<Rightarrow> 'e green \<Rightarrow> bool" where
  "green_boot at fs cs s \<longleftrightarrow>
     sys s = boot fs \<and> length cs = length fs \<and>
     (\<forall>i < length cs. ctx_in (words (mach s)) (at (Suc i)) (cs ! i) \<and> kept s (Suc i) = field (cs ! i))"

definition apart_contexts :: "(nat \<Rightarrow> u64) \<Rightarrow> nat \<Rightarrow> bool" where
  "apart_contexts at n \<longleftrightarrow> (\<forall>i < n. \<forall>j < n. i \<noteq> j \<longrightarrow> separate (at i) (at j))"

section \<open>Every thread finds its registers again\<close>

lemma schedule_next_threads:
  "length (threads (sched (schedule_next k s))) = length (threads (sched s))"
  by (simp add: schedule_next_def Let_def)

lemma step_threads: "length (threads (sched (step s))) = length (threads (sched s))"
  by (auto simp: step_simps schedule_next_threads finish_current_def Let_def split: code.splits act.splits list.splits option.splits)

lemma scan_less: "nxt < length ths \<Longrightarrow> scan ths start nxt < length ths"
proof (induction ths start nxt rule: scan.induct)
  case (1 ths start nxt)
  then have "(nxt + 1) mod length ths < length ths" by (intro mod_less_divisor) linarith
  with 1 show ?case by (subst scan.simps) simp
qed

lemma schedule_next_current:
  assumes "current (sched s) < length (threads (sched s))"
  shows "current (sched (schedule_next k s)) < length (threads (sched s))"
    and "current (sched (schedule_next k s)) \<noteq> current (sched s) \<Longrightarrow>
      code (schedule_next k s) = ctx (threads (sched s) ! current (sched (schedule_next k s)))"
proof -
  let ?n = "length (threads (sched s))"
  have "(current (sched s) + 1) mod ?n < ?n" using assms by (intro mod_less_divisor) linarith
  from scan_less [OF this] show "current (sched (schedule_next k s)) < ?n"
    using assms by (simp add: schedule_next_def Let_def)
qed (auto simp: schedule_next_def Let_def)

lemma step_current:
  assumes "current (sched s) < length (threads (sched s))"
  shows "current (sched (step s)) < length (threads (sched s))"
    and "current (sched (step s)) \<noteq> current (sched s) \<Longrightarrow>
      code (step s) = ctx (threads (sched s) ! current (sched (step s)))"
proof -
  have f: "current (sched (finish_current s)) = current (sched s)"
    "length (threads (sched (finish_current s))) = length (threads (sched s))"
    "j \<noteq> current (sched s) \<Longrightarrow> threads (sched (finish_current s)) ! j = threads (sched s) ! j" for j
    by (simp_all add: finish_current_def Let_def)
  note next_one = schedule_next_current [OF assms] schedule_next_current [of "finish_current s"]
  show "current (sched (step s)) < length (threads (sched s))"
    using assms next_one f(1,2)
    by (auto simp: step_simps split: code.splits act.splits list.splits option.splits)
  show "code (step s) = ctx (threads (sched s) ! current (sched (step s)))"
    if "current (sched (step s)) \<noteq> current (sched s)"
    using that assms next_one f
    by (auto simp: step_simps split: code.splits act.splits list.splits option.splits if_splits)
qed

text \<open>The contexts of the threads that wait hold the registers they had.\<close>

definition green_inv :: "(nat \<Rightarrow> u64) \<Rightarrow> nat \<Rightarrow> 'e green \<Rightarrow> bool" where
  "green_inv at n s \<longleftrightarrow>
     length (threads (sched (sys s))) = n \<and> turn_of s < n \<and>
     (\<forall>i < n. i \<noteq> turn_of s \<longrightarrow> (\<forall>(r, off) \<in> set slots. words (mach s) (at i + off) = kept s i r))"

lemma slot_in_context: "(r, off) \<in> set slots \<Longrightarrow> p + off \<in> ctx_words p"
  by (force simp: ctx_words_def)

lemma green_inv_step:
  assumes "apart_contexts at n" "green_inv at n s" "green_step at s s'"
  shows "green_inv at n s'"
proof -
  have n: "length (threads (sched (sys s))) = n" "turn_of s < n" using assms(2) by (simp_all add: green_inv_def)
  have saved: "words m (at i + off) = kept s i r"
    if "leaves_contexts at n (mach s) m" "i < n" "i \<noteq> turn_of s" "(r, off) \<in> set slots" for m i r off
    using assms(2) that slot_in_context [OF that(4), of "at i"] by (auto simp: leaves_contexts_def green_inv_def)
  show ?thesis
    using assms(3)
  proof (cases rule: green_step.cases)
    case (compute m)
    then show ?thesis using n saved [of m] by (auto simp: green_inv_def step_threads)
  next
    case (switch j m)
    have j: "j < n" using switch(2) step_current(1) [of "sys s"] n by simp
    have "separate (at (turn_of s)) (at j)" using assms(1) n(2) j switch(3) by (auto simp: apart_contexts_def)
    note run = green_switch_facts [OF this]
    have "words (mach s') (at i + off) = kept s' i r" if "i < n" "i \<noteq> j" "(r, off) \<in> set slots" for i r off
    proof (cases "i = turn_of s")
      case True
      then show ?thesis using switch run(1) [OF that(3)] by simp
    next
      case False
      have "at i + off \<notin> ctx_words (at (turn_of s))"
        using assms(1) n(2) that(1) False slot_in_context [OF that(3), of "at i"]
        by (auto simp: apart_contexts_def separate_def)
      then show ?thesis
        using switch n saved [of m i r off] that False green_switch_facts(3) [of "at (turn_of s)" "at j"]
          \<open>separate (at (turn_of s)) (at j)\<close> by simp
    qed
    then show ?thesis using switch n j by (auto simp: green_inv_def step_threads)
  qed
qed

lemma boot_threads:
  "length (threads (sched (boot fs))) = Suc (length fs)" "current (sched (boot fs)) = 0"
proof -
  have "length (threads (fold spawn fs s)) = length (threads s) + length fs \<and> current (fold spawn fs s) = current s"
    for s :: "'a Scheduler"
    by (induction fs arbitrary: s) (simp_all add: spawn_def)
  then show "length (threads (sched (boot fs))) = Suc (length fs)" "current (sched (boot fs)) = 0"
    by (simp_all add: boot_def new_def)
qed

lemma green_inv_boot: "green_boot at fs cs s \<Longrightarrow> green_inv at (Suc (length fs)) s"
  by (fastforce simp: green_boot_def green_inv_def boot_threads ctx_in_def less_Suc_eq_0_disj)

lemma green_inv_steps:
  "(green_step at)\<^sup>*\<^sup>* s s' \<Longrightarrow> apart_contexts at n \<Longrightarrow> green_inv at n s \<Longrightarrow> green_inv at n s'"
  by (induction rule: rtranclp_induct) (auto intro: green_inv_step)

text \<open>The scheduler above the machine is that of theory GreenThreads.\<close>

lemma green_projects: "(green_step at)\<^sup>*\<^sup>* b s \<Longrightarrow> \<exists>n. sys s = (step ^^ n) (sys b)"
proof (induction rule: rtranclp_induct)
  case base
  show ?case by (intro exI [of _ 0]) simp
next
  case (step s s')
  then obtain n where "sys s = (GreenThreads.step ^^ n) (sys b)" by blast
  moreover have "sys s' = GreenThreads.step (sys s)" using step.hyps(2) by cases simp_all
  ultimately show ?case by (intro exI [of _ "Suc n"]) simp
qed

text \<open>C20: Whatever the threads compute, as long as they leave the contexts alone: a thread that the scheduler
  turns to has all the registers it had when it was last switched away from, or those of the context
  \<^verbatim>\<open>spawn\<close> prepared, and the processor goes on at its return address, where the model of the scheduler
  has it go on.\<close>

theorem green_threads_registers:
  assumes "apart_contexts at (Suc (length fs))" "green_boot at fs cs b"
    and "(green_step at)\<^sup>*\<^sup>* b s" "green_step at s s'" "turn_of s' \<noteq> turn_of s"
  shows "(\<forall>(r, off) \<in> set slots. regs (mach s') r = kept s (turn_of s') r) \<and>
    pc (mach s') = kept s (turn_of s') Ra AND NOT 1 \<and>
    code (sys s') = ctx (threads (sched (sys s)) ! turn_of s') \<and>
    (\<exists>n. sys s' = (step ^^ n) (boot fs))"
proof -
  have "(green_step at)\<^sup>*\<^sup>* b s'" using assms(3,4) by (rule rtranclp.rtrancl_into_rtrancl)
  from green_projects [OF this] have project: "\<exists>n. sys s' = (step ^^ n) (boot fs)"
    using assms(2) by (simp add: green_boot_def)
  have inv: "green_inv at (Suc (length fs)) s"
    using green_inv_steps [OF assms(3,1) green_inv_boot [OF assms(2)]] .
  then have n: "length (threads (sched (sys s))) = Suc (length fs)" "turn_of s < Suc (length fs)"
    by (simp_all add: green_inv_def)
  show ?thesis
    using assms(4)
  proof (cases rule: green_step.cases)
    case (switch j m)
    have j: "j < Suc (length fs)" using switch(2) step_current(1) [of "sys s"] n by simp
    have "separate (at (turn_of s)) (at j)" using assms(1) n(2) j switch(3) by (auto simp: apart_contexts_def)
    note run = green_switch_facts [OF this]
    have "words m (at j + off) = kept s j r" if "(r, off) \<in> set slots" for r off
      using inv switch(3,4) j n(1) that slot_in_context [OF that, of "at j"]
      by (auto simp: leaves_contexts_def green_inv_def)
    moreover have "(Ra, 8) \<in> set slots" by (simp add: slots_def)
    ultimately show ?thesis
      using switch run(2,4) step_current(2) [of "sys s"] n project by auto
  qed (use assms(5) in simp)
qed

text \<open>The machine of the example: one thread, whose context lies behind that of the main thread.\<close>

definition example_at :: "nat \<Rightarrow> u64" where
  "example_at i = 0x1000 + of_nat i * 0x1000"

definition example_context :: TaskContext where
  "example_context = default_context\<lparr>sp := 0x20000, ra := 0x8000\<rparr>"

definition example_green :: "nat green" where
  "example_green =
     \<lparr>sys = boot [[Emit 1]], mach = \<lparr>regs = (\<lambda>_. 7), words = (\<lambda>_. 0)(0x2000 := 0x20000, 0x2008 := 0x8000), pc = 0\<rparr>,
      kept = (\<lambda>_. field example_context)\<rparr>"

lemma example_turn: "current (sched (step (boot [[Emit (1 :: nat)]]))) = 1"
proof -
  let ?ths = "[\<lparr>ctx = Returned, state = Running, entry = None\<rparr>,
    \<lparr>ctx = In_wrapper, state = Ready, entry = Some [Emit (1 :: nat)]\<rparr>]"
  have "scan ?ths 0 ((0 + 1) mod length ?ths) = 1" by (rule scan_next_ready) auto
  then show ?thesis
    by (simp add: boot_def new_def spawn_def step.simps run_step_def schedule_next_def suspend_def Let_def)
qed

theorem green_threads_registers_witness:
  "\<exists>s'. green_step example_at example_green s' \<and> turn_of s' = 1 \<and> regs (mach s') Sp = 0x20000 \<and>
    pc (mach s') = 0x8000"
proof -
  let ?s = example_green
  let ?s' = "\<lparr>sys = step (sys ?s), mach = run_green_switch (example_at 0) (example_at 1) (mach ?s),
    kept = (kept ?s)(0 := regs (mach ?s))\<rparr>"
  have apart: "apart_contexts example_at (Suc (length [[Emit (1 :: nat)]]))"
    by (simp add: apart_contexts_def less_Suc_eq separate_def ctx_words_def slots_def example_at_def)
  have boot: "green_boot example_at [[Emit 1]] [example_context] ?s"
    by (simp add: green_boot_def example_green_def ctx_in_def slots_def example_at_def example_context_def default_context_def)
  have zero: "turn_of ?s = 0" by (simp add: example_green_def boot_threads)
  have one: "current (sched (step (sys ?s))) = 1" using example_turn by (simp add: example_green_def)
  have "leaves_contexts example_at (length (threads (sched (sys ?s)))) (mach ?s) (mach ?s)"
    by (simp add: leaves_contexts_def)
  then have st: "green_step example_at ?s ?s'"
    using green_step.switch [of ?s 1 example_at "mach ?s"] one zero by simp
  note regs = green_threads_registers [OF apart boot rtranclp.rtrancl_refl st]
  have kept: "kept ?s 1 = field example_context" by (simp add: example_green_def)
  have "(Sp, 0) \<in> set slots" by (simp add: slots_def)
  with regs one zero kept have "regs (mach ?s') Sp = 0x20000" "pc (mach ?s') = 0x8000"
    by (auto simp: example_context_def default_context_def)
  with st one show ?thesis by (intro exI [of _ ?s']) simp
qed

end
