(* ===== verification/SyscallWrapper.thy ===== *)
theory SyscallWrapper
  imports Prelude
begin

text \<open>
  \<^verbatim>\<open>exercises/02_no_std_dev/04_syscall_wrapper/src/lib.rs\<close>: the descriptions of the system call ABIs,
  and the wrappers over inline assembly. An \<^verbatim>\<open>asm!\<close> block is its instruction with its operands;
  what the instruction does is a parameter, \<open>trap\<close>, a function on the registers and the world behind
  them. The descriptions say what a kernel does at that instruction, \<open>kernel_entry\<close>, so they are what
  the inline assembly is checked against.
\<close>

section \<open>The ABI descriptions\<close>

record SyscallABI =
  arch :: string
  instruction :: string
  id_reg :: string
  ret_reg :: string
  arg_regs :: "string list"
  clobbered :: "string list"
  nr_write :: usize
  nr_read :: usize
  nr_close :: usize
  nr_exit :: usize

definition x86_64_abi :: SyscallABI where
  "x86_64_abi = \<lparr>arch = ''x86_64'', instruction = ''syscall'', id_reg = ''rax'', ret_reg = ''rax'',
     arg_regs = [''rdi'', ''rsi'', ''rdx'', ''r10'', ''r8'', ''r9''], clobbered = [''rcx'', ''r11''],
     nr_write = 1, nr_read = 0, nr_close = 3, nr_exit = 60\<rparr>"

definition aarch64_abi :: SyscallABI where
  "aarch64_abi = \<lparr>arch = ''aarch64'', instruction = ''svc #0'', id_reg = ''x8'', ret_reg = ''x0'',
     arg_regs = [''x0'', ''x1'', ''x2'', ''x3'', ''x4'', ''x5''], clobbered = [],
     nr_write = 64, nr_read = 63, nr_close = 57, nr_exit = 93\<rparr>"

definition riscv64_abi :: SyscallABI where
  "riscv64_abi = \<lparr>arch = ''riscv64'', instruction = ''ecall'', id_reg = ''a7'', ret_reg = ''a0'',
     arg_regs = [''a0'', ''a1'', ''a2'', ''a3'', ''a4'', ''a5''], clobbered = [],
     nr_write = 64, nr_read = 63, nr_close = 57, nr_exit = 93\<rparr>"

section \<open>Inline assembly\<close>

datatype operand =
    In string u64
  | Inlateout string u64
  | Out string

type_synonym regs = "string \<Rightarrow> u64"
type_synonym 'w trap = "string \<Rightarrow> regs \<times> 'w \<Rightarrow> regs \<times> 'w"

text \<open>The registers are loaded, the instruction runs, and the result is read from the \<^verbatim>\<open>inlateout\<close>
  register.\<close>

fun load_operand :: "operand \<Rightarrow> regs \<Rightarrow> regs" where
  "load_operand (In r x) rs = rs(r := x)"
| "load_operand (Inlateout r x) rs = rs(r := x)"
| "load_operand (Out r) rs = rs"

fun result_reg :: "operand list \<Rightarrow> string option" where
  "result_reg [] = None"
| "result_reg (Inlateout r x # ops) = Some r"
| "result_reg (In r x # ops) = result_reg ops"
| "result_reg (Out r # ops) = result_reg ops"

text \<open>The registers the compiler expects to change.\<close>

fun outputs :: "operand list \<Rightarrow> string set" where
  "outputs [] = {}"
| "outputs (In r x # ops) = outputs ops"
| "outputs (Inlateout r x # ops) = insert r (outputs ops)"
| "outputs (Out r # ops) = insert r (outputs ops)"

definition run_asm :: "'w trap \<Rightarrow> string \<Rightarrow> operand list \<Rightarrow> regs \<times> 'w \<Rightarrow> u64 option \<times> regs \<times> 'w" where
  "run_asm trap ins ops s =
     (case trap ins (fold load_operand ops (fst s), snd s) of
        (rs, w) \<Rightarrow> (map_option rs (result_reg ops), rs, w))"

record target =
  target_arch :: string
  linux :: bool

definition x86_64_operands :: "usize \<Rightarrow> usize \<Rightarrow> usize \<Rightarrow> usize \<Rightarrow> operand list" where
  "x86_64_operands nr arg0 arg1 arg2 =
     [Inlateout ''rax'' nr, In ''rdi'' arg0, In ''rsi'' arg1, In ''rdx'' arg2, Out ''rcx'', Out ''r11'']"

definition aarch64_operands :: "usize \<Rightarrow> usize \<Rightarrow> usize \<Rightarrow> usize \<Rightarrow> operand list" where
  "aarch64_operands nr arg0 arg1 arg2 =
     [In ''x8'' nr, Inlateout ''x0'' arg0, In ''x1'' arg1, In ''x2'' arg2]"

text \<open>\<^verbatim>\<open>syscall3\<close> with the operand of its result; \<open>None\<close>: the target has no such function, and the crate
  does not compile.\<close>

definition syscall3 ::
  "target \<Rightarrow> 'w trap \<Rightarrow> usize \<Rightarrow> usize \<Rightarrow> usize \<Rightarrow> usize \<Rightarrow> regs \<times> 'w \<Rightarrow> (u64 option \<times> regs \<times> 'w) res option"
where
  "syscall3 t trap nr arg0 arg1 arg2 s =
     (if target_arch t = ''x86_64'' \<and> linux t then
        Some (Inr (run_asm trap ''syscall'' (x86_64_operands nr arg0 arg1 arg2) s))
      else if target_arch t = ''aarch64'' \<and> linux t then
        Some (Inr (run_asm trap ''svc #0'' (aarch64_operands nr arg0 arg1 arg2) s))
      else if \<not> linux t then Some (Inl ExplicitPanic)
      else None)"

definition NATIVE_SYS_WRITE :: "target \<Rightarrow> usize" where
  "NATIVE_SYS_WRITE t =
     (if target_arch t = ''x86_64'' then 1 else if target_arch t = ''aarch64'' then 64 else 0)"

definition NATIVE_SYS_READ :: "target \<Rightarrow> usize" where
  "NATIVE_SYS_READ t =
     (if target_arch t = ''x86_64'' then 0 else if target_arch t = ''aarch64'' then 63 else 0)"

definition NATIVE_SYS_CLOSE :: "target \<Rightarrow> usize" where
  "NATIVE_SYS_CLOSE t =
     (if target_arch t = ''x86_64'' then 3 else if target_arch t = ''aarch64'' then 57 else 0)"

definition NATIVE_SYS_EXIT :: "target \<Rightarrow> usize" where
  "NATIVE_SYS_EXIT t =
     (if target_arch t = ''x86_64'' then 60 else if target_arch t = ''aarch64'' then 93 else 0)"

text \<open>A byte slice is its address and length.\<close>

record slice =
  as_ptr :: usize
  len :: usize

definition sys_write ::
  "target \<Rightarrow> 'w trap \<Rightarrow> usize \<Rightarrow> slice \<Rightarrow> regs \<times> 'w \<Rightarrow> (u64 option \<times> regs \<times> 'w) res option"
where
  "sys_write t trap fd buf s = syscall3 t trap (NATIVE_SYS_WRITE t) fd (as_ptr buf) (len buf) s"

definition sys_read ::
  "target \<Rightarrow> 'w trap \<Rightarrow> usize \<Rightarrow> slice \<Rightarrow> regs \<times> 'w \<Rightarrow> (u64 option \<times> regs \<times> 'w) res option"
where
  "sys_read t trap fd buf s = syscall3 t trap (NATIVE_SYS_READ t) fd (as_ptr buf) (len buf) s"

definition sys_close ::
  "target \<Rightarrow> 'w trap \<Rightarrow> usize \<Rightarrow> regs \<times> 'w \<Rightarrow> (u64 option \<times> regs \<times> 'w) res option"
where
  "sys_close t trap fd s = syscall3 t trap (NATIVE_SYS_CLOSE t) fd 0 0 s"

text \<open>\<^verbatim>\<open>code as usize\<close> extends the sign. The call is followed by an empty loop, so what is left is the
  world the kernel has made.\<close>

definition sys_exit :: "target \<Rightarrow> 'w trap \<Rightarrow> i32 \<Rightarrow> regs \<times> 'w \<Rightarrow> (panic \<times> 'w) option" where
  "sys_exit t trap status s =
     (case syscall3 t trap (NATIVE_SYS_EXIT t) (scast status) 0 0 s of
        None \<Rightarrow> None
      | Some (Inl e) \<Rightarrow> Some (e, snd s)
      | Some (Inr (_, _, w)) \<Rightarrow> Some (NoReturn, w))"

section \<open>The assembly agrees with the descriptions\<close>

text \<open>A kernel at the instruction an ABI describes: it takes the number and the six arguments from the
  registers named there, and leaves the result and arbitrary values in those it says change.\<close>

definition kernel_entry ::
  "SyscallABI \<Rightarrow> (u64 \<Rightarrow> u64 list \<Rightarrow> 'w \<Rightarrow> u64 \<times> 'w) \<Rightarrow> regs \<Rightarrow> 'w trap"
where
  "kernel_entry abi kern junk ins s =
     (if ins \<noteq> instruction abi then s
      else case kern (fst s (id_reg abi)) (map (fst s) (arg_regs abi)) (snd s) of
        (r, w) \<Rightarrow> (\<lambda>q. if q = ret_reg abi then r else if q \<in> set (clobbered abi) then junk q else fst s q, w))"

definition operands_of :: "SyscallABI \<Rightarrow> usize \<Rightarrow> usize \<Rightarrow> usize \<Rightarrow> usize \<Rightarrow> operand list" where
  "operands_of abi = (if arch abi = ''x86_64'' then x86_64_operands else aarch64_operands)"

lemmas abi_defs = x86_64_abi_def aarch64_abi_def

lemma syscall3_kernel:
  assumes "abi \<in> {x86_64_abi, aarch64_abi}"
    and "kern nr ([arg0, arg1, arg2] @ map rs (drop 3 (arg_regs abi))) w = (r, w')"
  shows "\<exists>rs'. syscall3 \<lparr>target_arch = arch abi, linux = True\<rparr> (kernel_entry abi kern junk) nr arg0 arg1 arg2 (rs, w) =
      Some (Inr (Some r, rs', w')) \<and>
    (\<forall>q. q \<notin> outputs (operands_of abi nr arg0 arg1 arg2) \<longrightarrow>
       rs' q = fold load_operand (operands_of abi nr arg0 arg1 arg2) rs q)"
proof -
  consider "abi = x86_64_abi" | "abi = aarch64_abi" using assms(1) by blast
  then show ?thesis
  proof cases
    case 1
    then show ?thesis using assms(2)
      by (simp add: syscall3_def run_asm_def kernel_entry_def operands_of_def x86_64_operands_def abi_defs)
  next
    case 2
    then show ?thesis using assms(2)
      by (simp add: syscall3_def run_asm_def kernel_entry_def operands_of_def aarch64_operands_def abi_defs)
  qed
qed

text \<open>C23: On the two native targets \<^verbatim>\<open>syscall3\<close> does what the described ABI asks for: the kernel gets the
  number and the three arguments, in order, the function returns its result, and every register
  the call changes has been declared to the compiler as an output; all others have the value the
  compiler put there.\<close>

theorem syscall3_follows_abi:
  assumes "abi \<in> {x86_64_abi, aarch64_abi}"
  shows "\<exists>r rs' w'. kern nr ([arg0, arg1, arg2] @ map rs (drop 3 (arg_regs abi))) w = (r, w') \<and>
    syscall3 \<lparr>target_arch = arch abi, linux = True\<rparr> (kernel_entry abi kern junk) nr arg0 arg1 arg2 (rs, w) =
      Some (Inr (Some r, rs', w')) \<and>
    (\<forall>q. q \<notin> outputs (operands_of abi nr arg0 arg1 arg2) \<longrightarrow>
       rs' q = fold load_operand (operands_of abi nr arg0 arg1 arg2) rs q)"
  using syscall3_kernel [OF assms] by (metis surj_pair)

theorem syscall3_follows_abi_witness:
  "\<exists>rs'. syscall3 \<lparr>target_arch = ''aarch64'', linux = True\<rparr>
      (kernel_entry aarch64_abi (\<lambda>nr args w. (nr + args ! 1, w)) (\<lambda>_. 0)) 5 1 7 2 (\<lambda>_. 0, ()) =
    Some (Inr (Some 12, rs', ()))"
  using syscall3_follows_abi [of aarch64_abi "\<lambda>nr args w. (nr + args ! 1, w)" 5 1 7 2 "\<lambda>_. 0" "()" "\<lambda>_. 0"]
  by (auto simp: aarch64_abi_def)

text \<open>The wrappers make the system call of their name, by the number the described ABI has for it,
  with the descriptor and the address and length of the buffer; the status of \<^verbatim>\<open>exit\<close> arrives with its
  sign, and \<^verbatim>\<open>exit\<close> does not return.\<close>

theorem wrappers_follow_abi:
  assumes "abi \<in> {x86_64_abi, aarch64_abi}" "kern = (\<lambda>nr args w. (result nr args, w @ [(nr, take 3 args)]))"
  shows "let t = \<lparr>target_arch = arch abi, linux = True\<rparr>; trap = kernel_entry abi kern junk;
      calls = (\<lambda>c nr args. \<exists>r rs'. c = Some (Inr (Some r, rs', w @ [(nr, args)])))
    in calls (sys_write t trap fd buf (rs, w)) (nr_write abi) [fd, as_ptr buf, len buf] \<and>
       calls (sys_read t trap fd buf (rs, w)) (nr_read abi) [fd, as_ptr buf, len buf] \<and>
       calls (sys_close t trap fd (rs, w)) (nr_close abi) [fd, 0, 0] \<and>
       sys_exit t trap status (rs, w) = Some (NoReturn, w @ [(nr_exit abi, [scast status, 0, 0])])"
proof -
  have sys: "\<exists>r rs'. syscall3 \<lparr>target_arch = arch abi, linux = True\<rparr> (kernel_entry abi kern junk) nr a b c (rs, w) =
      Some (Inr (Some r, rs', w @ [(nr, [a, b, c])]))" for nr a b c
    using syscall3_kernel [OF assms(1), of kern nr a b c rs w _ "w @ [(nr, [a, b, c])]" junk]
    by (auto simp: assms(2))
  have nrs: "NATIVE_SYS_WRITE \<lparr>target_arch = arch abi, linux = True\<rparr> = nr_write abi"
    "NATIVE_SYS_READ \<lparr>target_arch = arch abi, linux = True\<rparr> = nr_read abi"
    "NATIVE_SYS_CLOSE \<lparr>target_arch = arch abi, linux = True\<rparr> = nr_close abi"
    "NATIVE_SYS_EXIT \<lparr>target_arch = arch abi, linux = True\<rparr> = nr_exit abi"
    using assms(1) by (auto simp: abi_defs NATIVE_SYS_WRITE_def NATIVE_SYS_READ_def NATIVE_SYS_CLOSE_def NATIVE_SYS_EXIT_def)
  obtain r rs' where "syscall3 \<lparr>target_arch = arch abi, linux = True\<rparr> (kernel_entry abi kern junk) (nr_exit abi)
      (scast status) 0 0 (rs, w) = Some (Inr (Some r, rs', w @ [(nr_exit abi, [scast status, 0, 0])]))"
    using sys by blast
  then show ?thesis using sys
    by (simp add: Let_def sys_write_def sys_read_def sys_close_def sys_exit_def nrs)
qed

theorem wrappers_follow_abi_witness:
  "\<exists>w. sys_exit \<lparr>target_arch = ''x86_64'', linux = True\<rparr>
     (kernel_entry x86_64_abi (\<lambda>nr args w. (0, w @ [(nr, take 3 args)])) (\<lambda>_. 0)) (- 1) (\<lambda>_. 0, []) = Some (NoReturn, w) \<and>
     w = [(60, [- 1, 0, 0])]"
  using wrappers_follow_abi [of x86_64_abi "\<lambda>nr args w. (0, w @ [(nr, take 3 args)])" "\<lambda>_ _. 0" "\<lambda>_. 0" "[]" 0
      "\<lparr>as_ptr = 0, len = 0\<rparr>" "\<lambda>_. 0" "- 1"]
  by (simp add: x86_64_abi_def Let_def)

text \<open>On a RISC-V Linux target there is no \<^verbatim>\<open>syscall3\<close>, and the numbers the wrappers would use are not
  those of the description.\<close>

lemma riscv64_unsupported:
  "syscall3 \<lparr>target_arch = arch riscv64_abi, linux = True\<rparr> trap nr a b c s = None"
  "NATIVE_SYS_WRITE \<lparr>target_arch = arch riscv64_abi, linux = True\<rparr> \<noteq> nr_write riscv64_abi"
  by (simp_all add: syscall3_def riscv64_abi_def NATIVE_SYS_WRITE_def)

end
