(* ===== verification/Text.thy ===== *)
theory Text
  imports Prelude
begin

text \<open>
  Rust's strings, as the exercise runner uses them. A \<^verbatim>\<open>String\<close> is its UTF-8 bytes: a list of
  HOL's 8-bit characters. The theory has the operations of the standard library the runner
  calls: \<^verbatim>\<open>str::replace\<close> on line ends, \<^verbatim>\<open>str::lines\<close>, \<^verbatim>\<open>str::repeat\<close>, \<^verbatim>\<open>String::from_utf8_lossy\<close>, and
  \<^verbatim>\<open>format!\<close>'s decimal numbers and padding.
\<close>

section \<open>Line ends\<close>

abbreviation CR :: char where "CR \<equiv> CHR 0x0D"
abbreviation LF :: char where "LF \<equiv> CHR 0x0A"

text \<open>\<^verbatim>\<open>s.replace("\r\n", "\n")\<close> and \<^verbatim>\<open>s.replace('\n', "\r\n")\<close>.\<close>

fun crlf_to_lf :: "string \<Rightarrow> string" where
  "crlf_to_lf (c # d # cs) =
     (if c = CR \<and> d = LF then LF # crlf_to_lf cs else c # crlf_to_lf (d # cs))"
| "crlf_to_lf cs = cs"

fun lf_to_crlf :: "string \<Rightarrow> string" where
  "lf_to_crlf [] = []"
| "lf_to_crlf (c # cs) = (if c = LF then CR # LF # lf_to_crlf cs else c # lf_to_crlf cs)"

text \<open>Every line feed comes directly after a carriage return; \<open>prev\<close> is the character before.\<close>

fun crlf_from :: "char \<Rightarrow> string \<Rightarrow> bool" where
  "crlf_from prev [] = True"
| "crlf_from prev (c # cs) = ((c = LF \<longrightarrow> prev = CR) \<and> crlf_from c cs)"

definition crlf_ended :: "string \<Rightarrow> bool" where
  "crlf_ended s = crlf_from LF s"

lemma crlf_from_mono: "crlf_from LF s \<Longrightarrow> crlf_from c s"
  by (cases s) auto

lemma crlf_from_append:
  "crlf_from c s \<Longrightarrow> crlf_from LF t \<Longrightarrow> crlf_from c (s @ t)"
  by (induction c s rule: crlf_from.induct) (auto intro: crlf_from_mono)

lemma crlf_ended_append: "crlf_ended s \<Longrightarrow> crlf_ended t \<Longrightarrow> crlf_ended (s @ t)"
  by (simp add: crlf_ended_def crlf_from_append)

lemma crlf_ended_concat: "(\<And>s. s \<in> set ss \<Longrightarrow> crlf_ended s) \<Longrightarrow> crlf_ended (concat ss)"
  by (induction ss) (auto simp: crlf_ended_append, simp add: crlf_ended_def)

lemma crlf_ended_Nil [simp]: "crlf_ended []" and crlf_ended_crlf [simp]: "crlf_ended [CR, LF]"
  by (simp_all add: crlf_ended_def)

lemma lf_to_crlf_ended: "crlf_from c (lf_to_crlf s)"
  by (induction s arbitrary: c) auto

lemma lf_to_crlf_head: "lf_to_crlf s = LF # t \<longleftrightarrow> False"
  by (cases s) auto

lemma crlf_to_lf_Cons_CR:
  "crlf_to_lf (CR # s) = (case s of d # cs \<Rightarrow> if d = LF then LF # crlf_to_lf cs else CR # crlf_to_lf s | [] \<Rightarrow> [CR])"
  by (cases s) auto

lemma crlf_to_lf_Cons: "c \<noteq> CR \<Longrightarrow> crlf_to_lf (c # s) = c # crlf_to_lf s"
  by (cases s) auto

text \<open>The two are inverse in one direction, whatever carriage returns the text has.\<close>

lemma crlf_to_lf_to_crlf [simp]: "crlf_to_lf (lf_to_crlf s) = s"
proof (induction s)
  case (Cons c s)
  show ?case
  proof (cases "c = CR")
    case True
    then show ?thesis using Cons
      by (cases "lf_to_crlf s") (auto simp: crlf_to_lf_Cons_CR lf_to_crlf_head)
  next
    case False
    then show ?thesis using Cons by (auto simp: crlf_to_lf_Cons)
  qed
qed simp

section \<open>Lines\<close>

fun split_inclusive :: "string \<Rightarrow> string list" where
  "split_inclusive [] = []"
| "split_inclusive (c # cs) =
     (if c = LF then [LF] # split_inclusive cs
      else (case split_inclusive cs of [] \<Rightarrow> [[c]] | l # ls \<Rightarrow> (c # l) # ls))"

definition strip_eol :: "string \<Rightarrow> string" where
  "strip_eol l =
     (if l \<noteq> [] \<and> last l = LF
      then (let b = butlast l in if b \<noteq> [] \<and> last b = CR then butlast b else b)
      else l)"

definition lines :: "string \<Rightarrow> string list" where
  "lines s = map strip_eol (split_inclusive s)"

lemma split_inclusive_line:
  "LF \<notin> set l \<Longrightarrow> split_inclusive (l @ LF # s) = (l @ [LF]) # split_inclusive s"
  by (induction l) auto

lemma strip_eol_line: "l = [] \<or> last l \<noteq> CR \<Longrightarrow> strip_eol (l @ [LF]) = l"
  by (auto simp: strip_eol_def)

text \<open>Lines that are printed, each with a line feed behind it, are read back.\<close>

lemma lines_unlines:
  "(\<And>l. l \<in> set ls \<Longrightarrow> LF \<notin> set l \<and> (l = [] \<or> last l \<noteq> CR)) \<Longrightarrow>
   lines (concat (map (\<lambda>l. l @ [LF]) ls)) = ls"
proof (induction ls)
  case (Cons l ls)
  then have "lines (concat (map (\<lambda>l. l @ [LF]) ls)) = ls" "LF \<notin> set l" "l = [] \<or> last l \<noteq> CR"
    by auto
  then show ?case by (simp add: lines_def split_inclusive_line strip_eol_line)
qed (simp add: lines_def)

lemma split_inclusive_no_LF:
  "l \<in> set (split_inclusive s) \<Longrightarrow> l \<noteq> [] \<and> LF \<notin> set (butlast l)"
  by (induction s arbitrary: l) (auto split: if_splits list.splits)

lemma lines_no_LF: "l \<in> set (lines s) \<Longrightarrow> LF \<notin> set l"
proof -
  assume "l \<in> set (lines s)"
  then obtain k where k: "k \<in> set (split_inclusive s)" "l = strip_eol k" by (auto simp: lines_def)
  from split_inclusive_no_LF [OF k(1)] have "k \<noteq> []" "LF \<notin> set (butlast k)" by simp_all
  moreover from this have "LF \<notin> set k \<or> last k = LF"
    by (metis Un_iff append_butlast_last_id empty_iff insert_iff list.set(1) list.set(2) set_append)
  ultimately show ?thesis
    unfolding k(2) strip_eol_def Let_def by (auto dest: in_set_butlastD)
qed

section \<open>Formatting\<close>

text \<open>Numbers in decimal.\<close>

fun show_nat :: "nat \<Rightarrow> string" where
  "show_nat n =
     (if n < 10 then [char_of (48 + n)] else show_nat (n div 10) @ [char_of (48 + n mod 10)])"

declare show_nat.simps [simp del]

text \<open>Padding counts characters: the bytes that do not continue a UTF-8 sequence.\<close>

definition char_count :: "string \<Rightarrow> nat" where
  "char_count s = length (filter (\<lambda>c. (of_char c :: nat) div 64 \<noteq> 2) s)"

definition pad_left :: "nat \<Rightarrow> string \<Rightarrow> string" where
  "pad_left w s = replicate (w - char_count s) (CHR '' '') @ s"

definition pad_right :: "nat \<Rightarrow> string \<Rightarrow> string" where
  "pad_right w s = s @ replicate (w - char_count s) (CHR '' '')"

text \<open>\<^verbatim>\<open>str::repeat\<close> panics when the result cannot be allocated.\<close>

definition repeat_str :: "string \<Rightarrow> nat \<Rightarrow> string res" where
  "repeat_str s n =
     (if 2 ^ 63 \<le> length s * n then Inl ExplicitPanic else Inr (concat (replicate n s)))"

text \<open>Unsigned arithmetic on \<^verbatim>\<open>usize\<close> values read as natural numbers.\<close>

definition mul_usize :: "bool \<Rightarrow> nat \<Rightarrow> nat \<Rightarrow> nat res" where
  "mul_usize ck a b =
     (if a * b < 2 ^ 64 then Inr (a * b) else if ck then Inl Overflow else Inr (a * b mod 2 ^ 64))"

definition sub_usize :: "bool \<Rightarrow> nat \<Rightarrow> nat \<Rightarrow> nat res" where
  "sub_usize ck a b =
     (if b \<le> a then Inr (a - b) else if ck then Inl Overflow else Inr ((2 ^ 64 + a - b) mod 2 ^ 64))"

lemma mul_usize_small [res_simps]: "a * b < 2 ^ 64 \<Longrightarrow> mul_usize ck a b = Inr (a * b)"
  by (simp add: mul_usize_def)

lemma sub_usize_small [res_simps]: "b \<le> a \<Longrightarrow> sub_usize ck a b = Inr (a - b)"
  by (simp add: sub_usize_def)

text \<open>What the digits mean.\<close>

definition digits_value :: "string \<Rightarrow> nat" where
  "digits_value s = foldl (\<lambda>v c. 10 * v + (of_char c - 48)) 0 s"

lemma show_nat_value: "digits_value (show_nat n) = n"
proof (induction n rule: show_nat.induct)
  case (1 n)
  then show ?case
    by (subst show_nat.simps) (auto simp: digits_value_def of_char_of take_bit_eq_mod)
qed

lemma show_nat_inject: "show_nat m = show_nat n \<longleftrightarrow> m = n"
  by (metis show_nat_value)

lemma show_nat_digits: "c \<in> set (show_nat n) \<Longrightarrow> \<exists>d < 10. c = char_of (48 + d :: nat)"
proof (induction n rule: show_nat.induct)
  case (1 n)
  show ?case
  proof (cases "n < 10")
    case True
    then show ?thesis using 1(2) by (auto simp: show_nat.simps [of n])
  next
    case False
    then have "c \<in> set (show_nat (n div 10)) \<or> c = char_of (48 + n mod 10)"
      using 1(2) by (auto simp: show_nat.simps [of n])
    moreover have "n mod 10 < 10" by simp
    ultimately show ?thesis using 1(1) [OF False] by blast
  qed
qed

section \<open>Bytes that need not be UTF-8\<close>

text \<open>One step of \<^verbatim>\<open>Utf8Chunks\<close>: whether the bytes start with a character, and how many bytes that
  character has or, when they do not, how many to skip. Behind the end the scanner reads 0.\<close>

definition byte_at :: "string \<Rightarrow> nat \<Rightarrow> nat" where
  "byte_at s i = (if i < length s then of_char (s ! i) else 0)"

definition continues :: "nat \<Rightarrow> bool" where
  "continues b \<longleftrightarrow> b div 64 = 2"

definition second_ok :: "nat \<Rightarrow> nat \<Rightarrow> bool" where
  "second_ok b c \<longleftrightarrow> continues c \<and> (b = 0xE0 \<longrightarrow> 0xA0 \<le> c) \<and> (b = 0xED \<longrightarrow> c \<le> 0x9F) \<and>
     (b = 0xF0 \<longrightarrow> 0x90 \<le> c) \<and> (b = 0xF4 \<longrightarrow> c \<le> 0x8F)"

definition scan_char :: "string \<Rightarrow> bool \<times> nat" where
  "scan_char s =
     (let b = byte_at s 0 in
      if b < 0x80 then (True, 1)
      else if 0xC2 \<le> b \<and> b \<le> 0xDF then
        (if continues (byte_at s 1) then (True, 2) else (False, 1))
      else if 0xE0 \<le> b \<and> b \<le> 0xEF then
        (if \<not> second_ok b (byte_at s 1) then (False, 1)
         else if continues (byte_at s 2) then (True, 3) else (False, 2))
      else if 0xF0 \<le> b \<and> b \<le> 0xF4 then
        (if \<not> second_ok b (byte_at s 1) then (False, 1)
         else if \<not> continues (byte_at s 2) then (False, 2)
         else if continues (byte_at s 3) then (True, 4) else (False, 3))
      else (False, 1))"

lemma scan_char_pos [simp]: "0 < snd (scan_char s)"
  by (simp add: scan_char_def Let_def)

definition replacement_character :: string where
  "replacement_character = [CHR 0xEF, CHR 0xBF, CHR 0xBD]"

function from_utf8_lossy :: "string \<Rightarrow> string" where
  "from_utf8_lossy s =
     (if s = [] then []
      else (case scan_char s of
          (ok, n) \<Rightarrow> (if ok then take n s else replacement_character) @ from_utf8_lossy (drop n s)))"
  by pat_completeness auto
termination
proof (relation "measure length", goal_cases)
  case (2 s ok n)
  then have "0 < n" using scan_char_pos [of s] by (metis snd_conv)
  with 2 show ?case by simp
qed simp

function utf8_valid :: "string \<Rightarrow> bool" where
  "utf8_valid s =
     (if s = [] then True
      else fst (scan_char s) \<and> utf8_valid (drop (snd (scan_char s)) s))"
  by pat_completeness auto
termination
  by (relation "measure length") (auto)

declare from_utf8_lossy.simps [simp del] utf8_valid.simps [simp del]

lemma byte_at_nonzero: "byte_at s i \<noteq> 0 \<Longrightarrow> i < length s"
  by (auto simp: byte_at_def split: if_splits)

text \<open>A character is recognised by its own bytes.\<close>

lemma scan_char_local:
  assumes "s \<noteq> []" "scan_char s = (True, n)"
  shows "n \<le> length s \<and> scan_char (take n s @ t) = (True, n)"
proof -
  have len: "n \<le> length s"
  proof -
    have "continues (byte_at s i) \<Longrightarrow> i < length s" for i
      by (rule byte_at_nonzero) (auto simp: continues_def)
    then have "continues (byte_at s 3) \<Longrightarrow> 4 \<le> length s" "continues (byte_at s 2) \<Longrightarrow> 3 \<le> length s"
      "continues (byte_at s 1) \<Longrightarrow> 2 \<le> length s" "1 \<le> length s"
      using assms(1) by (fastforce simp: Suc_le_eq)+
    then show ?thesis using assms(2)
      by (auto simp: scan_char_def Let_def second_ok_def split: if_splits)
  qed
  have "byte_at (take n s @ t) i = byte_at s i" if "i < n" for i
    using that len by (simp add: byte_at_def nth_append)
  then show ?thesis using assms(2) len
    by (auto simp: scan_char_def Let_def split: if_splits)
qed

lemma utf8_valid_append_char:
  assumes "scan_char (c @ t) = (True, length c)" "utf8_valid t"
  shows "utf8_valid (c @ t)"
  using assms by (subst utf8_valid.simps) simp

lemma replacement_character_scan: "scan_char (replacement_character @ t) = (True, 3)"
  by (simp add: scan_char_def replacement_character_def byte_at_def second_ok_def continues_def)

lemma from_utf8_lossy_valid: "utf8_valid (from_utf8_lossy s)"
proof (induction s rule: from_utf8_lossy.induct)
  case (1 s)
  show ?case
  proof (cases "s = []")
    case False
    obtain ok n where sc: "scan_char s = (ok, n)" by (cases "scan_char s")
    have IH: "utf8_valid (from_utf8_lossy (drop n s))" using 1 [OF False sc [symmetric]] by simp
    show ?thesis
    proof (cases ok)
      case True
      with sc scan_char_local [OF False] have "n \<le> length s"
        "scan_char (take n s @ from_utf8_lossy (drop n s)) = (True, n)" by simp_all
      then show ?thesis using utf8_valid_append_char [of "take n s"] IH True False sc
        by (simp add: from_utf8_lossy.simps [of s] min_def)
    next
      case notok: False
      have "scan_char (replacement_character @ from_utf8_lossy (drop n s)) =
          (True, length replacement_character)"
        by (simp add: replacement_character_scan) (simp add: replacement_character_def)
      from utf8_valid_append_char [OF this IH] show ?thesis using notok False sc
        by (simp add: from_utf8_lossy.simps [of s])
    qed
  qed (simp add: from_utf8_lossy.simps utf8_valid.simps)
qed

lemma from_utf8_lossy_id: "utf8_valid s \<Longrightarrow> from_utf8_lossy s = s"
proof (induction s rule: utf8_valid.induct)
  case (1 s)
  show ?case
  proof (cases "s = []")
    case False
    with 1(2) have "fst (scan_char s)" "utf8_valid (drop (snd (scan_char s)) s)"
      by (simp_all add: utf8_valid.simps [of s])
    with 1(1) [OF False] False show ?thesis
      by (cases "scan_char s") (simp add: from_utf8_lossy.simps [of s])
  qed (simp add: from_utf8_lossy.simps)
qed

lemma utf8_valid_ascii: "list_all (\<lambda>c. of_char c < (128 :: nat)) s \<Longrightarrow> utf8_valid s"
proof (induction s)
  case Nil
  then show ?case by (simp add: utf8_valid.simps)
next
  case (Cons c s)
  then have "scan_char (c # s) = (True, 1)" by (simp add: scan_char_def byte_at_def Let_def)
  then show ?case using Cons by (simp add: utf8_valid.simps [of "c # s"])
qed

end
