(* ===== verification/Terminal.thy ===== *)
theory Terminal
  imports Text
begin

text \<open>
  \<^verbatim>\<open>cli/src/main.rs\<close>, the parts every mode of the exercise runner shares: the exercises, running
  \<^verbatim>\<open>cargo test\<close>, printing in raw mode, and the rendering functions. A rendering function returns
  the text it prints, or the panic it raises; \<open>cargo\<close>, the \<^verbatim>\<open>cargo\<close> program, maps its arguments to
  what it did (\<open>None\<close>: it could not be started).
\<close>

section \<open>Colours and symbols\<close>

definition GREEN :: string where "GREEN = CHR 0x1B # ''[32m''"
definition RED :: string where "RED = CHR 0x1B # ''[31m''"
definition YELLOW :: string where "YELLOW = CHR 0x1B # ''[33m''"
definition BLUE :: string where "BLUE = CHR 0x1B # ''[34m''"
definition CYAN :: string where "CYAN = CHR 0x1B # ''[36m''"
definition BOLD :: string where "BOLD = CHR 0x1B # ''[1m''"
definition DIM :: string where "DIM = CHR 0x1B # ''[2m''"
definition RESET :: string where "RESET = CHR 0x1B # ''[0m''"

text \<open>The symbols of the messages, in UTF-8.\<close>

definition full_block :: string where "full_block = [CHR 0xE2, CHR 0x96, CHR 0x88]"
definition light_shade :: string where "light_shade = [CHR 0xE2, CHR 0x96, CHR 0x91]"
definition dash :: string where "dash = [CHR 0xE2, CHR 0x94, CHR 0x80]"
definition play :: string where "play = [CHR 0xE2, CHR 0x96, CHR 0xB6]"
definition page :: string where "page = [CHR 0xF0, CHR 0x9F, CHR 0x93, CHR 0x84]"
definition cross_mark :: string where "cross_mark = [CHR 0xE2, CHR 0x9D, CHR 0x8C]"
definition check_mark :: string where "check_mark = [CHR 0xE2, CHR 0x9C, CHR 0x85]"
definition antenna :: string where "antenna = [CHR 0xF0, CHR 0x9F, CHR 0x93, CHR 0xA1]"
definition bulb :: string where "bulb = [CHR 0xF0, CHR 0x9F, CHR 0x92, CHR 0xA1]"
definition party :: string where "party = [CHR 0xF0, CHR 0x9F, CHR 0x8E, CHR 0x89]"
definition hourglass :: string where "hourglass = [CHR 0xE2, CHR 0x8F, CHR 0xB3]"
definition right_arrow :: string where "right_arrow = [CHR 0xE2, CHR 0x9E, CHR 0xA1]"
definition muscle :: string where "muscle = [CHR 0xF0, CHR 0x9F, CHR 0x92, CHR 0xAA]"

definition dashes :: "nat \<Rightarrow> string" where
  "dashes n = concat (replicate n dash)"

section \<open>Exercises and their tests\<close>

record Exercise =
  name :: string
  package :: string
  path :: string
  module :: string
  description :: string
  hint :: string

record TestResult =
  passed :: bool
  test_output :: string

record Output =
  success :: bool
  stdout :: string
  stderr :: string

type_synonym cargo = "string list \<Rightarrow> Output option"

definition RISCV64_TARGET :: string where
  "RISCV64_TARGET = ''riscv64gc-unknown-linux-gnu''"

definition RISCV64_PACKAGES :: "string list" where
  "RISCV64_PACKAGES = [''stack_coroutine'', ''green_threads'']"

definition need_riscv64_target :: "string \<Rightarrow> bool" where
  "need_riscv64_target p \<longleftrightarrow> p \<in> set RISCV64_PACKAGES"

definition test_args :: "Exercise \<Rightarrow> string list" where
  "test_args ex =
     (let args = [''test'', ''-p'', package ex];
          args = (if need_riscv64_target (package ex) then args @ [''--target'', RISCV64_TARGET] else args)
      in if need_riscv64_target (package ex)
         then args @ [''--'', ''--color=always'', ''--nocapture'']
         else args @ [''--'', ''--color=always''])"

definition test_exercise :: "cargo \<Rightarrow> Exercise \<Rightarrow> TestResult res" where
  "test_exercise cargo ex =
     (case cargo (test_args ex) of
        None \<Rightarrow> Inl UnwrapNone
      | Some out \<Rightarrow>
          Inr \<lparr>passed = success out,
               test_output = from_utf8_lossy (stderr out) @ from_utf8_lossy (stdout out)\<rparr>)"

definition quiet_args :: "Exercise \<Rightarrow> string list" where
  "quiet_args ex =
     (let args = [''test'', ''-p'', package ex];
          args = (if need_riscv64_target (package ex) then args @ [''--target'', RISCV64_TARGET] else args);
          args = args @ [''--quiet'']
      in if need_riscv64_target (package ex) then args @ [''--'', ''--nocapture''] else args)"

definition test_quiet :: "cargo \<Rightarrow> Exercise \<Rightarrow> bool" where
  "test_quiet cargo ex =
     (case cargo (quiet_args ex) of None \<Rightarrow> False | Some out \<Rightarrow> success out)"

section \<open>Printing in raw mode\<close>

definition rprint :: "string \<Rightarrow> string" where
  "rprint s = lf_to_crlf (crlf_to_lf s)"

definition rprintln :: "string \<Rightarrow> string" where
  "rprintln s = rprint s @ [CR, LF]"

section \<open>Rendering\<close>

definition progress_bar :: "bool \<Rightarrow> nat \<Rightarrow> nat \<Rightarrow> nat \<Rightarrow> string res" where
  "progress_bar ck d tot width =
     bind_res (if 0 < tot then bind_res (mul_usize ck d width) (\<lambda>x. Inr (x div tot)) else Inr 0) (\<lambda>filled.
     bind_res (sub_usize ck width filled) (\<lambda>empty.
     bind_res (if 0 < tot then bind_res (mul_usize ck d 100) (\<lambda>x. Inr (x div tot)) else Inr 0) (\<lambda>pct.
     bind_res (repeat_str full_block filled) (\<lambda>full.
     bind_res (repeat_str light_shade empty) (\<lambda>shade.
       Inr (GREEN @ full @ shade @ ''  '' @ show_nat d @ ''/'' @ show_nat tot @ '' ('' @
            show_nat pct @ ''%)'' @ RESET))))))"

definition render_header :: "bool \<Rightarrow> Exercise list \<Rightarrow> nat \<Rightarrow> nat \<Rightarrow> string res" where
  "render_header ck exs current d =
     (let total = length exs in
      bind_res (vec_get exs current) (\<lambda>ex.
      bind_res (progress_bar ck d total 20) (\<lambda>bar.
        Inr (rprintln (BOLD @ BLUE @ dashes 3 @ '' OS Camp '' @ dashes 3 @
               '' Rust & OS Advanced Experiments '' @ dashes 3 @ RESET) @
             rprintln (''  Progress: '' @ bar) @
             rprintln [] @
             rprintln (''  '' @ BOLD @ play @ '' Exercise '' @ show_nat (current + 1) @ ''/'' @
               show_nat total @ '': '' @ name ex @ RESET) @
             rprintln (''    '' @ DIM @ ''Module:'' @ RESET @ '' '' @ module ex) @
             rprintln (''    '' @ CYAN @ description ex @ RESET) @
             rprintln (''    '' @ DIM @ page @ '' '' @ path ex @ RESET)))))"

definition render_failure :: "TestResult \<Rightarrow> string" where
  "render_failure r =
     (let ls = lines (test_output r); max_lines = 30; start = length ls - max_lines in
      rprintln ([LF] @ ''  '' @ BOLD @ RED @ cross_mark @ '' Test failed'' @ RESET @ [LF]) @
      (if 0 < start
       then rprintln (''  '' @ DIM @ ''... omitted '' @ show_nat start @ '' lines ...'' @ RESET)
       else []) @
      concat (map (\<lambda>line. rprintln (''  '' @ line)) (drop start ls)))"

definition render_controls :: string where
  "render_controls =
     rprintln [] @
     rprintln (DIM @ ''  '' @ dashes 41 @ RESET) @
     rprintln (''  '' @ BOLD @ ''h'' @ RESET @ '' hint  '' @ BOLD @ ''l'' @ RESET @ '' list  '' @
       BOLD @ ''n'' @ RESET @ ''/'' @ BOLD @ ''p'' @ RESET @ '' prev/next  '' @
       BOLD @ ''r'' @ RESET @ '' retest  '' @ BOLD @ ''q'' @ RESET @ '' quit'') @
     rprintln (''  '' @ DIM @ antenna @
       '' Watching for file changes, automatically retests after saving'' @ RESET)"

definition render_hint :: "Exercise \<Rightarrow> string" where
  "render_hint ex =
     rprintln ([LF] @ ''  '' @ BOLD @ YELLOW @ bulb @ '' Hint:'' @ RESET) @
     concat (map (\<lambda>line. rprintln (''  '' @ YELLOW @ line @ RESET)) (lines (hint ex)))"

text \<open>The loop of \<^verbatim>\<open>render_list\<close>, from exercise \<open>i\<close> on with the module printed last.\<close>

fun list_items :: "nat \<Rightarrow> bool list \<Rightarrow> nat \<Rightarrow> string \<Rightarrow> Exercise list \<Rightarrow> string res" where
  "list_items current dn i cur_module [] = Inr []"
| "list_items current dn i cur_module (ex # exs) =
     (let heading =
            (if module ex \<noteq> cur_module
             then rprintln (''  '' @ YELLOW @ ''['' @ module ex @ '']'' @ RESET) else []);
          marker = (if i = current then play else '' '')
      in bind_res (vec_get dn i) (\<lambda>d.
         let status = (if d then GREEN @ check_mark @ RESET else RED @ ''  '' @ RESET) in
         bind_res (list_items current dn (Suc i) (module ex) exs) (\<lambda>rest.
           Inr (heading @
                rprintln (''  '' @ marker @ '' '' @ status @ '' '' @ pad_left 2 (show_nat (i + 1)) @
                  ''. '' @ pad_right 22 (name ex) @ '' ('' @ DIM @ package ex @ RESET @ '')'') @
                rest))))"

definition render_list :: "Exercise list \<Rightarrow> nat \<Rightarrow> bool list \<Rightarrow> string res" where
  "render_list exs current dn =
     bind_res (list_items current dn 0 [] exs) (\<lambda>items.
       Inr (rprintln ([LF] @ ''  '' @ BOLD @ BLUE @ ''Exercise list:'' @ RESET @ [LF]) @ items))"

text \<open>What the program does to its terminal, and how long it sleeps (in milliseconds).\<close>

datatype action =
    Print string
  | Eprint string
  | Clear_screen
  | Raw_mode bool
  | Sleep nat

definition full_redraw ::
  "bool \<Rightarrow> Exercise list \<Rightarrow> nat \<Rightarrow> nat \<Rightarrow> TestResult option \<Rightarrow> bool \<Rightarrow> bool \<Rightarrow> bool list \<Rightarrow> action list res"
where
  "full_redraw ck exs current done_n result show_hint show_list dn =
     bind_res
       (if show_list then
          bind_res (render_header ck exs current done_n) (\<lambda>header.
          bind_res (render_list exs current dn) (\<lambda>items. Inr [Print header, Print items]))
        else
          bind_res (render_header ck exs current done_n) (\<lambda>header.
          bind_res
            (if show_hint then bind_res (vec_get exs current) (\<lambda>ex. Inr [Print (render_hint ex)])
             else Inr [])
            (\<lambda>hint_text.
             Inr ([Print header] @
                  (case result of
                     None \<Rightarrow> []
                   | Some r \<Rightarrow>
                       if passed r
                       then [Print (rprintln ([LF] @ ''  '' @ BOLD @ GREEN @ check_mark @
                               '' Test passed!'' @ RESET))]
                       else [Print (render_failure r)]) @
                  hint_text))))
       (\<lambda>body. Inr ([Clear_screen] @ body @ [Print render_controls]))"

section \<open>Raw mode output\<close>

lemma rprint_ended [intro!, simp]: "crlf_ended (rprint s)"
  by (simp add: rprint_def crlf_ended_def lf_to_crlf_ended)

lemma rprintln_ended [intro!, simp]: "crlf_ended (rprintln s)"
  by (simp add: rprintln_def crlf_ended_append)

lemma rprintln_append_ended [intro!, simp]: "crlf_ended s \<Longrightarrow> crlf_ended (rprintln l @ s)"
  by (simp add: crlf_ended_append)

text \<open>What \<^verbatim>\<open>rprint\<close> sends has a carriage return directly before every line feed, is the same text
  up to its line ends, and text already sent through it goes through unchanged.\<close>

theorem rprint_raw:
  "crlf_ended (rprint s) \<and> crlf_to_lf (rprint s) = crlf_to_lf s \<and> rprint (rprint s) = rprint s"
  by (simp add: rprint_def crlf_ended_def lf_to_crlf_ended)

text \<open>Lines printed are read back as they were.\<close>

lemma crlf_to_lf_no_LF: "LF \<notin> set s \<Longrightarrow> crlf_to_lf s = s"
  by (induction s rule: crlf_to_lf.induct) auto

lemma lf_to_crlf_no_LF: "LF \<notin> set s \<Longrightarrow> lf_to_crlf s = s"
  by (induction s) auto

lemma rprint_no_LF: "LF \<notin> set s \<Longrightarrow> rprint s = s"
  by (simp add: rprint_def crlf_to_lf_no_LF lf_to_crlf_no_LF)

lemma lines_line: "LF \<notin> set l \<Longrightarrow> lines (l @ [CR, LF] @ s) = l # lines s"
  using split_inclusive_line [of "l @ [CR]" s] by (simp add: lines_def strip_eol_def butlast_append)

lemma lines_rprintln [simp]: "LF \<notin> set l \<Longrightarrow> lines (rprintln l @ s) = l # lines s"
  using lines_line [of l s] by (simp add: rprintln_def rprint_no_LF)

lemma lines_Nil: "lines [] = []"
  by (simp add: lines_def)

lemma lines_rprintln_map:
  "(\<And>l. l \<in> set ls \<Longrightarrow> LF \<notin> set (f l)) \<Longrightarrow>
   lines (concat (map (\<lambda>l. rprintln (f l)) ls) @ s) = map f ls @ lines s"
  by (induction ls) auto

lemma crlf_to_lf_append_LF:
  "s = [] \<or> last s \<noteq> CR \<Longrightarrow> crlf_to_lf (s @ LF # t) = crlf_to_lf s @ LF # crlf_to_lf t"
proof (induction s rule: crlf_to_lf.induct)
  case (1 c d cs)
  show ?case
  proof (cases "c = CR \<and> d = LF")
    case True
    then have "cs = [] \<or> last cs \<noteq> CR" using 1(3) by auto
    then show ?thesis using True 1(1) by simp
  next
    case False
    then show ?thesis using 1(2,3) by auto
  qed
qed (auto simp: crlf_to_lf_Cons)

text \<open>The framed messages \<^verbatim>\<open>"\n...\n"\<close>.\<close>

lemma lines_framed:
  assumes "LF \<notin> set l" "l \<noteq> []" "last l \<noteq> CR"
  shows "lines (rprintln ([LF] @ l @ [LF]) @ s) = [] # l # [] # lines s"
proof -
  have "crlf_to_lf ([LF] @ l @ [LF]) = LF # l @ [LF]"
    using assms crlf_to_lf_append_LF [of l "[]"] by (simp add: crlf_to_lf_Cons crlf_to_lf_no_LF)
  moreover have "lf_to_crlf (l @ [LF]) = l @ [CR, LF]" using assms(1) by (induction l) auto
  ultimately have "rprintln ([LF] @ l @ [LF]) = [] @ [CR, LF] @ l @ [CR, LF] @ [] @ [CR, LF]"
    by (simp add: rprintln_def rprint_def)
  then show ?thesis using assms(1) by (simp only: append_assoc lines_line list.set empty_iff)
    (simp add: lines_line [simplified] lines_line [of "[]", simplified])
qed

lemma of_char_Char_LF: "of_char LF = (10 :: nat)"
  by simp

lemma no_LF_show_nat [simp]: "LF \<notin> set (show_nat n)"
proof
  assume "LF \<in> set (show_nat n)"
  then obtain d where "d < 10" "LF = char_of (48 + d :: nat)" using show_nat_digits by blast
  then have "(10 :: nat) = (48 + d) mod 256" by (metis of_char_of of_char_Char_LF)
  then show False using \<open>d < 10\<close> by simp
qed

lemmas colours = GREEN_def RED_def YELLOW_def BLUE_def CYAN_def BOLD_def DIM_def RESET_def

text \<open>After a failed test the runner shows the last 30 lines of its output, or all lines when there
  are fewer, each indented by two blanks and otherwise as they were; above them it says how many
  lines it has left out, when it has left out any.\<close>

theorem render_failure_tail:
  "lines (render_failure r) =
     [[], ''  '' @ BOLD @ RED @ cross_mark @ '' Test failed'' @ RESET, []] @
     (if 30 < length (lines (test_output r))
      then [''  '' @ DIM @ ''... omitted '' @ show_nat (length (lines (test_output r)) - 30) @ '' lines ...'' @ RESET]
      else []) @
     map (\<lambda>l. ''  '' @ l) (drop (length (lines (test_output r)) - 30) (lines (test_output r)))"
proof -
  let ?m = "''  '' @ BOLD @ RED @ cross_mark @ '' Test failed'' @ RESET"
  let ?ls = "lines (test_output r)"
  have body: "lines (concat (map (\<lambda>line. rprintln (''  '' @ line)) (drop (length ?ls - 30) ?ls))) =
      map (\<lambda>l. ''  '' @ l) (drop (length ?ls - 30) ?ls)"
  proof -
    have "LF \<notin> set (''  '' @ l)" if "l \<in> set (drop (length ?ls - 30) ?ls)" for l
      using that by (auto dest!: in_set_dropD lines_no_LF)
    from lines_rprintln_map [OF this, of _ _ "[]"] show ?thesis by (simp add: lines_Nil)
  qed
  have m: "LF \<notin> set ?m" "?m \<noteq> []" "last ?m \<noteq> CR"
    by (simp_all add: colours cross_mark_def)
  have o: "LF \<notin> set (''  '' @ DIM @ ''... omitted '' @ show_nat k @ '' lines ...'' @ RESET)" for k
    by (simp add: colours)
  have "lines (render_failure r) = [] # ?m # [] # lines
      ((if 30 < length ?ls then rprintln (''  '' @ DIM @ ''... omitted '' @ show_nat (length ?ls - 30) @ '' lines ...'' @ RESET) else []) @
       concat (map (\<lambda>line. rprintln (''  '' @ line)) (drop (length ?ls - 30) ?ls)))"
    unfolding render_failure_def Let_def using lines_framed [OF m] by (simp only: append_assoc zero_less_diff)
  then show ?thesis using lines_rprintln [OF o] body by (simp split: if_splits)
qed

section \<open>The progress bar\<close>

lemma repeat_block:
  "3 * n < 2 ^ 63 \<Longrightarrow> repeat_str full_block n = Inr (concat (replicate n full_block))"
  "3 * n < 2 ^ 63 \<Longrightarrow> repeat_str light_shade n = Inr (concat (replicate n light_shade))"
  by (simp_all only: repeat_str_def full_block_def light_shade_def list.size numeral_3_eq_3 [symmetric]
      add_0 add_Suc_right add_0_right One_nat_def not_le [symmetric] if_False)

lemma share_of_width:
  assumes "d \<le> tot" "0 < (tot :: nat)"
  shows "d * w div tot \<le> w" and "0 < w \<Longrightarrow> d * w div tot = w \<longleftrightarrow> d = tot"
proof -
  have "d * w div tot < w" if "d < tot" "0 < w"
    using that by (simp add: less_mult_imp_div_less mult.commute)
  then show "d * w div tot \<le> w" "0 < w \<Longrightarrow> d * w div tot = w \<longleftrightarrow> d = tot"
    using assms by (cases "d = tot"; cases "w = 0"; force)+
qed

text \<open>For \<open>d\<close> of \<open>tot\<close> exercises the bar has exactly \<open>width\<close> cells, no arithmetic goes wrong, and
  the last cell is filled, and 100 per cent shown, exactly when all exercises are done.\<close>

theorem progress_bar_cells:
  assumes "d \<le> tot" "0 < tot" "0 < width" "tot * width < 2 ^ 64" "tot * 100 < 2 ^ 64" "3 * width < 2 ^ 63"
  shows "\<exists>f p. progress_bar ck d tot width = Inr
      (GREEN @ concat (replicate f full_block) @ concat (replicate (width - f) light_shade) @ ''  '' @
       show_nat d @ ''/'' @ show_nat tot @ '' ('' @ show_nat p @ ''%)'' @ RESET) \<and>
    f \<le> width \<and> (f = width \<longleftrightarrow> d = tot) \<and> p \<le> 100 \<and> (p = 100 \<longleftrightarrow> d = tot)"
proof -
  have "d * width < 2 ^ 64" "d * 100 < 2 ^ 64"
    using assms(1,4,5) by (meson le_less_trans mult_le_mono1)+
  note muls = this [THEN mul_usize_small]
  have "3 * (d * width div tot) < 2 ^ 63" "3 * (width - d * width div tot) < 2 ^ 63"
    using share_of_width(1) [OF assms(1,2), of width] assms(6) by linarith+
  note reps = this(1) [THEN repeat_block(1)] this(2) [THEN repeat_block(2)]
  show ?thesis
    unfolding progress_bar_def
    by (rule exI [of _ "d * width div tot"], rule exI [of _ "d * 100 div tot"])
      (simp only: assms(2) if_True muls bind_res_simps sub_usize_small [OF share_of_width(1) [OF assms(1,2)]]
        reps share_of_width assms(1,3) simp_thms)
qed

theorem progress_bar_cells_witness:
  "\<exists>f p. progress_bar True 3 24 20 = Inr
      (GREEN @ concat (replicate f full_block) @ concat (replicate (20 - f) light_shade) @ ''  '' @
       show_nat 3 @ ''/'' @ show_nat 24 @ '' ('' @ show_nat p @ ''%)'' @ RESET) \<and> f < 20 \<and> p < 100"
proof -
  have "(3 :: nat) \<le> 24" "(0 :: nat) < 24" "(0 :: nat) < 20" "24 * 20 < (2 :: nat) ^ 64"
    "24 * 100 < (2 :: nat) ^ 64" "3 * 20 < (2 :: nat) ^ 63"
    by simp_all
  from progress_bar_cells [OF this, of True] show ?thesis by (metis le_neq_implies_less numeral_eq_iff num.distinct(1) num.distinct(5) num.inject(2))
qed

lemma progress_bar_header:
  assumes "d \<le> tot" "0 < tot" "tot < 2 ^ 56"
  shows "\<exists>bar. progress_bar ck d tot 20 = Inr bar"
proof -
  have "tot * 20 < 2 ^ 64" "tot * 100 < 2 ^ 64" using assms(3) by simp_all
  then have "d * 20 < 2 ^ 64" "d * 100 < 2 ^ 64" using assms(1) by simp_all
  note muls = this [THEN mul_usize_small]
  have "3 * (d * 20 div tot) < 2 ^ 63" "3 * (20 - d * 20 div tot) < 2 ^ 63"
    using share_of_width(1) [OF assms(1,2), of 20] by simp_all
  note reps = this(1) [THEN repeat_block(1)] this(2) [THEN repeat_block(2)]
  show ?thesis
    unfolding progress_bar_def
    by (simp only: assms(2) if_True muls bind_res_simps reps
        sub_usize_small [OF share_of_width(1) [OF assms(1,2)]]) blast
qed

section \<open>Rendering does not panic and respects raw mode\<close>

lemma concat_rprintln_ended [intro!, simp]: "crlf_ended (concat (map (\<lambda>l. rprintln (f l)) ls))"
  by (auto intro: crlf_ended_concat)

lemma render_header_ok:
  assumes "current < length exs" "d \<le> length exs" "length exs < 2 ^ 56"
  shows "\<exists>h. render_header ck exs current d = Inr h \<and> crlf_ended h"
proof -
  obtain bar where "progress_bar ck d (length exs) 20 = Inr bar"
    using progress_bar_header [OF assms(2) _ assms(3)] assms(1) by (metis length_greater_0_conv list.size(3) not_less_zero)
  then show ?thesis using assms(1) by (simp add: render_header_def Let_def)
qed

lemma render_failure_ended [simp]: "crlf_ended (render_failure r)"
  by (auto simp: render_failure_def Let_def)

lemma render_controls_ended [simp]: "crlf_ended render_controls"
  by (simp add: render_controls_def)

lemma render_hint_ended [simp]: "crlf_ended (render_hint ex)"
  by (simp add: render_hint_def)

lemma list_items_ok:
  "i + length exs \<le> length dn \<Longrightarrow> \<exists>t. list_items current dn i m exs = Inr t \<and> crlf_ended t"
proof (induction exs arbitrary: i m)
  case (Cons ex exs)
  then obtain t where "list_items current dn (Suc i) (module ex) exs = Inr t" "crlf_ended t"
    by (metis add_Suc_shift list.size(4) One_nat_def add.right_neutral add_Suc_right)
  moreover have "i < length dn" using Cons.prems by simp
  ultimately show ?case by (auto simp: Let_def)
qed simp

lemma render_list_ok:
  assumes "length dn = length exs"
  shows "\<exists>t. render_list exs current dn = Inr t \<and> crlf_ended t"
proof -
  obtain t where "list_items current dn 0 [] exs = Inr t" "crlf_ended t"
    using list_items_ok [of 0 exs dn current "[]"] assms by auto
  then show ?thesis by (auto simp: render_list_def)
qed

text \<open>An action allowed while the terminal is in raw mode, and staying in it.\<close>

fun raw_ok :: "action \<Rightarrow> bool" where
  "raw_ok (Print s) = crlf_ended s"
| "raw_ok (Eprint s) = crlf_ended s"
| "raw_ok (Raw_mode b) = False"
| "raw_ok a = True"

lemma full_redraw_ok:
  assumes "current < length exs" "d \<le> length exs" "length exs < 2 ^ 56" "length dn = length exs"
  shows "\<exists>acts. full_redraw ck exs current d r h l dn = Inr acts \<and> list_all raw_ok acts"
proof -
  obtain hd where "render_header ck exs current d = Inr hd" "crlf_ended hd"
    using render_header_ok [OF assms(1-3)] by blast
  moreover obtain t where "render_list exs current dn = Inr t" "crlf_ended t"
    using render_list_ok [OF assms(4)] by blast
  ultimately show ?thesis using assms(1) by (auto simp: full_redraw_def split: option.split)
qed

end
