(* ===== verification/WatchMode.thy ===== *)
theory WatchMode
  imports Terminal
begin

text \<open>
  \<^verbatim>\<open>cli/src/main.rs\<close>, \<^verbatim>\<open>watch_mode\<close>: the initial scan, then a loop that tests the current exercise,
  jumps to the next one when it passes, and reacts to keys and to changed files. One turn of the loop is
  a function of the state and of what the world does in that turn: what \<^verbatim>\<open>cargo\<close> answers, what polling
  and reading an event gives, how many change messages the file watcher has sent, and whether the
  terminal can be taken out of raw mode. All of these may fail, and every failure that the code unwraps
  is a panic; what has been sent to the terminal before a panic is kept. Printing is taken to succeed.
\<close>

section \<open>Computations that print\<close>

text \<open>What has been done to the terminal so far, and a result or a panic.\<close>

type_synonym 'a session = "action list \<times> 'a res"

definition bind_out :: "'a session \<Rightarrow> ('a \<Rightarrow> 'b session) \<Rightarrow> 'b session" where
  "bind_out m f =
     (case m of
        (acts, Inl e) \<Rightarrow> (acts, Inl e)
      | (acts, Inr x) \<Rightarrow> (case f x of (acts', r) \<Rightarrow> (acts @ acts', r)))"

definition silent :: "'a res \<Rightarrow> 'a session" where
  "silent r = ([], r)"

lemma bind_out_simps [simp]:
  "bind_out (acts, Inl e) f = (acts, Inl e)"
  "bind_out (acts, Inr x) f = (acts @ fst (f x), snd (f x))"
  "bind_out (silent (Inl e)) f = ([], Inl e)"
  "bind_out (silent (Inr x)) f = f x"
  by (simp_all add: bind_out_def silent_def split: prod.split)

lemma bind_out_Inr_iff:
  "bind_out m f = (acts, Inr y) \<longleftrightarrow>
     (\<exists>acts1 x acts2. m = (acts1, Inr x) \<and> f x = (acts2, Inr y) \<and> acts = acts1 @ acts2)"
  by (auto simp: bind_out_def split: prod.splits sum.splits)

lemma bind_out_cong [fundef_cong]:
  "m = m' \<Longrightarrow> (\<And>acts x. m' = (acts, Inr x) \<Longrightarrow> f x = g x) \<Longrightarrow> bind_out m f = bind_out m' g"
  by (auto simp: bind_out_def split: prod.split sum.split)

section \<open>The loop\<close>

definition count_done :: "bool list \<Rightarrow> nat" where
  "count_done dn = length (filter (\<lambda>d. d) dn)"

definition find_next_incomplete :: "bool list \<Rightarrow> nat \<Rightarrow> nat option" where
  "find_next_incomplete dn cur =
     (let n = length dn in
      map_option (\<lambda>i. (cur + i) mod n)
        (List.find (\<lambda>i. \<not> dn ! ((cur + i) mod n)) [1..<n + 1]))"

datatype key_code = Char char | Esc | Enter | Other_key

record key_event =
  code :: key_code
  control :: bool

datatype event = Key key_event | Other_event

definition quits :: "key_event \<Rightarrow> bool" where
  "quits k \<longleftrightarrow> code k = Char (CHR ''q'') \<or> code k = Esc \<or> (code k = Char (CHR ''c'') \<and> control k)"

text \<open>\<open>Waiting\<close> is the loop of \<^verbatim>\<open>wait_for_quit\<close>, \<open>Left\<close> the end of the program.\<close>

datatype phase = Looping | Waiting | Left

record watch =
  phase :: phase
  current :: nat
  done_flags :: "bool list"
  needs_retest :: bool
  last_result :: "TestResult option"
  show_hint :: bool
  show_list :: bool
  changes :: nat

text \<open>What the world does in one turn: \<open>polls\<close> and \<open>reads\<close> are the results of \<^verbatim>\<open>event::poll\<close> and
  \<^verbatim>\<open>event::read\<close>, \<open>restores\<close> is whether \<^verbatim>\<open>disable_raw_mode\<close> succeeds.\<close>

record turn =
  cargo :: cargo
  polls :: "bool option"
  reads :: "event option"
  messages :: nat
  restores :: bool

text \<open>How a test goes on: with the next turn (\<^verbatim>\<open>continue\<close>), to \<^verbatim>\<open>wait_for_quit\<close>, or to the events.\<close>

datatype after_test = Next_turn | All_passed | Poll_events

text \<open>What is on the screen while \<^verbatim>\<open>cargo\<close> runs.\<close>

definition testing_screen :: "bool \<Rightarrow> Exercise list \<Rightarrow> watch \<Rightarrow> unit session" where
  "testing_screen ck exs w =
     bind_out ([Clear_screen], Inr ()) (\<lambda>_.
     bind_out (silent (render_header ck exs (current w) (count_done (done_flags w)))) (\<lambda>header.
     bind_out ([Print header, Print (rprintln [])], Inr ()) (\<lambda>_.
     bind_out (silent (vec_get exs (current w))) (\<lambda>ex.
       ([Print (rprintln (''  '' @ YELLOW @ hourglass @ '' Testing '' @ package ex @ ''...'' @ RESET))], Inr ())))))"

text \<open>The announcement that all of \<open>n\<close> exercises have passed.\<close>

definition congratulation :: "nat \<Rightarrow> string" where
  "congratulation n = ''  '' @ BOLD @ GREEN @ party @ '' Congratulations! All '' @ show_nat n @ '' exercises passed!'' @ RESET"

definition retest ::
  "bool \<Rightarrow> Exercise list \<Rightarrow> cargo \<Rightarrow> watch \<Rightarrow> (after_test \<times> watch) session"
where
  "retest ck exs run w =
     (let w = w\<lparr>show_hint := False, show_list := False\<rparr>; c = current w in
      bind_out (testing_screen ck exs w) (\<lambda>_.
      bind_out (silent (vec_get exs c)) (\<lambda>ex.
      bind_out (silent (test_exercise run ex)) (\<lambda>result.
      bind_out ([Clear_screen], Inr ()) (\<lambda>_.
      if passed result then
        bind_out (silent (vec_set (done_flags w) c True)) (\<lambda>dn.
        bind_out (silent (render_header ck exs c (count_done dn))) (\<lambda>header.
        bind_out
          ([Print header,
            Print (rprintln ([LF] @ ''  '' @ BOLD @ GREEN @ check_mark @ '' Exercise '' @ [CHR 0x27] @
              name ex @ [CHR 0x27] @ '' passed!'' @ RESET))], Inr ()) (\<lambda>_.
        case find_next_incomplete dn c of
          Some nxt \<Rightarrow>
            bind_out (silent (vec_get exs nxt)) (\<lambda>next_ex.
              ([Print (rprintln ([LF] @ ''  '' @ right_arrow @ ''  Auto-jump: '' @ CYAN @ name next_ex @ RESET)),
                Sleep 800],
               Inr (Next_turn,
                 w\<lparr>done_flags := dn, current := nxt, last_result := Some result, needs_retest := True\<rparr>)))
        | None \<Rightarrow>
            ([Print (rprintln []),
              Print (rprintln (congratulation (length exs))),
              Print (rprintln ([LF] @ ''  Press '' @ BOLD @ ''q'' @ RESET @ '' to quit''))],
             Inr (All_passed, w\<lparr>done_flags := dn\<rparr>)))))
      else
        bind_out (silent (render_header ck exs c (count_done (done_flags w)))) (\<lambda>header.
          ([Print header, Print (render_failure result), Print render_controls],
           Inr (Poll_events, w\<lparr>last_result := Some result, needs_retest := False\<rparr>))))))))"

text \<open>A key press; the flag says that the loop is left.\<close>

definition handle_key ::
  "bool \<Rightarrow> Exercise list \<Rightarrow> key_event \<Rightarrow> watch \<Rightarrow> (bool \<times> watch) session"
where
  "handle_key ck exs k w =
     (let total_n = length exs; redraw =
            (\<lambda>w listed. case full_redraw ck exs (current w) (count_done (done_flags w)) (last_result w)
                  (show_hint w) listed (done_flags w) of
               Inl e \<Rightarrow> silent (Inl e) | Inr acts \<Rightarrow> (acts, Inr (False, w)))
      in
      if code k = Char (CHR ''q'') \<or> code k = Esc then silent (Inr (True, w))
      else if code k = Char (CHR ''c'') \<and> control k then silent (Inr (True, w))
      else if code k = Char (CHR ''h'') then
        redraw (w\<lparr>show_hint := \<not> show_hint w\<rparr>) False
      else if code k = Char (CHR ''l'') then
        (let w = w\<lparr>show_list := \<not> show_list w\<rparr> in redraw w (show_list w))
      else if code k = Char (CHR ''n'') then
        silent (if total_n = 0 then Inl DivByZero
          else Inr (False, w\<lparr>current := (current w + 1) mod total_n, needs_retest := True\<rparr>))
      else if code k = Char (CHR ''p'') then
        silent (bind_res (if 0 < current w then Inr (current w - 1) else sub_usize ck total_n 1) (\<lambda>c.
          Inr (False, w\<lparr>current := c, needs_retest := True\<rparr>)))
      else if code k = Char (CHR ''r'') \<or> code k = Enter then
        silent (Inr (False, w\<lparr>needs_retest := True\<rparr>))
      else silent (Inr (False, w)))"

text \<open>\<^verbatim>\<open>event::poll\<close> and, when it says that there is an event, \<^verbatim>\<open>event::read\<close>; both are unwrapped.\<close>

definition poll_event :: "turn \<Rightarrow> event option res" where
  "poll_event t =
     bind_res (unwrap (polls t)) (\<lambda>ready.
       if ready then bind_res (unwrap (reads t)) (\<lambda>e. Inr (Some e)) else Inr None)"

definition handle_event ::
  "bool \<Rightarrow> Exercise list \<Rightarrow> turn \<Rightarrow> watch \<Rightarrow> (bool \<times> watch) session"
where
  "handle_event ck exs t w =
     bind_out (silent (poll_event t)) (\<lambda>e.
       case e of Some (Key k) \<Rightarrow> handle_key ck exs k w | _ \<Rightarrow> silent (Inr (False, w)))"

text \<open>All messages are taken from the channel, also those that come while it sleeps.\<close>

definition poll_changes :: "watch \<Rightarrow> watch \<times> action list" where
  "poll_changes w =
     (if 0 < changes w then (w\<lparr>changes := 0, needs_retest := True\<rparr>, [Sleep 300]) else (w, []))"

definition goodbye :: "turn \<Rightarrow> watch \<Rightarrow> watch session" where
  "goodbye t w =
     (if restores t
      then ([Raw_mode False, Clear_screen, Print (''Goodbye! Keep up the good work '' @ muscle @ [LF])],
            Inr (w\<lparr>phase := Left\<rparr>))
      else silent (Inl UnwrapNone))"

text \<open>A round of the loop of \<^verbatim>\<open>wait_for_quit\<close>: whether it returns.\<close>

definition wait_for_quit :: "turn \<Rightarrow> bool res" where
  "wait_for_quit t =
     bind_res (poll_event t) (\<lambda>e. Inr (case e of Some (Key k) \<Rightarrow> quits k | _ \<Rightarrow> False))"

definition watch_turn :: "bool \<Rightarrow> Exercise list \<Rightarrow> turn \<Rightarrow> watch \<Rightarrow> watch session" where
  "watch_turn ck exs t w =
     (let w = w\<lparr>changes := changes w + messages t\<rparr> in
      case phase w of
        Left \<Rightarrow> silent (Inr w)
      | Waiting \<Rightarrow>
          bind_out (silent (wait_for_quit t)) (\<lambda>quit. if quit then goodbye t w else silent (Inr w))
      | Looping \<Rightarrow>
          bind_out (if needs_retest w then retest ck exs (cargo t) w else silent (Inr (Poll_events, w)))
            (\<lambda>(after, w1).
             case after of
               Next_turn \<Rightarrow> silent (Inr w1)
             | All_passed \<Rightarrow> silent (Inr (w1\<lparr>phase := Waiting\<rparr>))
             | Poll_events \<Rightarrow>
                 bind_out (handle_event ck exs t w1) (\<lambda>(leave, w2).
                   if leave then goodbye t w2
                   else (case poll_changes w2 of (w3, acts) \<Rightarrow> (acts, Inr w3)))))"

section \<open>The scan and the session\<close>

text \<open>The scan: \<open>run i\<close> is what \<^verbatim>\<open>cargo\<close> answers for exercise \<open>i\<close>.\<close>

fun scan ::
  "(nat \<Rightarrow> cargo) \<Rightarrow> nat \<Rightarrow> nat \<Rightarrow> Exercise list \<Rightarrow> bool list \<Rightarrow> nat \<Rightarrow>
   bool list \<times> nat \<times> action list"
where
  "scan run total_n i [] dn cur = (dn, cur, [])"
| "scan run total_n i (ex # exs) dn cur =
     (let line = Print (''  ['' @ pad_left 2 (show_nat (i + 1)) @ ''/'' @ show_nat total_n @
            ''] Checking '' @ pad_right 25 (package ex) @ [CR]);
          (dn', cur') =
            (if test_quiet (run i) ex then (dn[i := True], cur)
             else if cur = total_n then (dn, i) else (dn, cur));
          (dn'', cur'', acts) = scan run total_n (Suc i) exs dn' cur'
      in (dn'', cur'', line # acts))"

text \<open>The start of \<^verbatim>\<open>watch_mode\<close>: what it prints, and the state its loop starts in, unless everything
  has passed already.\<close>

definition watch_start :: "(nat \<Rightarrow> cargo) \<Rightarrow> Exercise list \<Rightarrow> watch option \<times> action list" where
  "watch_start run exs =
     (let total_n = length exs;
          (dn, c, acts) = scan run total_n 0 exs (replicate total_n False) total_n;
          acts = Print (BOLD @ BLUE @ ''OS Camp'' @ RESET @ '' - Scanning exercise progress...'' @
                   [LF, LF]) # acts
      in if c = total_n
         then (None, acts @ [Print ([LF, LF] @ congratulation total_n @ [LF])])
         else (Some \<lparr>phase = Looping, current = c, done_flags = dn, needs_retest = True,
                 last_result = None, show_hint = False, show_list = False, changes = 0\<rparr>,
               acts))"

fun watch_turns :: "bool \<Rightarrow> Exercise list \<Rightarrow> turn list \<Rightarrow> watch \<Rightarrow> watch session" where
  "watch_turns ck exs [] w = silent (Inr w)"
| "watch_turns ck exs (t # ts) w = bind_out (watch_turn ck exs t w) (watch_turns ck exs ts)"

text \<open>Switching raw mode on and starting the file watcher; that the directory cannot be watched is ignored.\<close>

record environment =
  raw_works :: bool
  watcher_works :: bool

definition watch_setup :: "environment \<Rightarrow> unit session" where
  "watch_setup env =
     (if \<not> raw_works env then silent (Inl UnwrapNone)
      else if \<not> watcher_works env then ([Raw_mode True], Inl UnwrapNone)
      else ([Raw_mode True], Inr ()))"

text \<open>\<^verbatim>\<open>watch_mode\<close>, up to the turn after which nothing is known.\<close>

definition watch_mode ::
  "bool \<Rightarrow> Exercise list \<Rightarrow> (nat \<Rightarrow> cargo) \<Rightarrow> environment \<Rightarrow> turn list \<Rightarrow> watch option session"
where
  "watch_mode ck exs run env ts =
     (case watch_start run exs of
        (None, acts) \<Rightarrow> (acts, Inr None)
      | (Some w, acts) \<Rightarrow>
          bind_out (acts, Inr ()) (\<lambda>_.
          bind_out (watch_setup env) (\<lambda>_.
          bind_out (watch_turns ck exs ts w) (\<lambda>w'. silent (Inr (Some w'))))))"

end
