(* ===== verification/WatchScreen.thy ===== *)
theory WatchScreen
  imports WatchMode
begin

text \<open>
  How \<^verbatim>\<open>watch_mode\<close> is reasoned about: the outcome of a computation that prints and may panic, what is sent to
  the terminal in raw mode, and when the announcement that all exercises have passed is among it.
\<close>

section \<open>Outcomes\<close>

text \<open>\<open>Q\<close> holds of the result and the actions, or \<open>E\<close> of the panic and the actions before it.\<close>

definition outcome :: "'a session \<Rightarrow> ('a \<Rightarrow> action list \<Rightarrow> bool) \<Rightarrow> (panic \<Rightarrow> action list \<Rightarrow> bool) \<Rightarrow> bool" where
  "outcome m Q E = (case m of (acts, Inl e) \<Rightarrow> E e acts | (acts, Inr x) \<Rightarrow> Q x acts)"

lemma outcome_simps [simp]:
  "outcome (acts, Inl e) Q E = E e acts"
  "outcome (acts, Inr x) Q E = Q x acts"
  "outcome (silent (Inl e)) Q E = E e []"
  "outcome (silent (Inr x)) Q E = Q x []"
  by (simp_all add: outcome_def silent_def)

lemma outcome_bind:
  "outcome (bind_out m f) Q E \<longleftrightarrow>
   outcome m (\<lambda>x acts. outcome (f x) (\<lambda>y acts'. Q y (acts @ acts')) (\<lambda>e acts'. E e (acts @ acts'))) E"
  by (auto simp: outcome_def bind_out_def split: prod.split sum.split)

lemma outcome_mono:
  "outcome m Q E \<Longrightarrow> (\<And>x acts. m = (acts, Inr x) \<Longrightarrow> Q x acts \<Longrightarrow> Q' x acts) \<Longrightarrow>
   (\<And>e acts. m = (acts, Inl e) \<Longrightarrow> E e acts \<Longrightarrow> E' e acts) \<Longrightarrow> outcome m Q' E'"
  by (auto simp: outcome_def split: prod.splits sum.splits)

text \<open>The computation does not panic, and \<open>Q\<close> holds of its result and its actions.\<close>

abbreviation finishes :: "'a session \<Rightarrow> ('a \<Rightarrow> action list \<Rightarrow> bool) \<Rightarrow> bool" where
  "finishes m Q \<equiv> outcome m Q (\<lambda>_ _. False)"

lemma finishes_iff: "finishes m Q \<longleftrightarrow> (\<exists>acts x. m = (acts, Inr x) \<and> Q x acts)"
  by (auto simp: outcome_def split: prod.splits sum.splits)

section \<open>Raw mode\<close>

text \<open>Whether the terminal is in raw mode after some actions, and whether everything printed while
  it was has its line ends right.\<close>

fun raw_after :: "bool \<Rightarrow> action list \<Rightarrow> bool" where
  "raw_after m [] = m"
| "raw_after m (Raw_mode b # as) = raw_after b as"
| "raw_after m (a # as) = raw_after m as"

fun raw_trace :: "bool \<Rightarrow> action list \<Rightarrow> bool" where
  "raw_trace m [] = True"
| "raw_trace m (Raw_mode b # as) = raw_trace b as"
| "raw_trace m (a # as) = ((m \<longrightarrow> raw_ok a) \<and> raw_trace m as)"

lemma raw_after_append [simp]: "raw_after m (as @ bs) = raw_after (raw_after m as) bs"
  by (induction m as rule: raw_after.induct) auto

lemma raw_trace_append [simp]: "raw_trace m (as @ bs) \<longleftrightarrow> raw_trace m as \<and> raw_trace (raw_after m as) bs"
  by (induction m as rule: raw_trace.induct) auto

lemma raw_trace_ok: "list_all raw_ok as \<Longrightarrow> raw_trace True as \<and> raw_after True as"
  by (induction True as rule: raw_trace.induct) auto

section \<open>The congratulation\<close>

text \<open>It is printed at the end of the scan or in the loop.\<close>

definition congratulates :: "nat \<Rightarrow> action list \<Rightarrow> bool" where
  "congratulates n acts \<longleftrightarrow>
     Print ([LF, LF] @ congratulation n @ [LF]) \<in> set acts \<or> Print (rprintln (congratulation n)) \<in> set acts"

lemma congratulates_simps [simp]:
  "\<not> congratulates n []"
  "congratulates n (as @ bs) \<longleftrightarrow> congratulates n as \<or> congratulates n bs"
  by (auto simp: congratulates_def)

text \<open>What can be printed in raw mode and is not the congratulation, which starts with two blanks and bold
  type.\<close>

fun other :: "action \<Rightarrow> bool" where
  "other (Print s) \<longleftrightarrow> take 5 s \<noteq> ''  '' @ CHR 0x1B # ''[1''"
| "other a \<longleftrightarrow> True"

definition plain :: "action \<Rightarrow> bool" where
  "plain a \<longleftrightarrow> raw_ok a \<and> other a"

lemma rprintln_Cons: "c \<noteq> CR \<Longrightarrow> c \<noteq> LF \<Longrightarrow> rprintln (c # s) = c # rprintln s"
  by (simp add: rprintln_def rprint_def crlf_to_lf_Cons)

lemma rprintln_LF: "rprintln (LF # s) = CR # LF # rprintln s"
  by (simp add: rprintln_def rprint_def crlf_to_lf_Cons)

lemma rprintln_Nil: "rprintln [] = [CR, LF]"
  by (simp add: rprintln_def rprint_def)

lemmas rprintln_starts = rprintln_Cons rprintln_LF rprintln_Nil

lemma congratulation_starts: "take 5 (rprintln (congratulation n)) = ''  '' @ CHR 0x1B # ''[1''"
  by (simp add: congratulation_def BOLD_def rprintln_Cons)

lemma other_not_congratulation: "other a \<Longrightarrow> a \<noteq> Print (rprintln (congratulation n))"
  using congratulation_starts by auto

lemma raw_not_congratulation: "raw_ok a \<Longrightarrow> a \<noteq> Print ([LF, LF] @ congratulation n @ [LF])"
  by (auto simp: crlf_ended_def)

lemma raw_congratulates:
  "list_all raw_ok acts \<Longrightarrow> congratulates n acts \<longleftrightarrow> Print (rprintln (congratulation n)) \<in> set acts"
  using raw_not_congratulation unfolding congratulates_def list_all_iff by blast

lemma plain_quiet: "list_all plain acts \<Longrightarrow> \<not> congratulates n acts"
  using other_not_congratulation raw_not_congratulation
  unfolding congratulates_def list_all_iff plain_def by blast

lemma plain_raw: "list_all plain acts \<Longrightarrow> list_all raw_ok acts"
  by (auto simp: list_all_iff plain_def)

section \<open>What is drawn is plain\<close>

lemma plain_simps [simp]: "plain Clear_screen" "plain (Sleep n)" "\<not> plain (Raw_mode b)"
  by (simp_all add: plain_def)

lemma header_plain:
  assumes "c < length exs" "d \<le> length exs" "length exs < 2 ^ 56"
  shows "\<exists>h. render_header ck exs c d = Inr h \<and> plain (Print h)"
proof -
  obtain h where h: "render_header ck exs c d = Inr h" "crlf_ended h"
    using render_header_ok [OF assms] by blast
  then have "hd h = CHR 0x1B"
    by (auto simp: render_header_def Let_def bind_res_Inr_iff BOLD_def rprintln_Cons)
  then have "other (Print h)" by (cases h) auto
  with h show ?thesis by (simp add: plain_def)
qed

lemma texts_other:
  "other (Print (rprintln []))"
  "other (Print (rprintln (CHR '' '' # CHR '' '' # YELLOW @ s)))"
  "other (Print (rprintln (LF # s)))"
  "other (Print (render_failure r))"
  "other (Print render_controls)"
  "other (Print (render_hint ex))"
  by (simp_all add: YELLOW_def rprintln_starts render_failure_def Let_def render_controls_def render_hint_def)

lemma texts_plain [simp]:
  "plain (Print (rprintln []))"
  "plain (Print (rprintln (CHR '' '' # CHR '' '' # YELLOW @ s)))"
  "plain (Print (rprintln (LF # s)))"
  "plain (Print (render_failure r))"
  "plain (Print render_controls)"
  "plain (Print (render_hint ex))"
  by (simp_all add: plain_def texts_other del: other.simps)

lemma list_plain:
  assumes "length dn = length exs"
  shows "\<exists>t. render_list exs c dn = Inr t \<and> plain (Print t)"
proof -
  obtain t where t: "render_list exs c dn = Inr t" "crlf_ended t" using render_list_ok [OF assms] by blast
  then have "hd t = CR" by (auto simp: render_list_def bind_res_Inr_iff rprintln_starts)
  then have "other (Print t)" by (cases t) auto
  with t show ?thesis by (simp add: plain_def)
qed

lemma full_redraw_plain:
  assumes "c < length exs" "d \<le> length exs" "length exs < 2 ^ 56" "length dn = length exs"
  shows "\<exists>acts. full_redraw ck exs c d r h l dn = Inr acts \<and> list_all plain acts"
proof -
  obtain hd where "render_header ck exs c d = Inr hd" "plain (Print hd)"
    using header_plain [OF assms(1-3)] by blast
  moreover obtain t where "render_list exs c dn = Inr t" "plain (Print t)"
    using list_plain [OF assms(4)] by blast
  ultimately show ?thesis using assms(1) by (auto simp: full_redraw_def split: option.split)
qed

lemma watch_header_plain:
  assumes "current w < length exs" "length dn = length exs" "length exs < 2 ^ 56"
  shows "\<exists>h. render_header ck exs (current w) (count_done dn) = Inr h \<and> plain (Print h)"
  using header_plain [OF assms(1) _ assms(3), of "count_done dn"] assms(2)
  by (simp add: count_done_def order_trans [OF length_filter_le])

lemma testing_screen_plain:
  assumes "current w < length exs" "length (done_flags w) = length exs" "length exs < 2 ^ 56"
  shows "finishes (testing_screen ck exs w) (\<lambda>_ acts. list_all plain acts)"
proof -
  obtain h where "render_header ck exs (current w) (count_done (done_flags w)) = Inr h" "plain (Print h)"
    using watch_header_plain [OF assms] by blast
  then show ?thesis using assms(1) by (simp add: testing_screen_def)
qed

end
