(* ===== verification/WatchSafety.thy ===== *)
theory WatchSafety
  imports WatchScreen
begin

text \<open>
  The properties of \<^verbatim>\<open>watch_mode\<close>: the choice of the next exercise, an invariant of the loop that
  every turn keeps, what is sent to the terminal in raw mode, and that the loop gets to the end when
  the tests pass.
\<close>

section \<open>The next exercise\<close>

lemma find_next_incomplete_Some:
  "find_next_incomplete dn c = Some j \<longleftrightarrow>
   (\<exists>i. 1 \<le> i \<and> i \<le> length dn \<and> j = (c + i) mod length dn \<and> \<not> dn ! j \<and>
     (\<forall>k. 1 \<le> k \<and> k < i \<longrightarrow> dn ! ((c + k) mod length dn)))"
proof -
  let ?n = "length dn"
  let ?P = "\<lambda>i. \<not> dn ! ((c + i) mod ?n)"
  have "List.find ?P [1..<?n + 1] = Some i \<longleftrightarrow> 1 \<le> i \<and> i \<le> ?n \<and> ?P i \<and> (\<forall>k. 1 \<le> k \<and> k < i \<longrightarrow> \<not> ?P k)"
    for i
  proof -
    have "List.find ?P [1..<?n + 1] = Some i \<longleftrightarrow>
        (\<exists>m < ?n. ?P (1 + m) \<and> i = 1 + m \<and> (\<forall>k < m. \<not> ?P (1 + k)))"
      unfolding find_Some_index
      by (intro ex_cong1) (auto simp: nth_upt simp del: upt_Suc)
    also have "\<dots> \<longleftrightarrow> 1 \<le> i \<and> i \<le> ?n \<and> ?P i \<and> (\<forall>k. 1 \<le> k \<and> k < i \<longrightarrow> \<not> ?P k)"
    proof (intro iffI; elim exE conjE)
      fix m assume m: "m < ?n" "?P (1 + m)" "i = 1 + m" "\<forall>k < m. \<not> ?P (1 + k)"
      have "\<not> ?P k" if "1 \<le> k" "k < i" for k
        using m(4) [rule_format, of "k - 1"] that m(3) by simp
      then show "1 \<le> i \<and> i \<le> ?n \<and> ?P i \<and> (\<forall>k. 1 \<le> k \<and> k < i \<longrightarrow> \<not> ?P k)" using m by simp
    next
      assume i: "1 \<le> i" "i \<le> ?n" "?P i" "\<forall>k. 1 \<le> k \<and> k < i \<longrightarrow> \<not> ?P k"
      have "i - 1 < ?n" "?P (1 + (i - 1))" "i = 1 + (i - 1)" using i(1-3) by simp_all
      moreover have "\<forall>k < i - 1. \<not> ?P (1 + k)"
      proof (intro allI impI)
        fix k assume "k < i - 1"
        then show "\<not> ?P (1 + k)" using i(4) [rule_format, of "1 + k"] by simp
      qed
      ultimately show "\<exists>m < ?n. ?P (1 + m) \<and> i = 1 + m \<and> (\<forall>k < m. \<not> ?P (1 + k))" by blast
    qed
    finally show ?thesis .
  qed
  then show ?thesis by (auto simp: find_next_incomplete_def Let_def)
qed

lemma find_next_incomplete_None:
  assumes "c < length dn"
  shows "find_next_incomplete dn c = None \<longleftrightarrow> list_all (\<lambda>d. d) dn"
proof -
  let ?n = "length dn"
  have "find_next_incomplete dn c = None \<longleftrightarrow> (\<forall>m < ?n. dn ! ((c + (1 + m)) mod ?n))"
    by (simp add: find_next_incomplete_def Let_def find_None_index nth_upt del: upt_Suc One_nat_def)
  also have "\<dots> \<longleftrightarrow> (\<forall>j < ?n. dn ! j)"
  proof (intro iffI allI impI)
    fix j assume all: "\<forall>m < ?n. dn ! ((c + (1 + m)) mod ?n)" and j: "j < ?n"
    show "dn ! j"
    proof (cases "c < j")
      case True
      then show ?thesis using all [rule_format, of "j - c - 1"] j by simp
    next
      case False
      then have "c + (1 + (?n + j - c - 1)) = ?n + j" using assms by linarith
      then have "(c + (1 + (?n + j - c - 1))) mod ?n = j" using j by (simp only: mod_add_self1 mod_less)
      moreover have "?n + j - c - 1 < ?n" using False j by linarith
      ultimately show ?thesis using all [rule_format, of "?n + j - c - 1"] by simp
    qed
  next
    fix m assume all: "\<forall>j < ?n. dn ! j" and "m < ?n"
    then have "(c + (1 + m)) mod ?n < ?n" by (intro mod_less_divisor) linarith
    then show "dn ! ((c + (1 + m)) mod ?n)" using all by blast
  qed
  finally show ?thesis by (simp add: list_all_length)
qed

text \<open>The next exercise is the first one behind the current one that is not done, going round past
  the end of the list, the current one itself last; there is none exactly when all are done.\<close>

theorem find_next_incomplete_first:
  assumes "c < length dn"
  shows "(find_next_incomplete dn c = None \<longleftrightarrow> list_all (\<lambda>d. d) dn) \<and>
    (find_next_incomplete dn c = Some j \<longleftrightarrow>
      (\<exists>i. 1 \<le> i \<and> i \<le> length dn \<and> j = (c + i) mod length dn \<and> \<not> dn ! j \<and>
        (\<forall>k. 1 \<le> k \<and> k < i \<longrightarrow> dn ! ((c + k) mod length dn))))"
  using find_next_incomplete_None [OF assms] find_next_incomplete_Some by blast

theorem find_next_incomplete_first_witness:
  "find_next_incomplete [False, True, False, True] 2 = Some 0"
proof -
  have "(2 :: nat) < length [False, True, False, True]" by simp
  note next_one = find_next_incomplete_first [OF this, of 0, THEN conjunct2]
  show ?thesis
    unfolding next_one
  proof (intro exI [of _ 2] conjI allI impI)
    fix k :: nat assume "1 \<le> k \<and> k < 2"
    then have "k = 1" by simp
    then show "[False, True, False, True] ! ((2 + k) mod length [False, True, False, True])" by simp
  qed simp_all
qed

lemma find_next_incomplete_bound: "find_next_incomplete dn c = Some j \<Longrightarrow> j < length dn \<and> \<not> dn ! j"
  by (auto simp: find_next_incomplete_Some mod_less_divisor intro: mod_less_divisor)

section \<open>Counting\<close>

text \<open>The exercises that are not done.\<close>

definition count_open :: "bool list \<Rightarrow> nat" where
  "count_open dn = length (filter Not dn)"

lemma count_open_set:
  "i < length dn \<Longrightarrow> \<not> dn ! i \<Longrightarrow> Suc (count_open (dn[i := True])) = count_open dn"
  by (induction dn arbitrary: i) (auto simp: count_open_def nth_Cons split: nat.split)

lemma count_open_0: "count_open dn = 0 \<longleftrightarrow> list_all (\<lambda>d. d) dn"
  by (simp add: count_open_def filter_empty_conv list_all_iff)

section \<open>The invariant\<close>

abbreviation all_done :: "watch \<Rightarrow> bool" where
  "all_done w \<equiv> list_all (\<lambda>d. d) (done_flags w)"

text \<open>\<open>P i\<close>: exercise \<open>i\<close> has passed before. The loop goes on exactly as long as something is not done.\<close>

definition watch_inv :: "Exercise list \<Rightarrow> (nat \<Rightarrow> bool) \<Rightarrow> watch \<Rightarrow> bool" where
  "watch_inv exs P w \<longleftrightarrow>
     current w < length exs \<and> length (done_flags w) = length exs \<and>
     (\<forall>i < length exs. done_flags w ! i \<longrightarrow> P i) \<and>
     (phase w = Looping \<longrightarrow> \<not> all_done w) \<and> (phase w = Waiting \<longrightarrow> all_done w)"

definition passes :: "cargo \<Rightarrow> Exercise \<Rightarrow> bool" where
  "passes run ex = (case run (test_args ex) of None \<Rightarrow> False | Some out \<Rightarrow> success out)"

lemma test_exercise_cases:
  "test_exercise run ex =
     (case run (test_args ex) of None \<Rightarrow> Inl UnwrapNone
      | Some out \<Rightarrow> Inr \<lparr>passed = passes run ex,
          test_output = from_utf8_lossy (stderr out) @ from_utf8_lossy (stdout out)\<rparr>)"
  by (simp add: test_exercise_def passes_def split: option.split)

section \<open>The outcome of a test\<close>

lemma retest_panics:
  assumes "current w < length exs" "length (done_flags w) = length exs" "length exs < 2 ^ 56"
    and "run (test_args (exs ! current w)) = None"
  shows "\<exists>acts. retest ck exs run w = (acts, Inl UnwrapNone) \<and> list_all plain acts"
proof -
  let ?w = "w\<lparr>show_hint := False, show_list := False\<rparr>"
  obtain testing where "testing_screen ck exs ?w = (testing, Inr ())" "list_all plain testing"
    using testing_screen_plain [of ?w exs ck] assms(1-3) by (auto simp: finishes_iff)
  then show ?thesis using assms(1,4) by (simp add: retest_def test_exercise_cases Let_def)
qed

lemma retest_fails:
  assumes "current w < length exs" "length (done_flags w) = length exs" "length exs < 2 ^ 56"
    and "run (test_args (exs ! current w)) \<noteq> None" "\<not> passes run (exs ! current w)"
  shows "finishes (retest ck exs run w) (\<lambda>(a, w') acts. a = Poll_events \<and> list_all plain acts \<and>
    phase w' = phase w \<and> done_flags w' = done_flags w \<and> current w' = current w \<and>
    \<not> needs_retest w' \<and> changes w' = changes w)"
proof -
  let ?w = "w\<lparr>show_hint := False, show_list := False\<rparr>"
  obtain h where "render_header ck exs (current w) (count_done (done_flags w)) = Inr h" "plain (Print h)"
    using watch_header_plain [OF assms(1-3)] by blast
  moreover obtain testing where "testing_screen ck exs ?w = (testing, Inr ())" "list_all plain testing"
    using testing_screen_plain [of ?w exs ck] assms(1-3) by (auto simp: finishes_iff)
  ultimately show ?thesis using assms(1,4,5) by (auto simp: retest_def test_exercise_cases Let_def)
qed

lemma retest_passes:
  assumes "current w < length exs" "length (done_flags w) = length exs" "length exs < 2 ^ 56"
    and "passes run (exs ! current w)"
  shows "finishes (retest ck exs run w) (\<lambda>(a, w') acts. list_all raw_ok acts \<and>
    (congratulates (length exs) acts \<longleftrightarrow> a = All_passed) \<and>
    phase w' = phase w \<and> done_flags w' = (done_flags w)[current w := True] \<and>
    (case find_next_incomplete ((done_flags w)[current w := True]) (current w) of
       None \<Rightarrow> a = All_passed \<and> current w' = current w
     | Some j \<Rightarrow> a = Next_turn \<and> current w' = j \<and> needs_retest w'))"
proof -
  let ?w = "w\<lparr>show_hint := False, show_list := False\<rparr>" and ?dn = "(done_flags w)[current w := True]"
  obtain h where h: "render_header ck exs (current w) (count_done ?dn) = Inr h" "plain (Print h)"
    "crlf_ended h"
    using watch_header_plain [OF assms(1) _ assms(3), of ?dn] assms(2) by (auto simp: plain_def)
  obtain testing where t: "testing_screen ck exs ?w = (testing, Inr ())" "list_all plain testing"
    using testing_screen_plain [of ?w exs ck] assms(1-3) by (auto simp: finishes_iff)
  obtain out where out: "run (test_args (exs ! current w)) = Some out"
    using assms(4) by (auto simp: passes_def split: option.splits)
  have quiet: "\<not> congratulates (length exs) acts" "list_all raw_ok acts" if "list_all plain acts" for acts
    using plain_quiet plain_raw that by blast+
  show ?thesis
  proof (cases "find_next_incomplete ?dn (current w)")
    case None
    have "congratulates n (acts @ Print (rprintln (congratulation n)) # acts')" for n acts acts'
      by (simp add: congratulates_def)
    then show ?thesis using None h t out assms(1,2,4) quiet
      by (simp add: retest_def test_exercise_cases Let_def plain_def)
        (auto simp: congratulates_def)
  next
    case (Some j)
    then have "j < length exs" using find_next_incomplete_bound assms(2) by fastforce
    then show ?thesis using Some h t out assms(1,2,4) quiet
      by (simp add: retest_def test_exercise_cases Let_def)
  qed
qed

section \<open>Turns\<close>

lemma handle_key_ok:
  assumes "watch_inv exs P w" "length exs < 2 ^ 56"
  shows "finishes (handle_key ck exs k w) (\<lambda>(b, w') acts. list_all plain acts \<and>
    watch_inv exs P w' \<and> phase w' = phase w \<and> done_flags w' = done_flags w)"
proof -
  have inv: "current w < length exs" "length (done_flags w) = length exs"
    using assms(1) by (simp_all add: watch_inv_def)
  have "count_done (done_flags w) \<le> length exs" using inv(2) by (metis count_done_def length_filter_le)
  from full_redraw_plain [OF inv(1) this assms(2) inv(2)] obtain redraw where redraw:
    "full_redraw ck exs (current w) (count_done (done_flags w)) (last_result w) h l (done_flags w) = Inr (redraw h l)"
    "list_all plain (redraw h l)" for h l
    by metis
  have "sub_usize ck (length exs) 1 = Inr (length exs - 1)" using inv(1) by (simp add: sub_usize_def)
  moreover have "exs \<noteq> []" using inv(1) by auto
  moreover have "current w - 1 < length exs" using inv(1) by simp
  ultimately show ?thesis using redraw assms(1) inv(1)
    unfolding handle_key_def Let_def
    by (simp add: watch_inv_def)
qed

text \<open>Nothing that the turn needs from the world fails.\<close>

definition polls_ok :: "turn \<Rightarrow> bool" where
  "polls_ok t \<longleftrightarrow> polls t \<noteq> None \<and> (polls t = Some True \<longrightarrow> reads t \<noteq> None)"

definition world_works :: "turn \<Rightarrow> bool" where
  "world_works t \<longleftrightarrow> (\<forall>a. cargo t a \<noteq> None) \<and> polls_ok t \<and> restores t"

definition tests_now :: "watch \<Rightarrow> bool" where
  "tests_now w \<longleftrightarrow> phase w = Looping \<and> needs_retest w"

lemma poll_event_cases:
  obtains e where "poll_event t = Inr e" | "poll_event t = Inl UnwrapNone" "\<not> polls_ok t"
proof (cases "polls t")
  case (Some b)
  then show ?thesis using that
    by (cases b; cases "reads t") (auto simp: poll_event_def polls_ok_def)
qed (auto simp: poll_event_def polls_ok_def that)

lemma handle_event_ok:
  assumes "watch_inv exs P w" "length exs < 2 ^ 56"
  shows "outcome (handle_event ck exs t w)
    (\<lambda>(b, w') acts. list_all plain acts \<and> watch_inv exs P w' \<and> phase w' = phase w \<and> done_flags w' = done_flags w)
    (\<lambda>e acts. e = UnwrapNone \<and> acts = [] \<and> \<not> polls_ok t)"
proof (rule poll_event_cases [of t])
  fix e assume "poll_event t = Inr e"
  then show ?thesis using outcome_mono [OF handle_key_ok [OF assms, of ck]] assms(1)
    by (auto simp: handle_event_def split: option.split event.split)
qed (simp add: handle_event_def)

lemma watch_inv_mono: "watch_inv exs P w \<Longrightarrow> (\<And>i. i < length exs \<Longrightarrow> P i \<Longrightarrow> Q i) \<Longrightarrow> watch_inv exs Q w"
  by (simp add: watch_inv_def)

text \<open>What every turn gives: the actions, in raw mode until the program leaves, the invariant with the
  exercises that pass in this turn added, and the congratulation when the last of them is done; or a
  panic that leaves the terminal in raw mode, only when something failed.\<close>

definition turn_ok :: "Exercise list \<Rightarrow> (nat \<Rightarrow> bool) \<Rightarrow> watch \<Rightarrow> watch \<Rightarrow> action list \<Rightarrow> bool" where
  "turn_ok exs P w = (\<lambda>w' acts. watch_inv exs P w' \<and> raw_trace (phase w \<noteq> Left) acts \<and>
     raw_after (phase w \<noteq> Left) acts = (phase w' \<noteq> Left) \<and> (phase w = Left \<longrightarrow> phase w' = Left) \<and>
     (all_done w \<longrightarrow> all_done w') \<and> (congratulates (length exs) acts \<longleftrightarrow> all_done w' \<and> \<not> all_done w))"

definition turn_panics :: "bool \<Rightarrow> watch \<Rightarrow> panic \<Rightarrow> action list \<Rightarrow> bool" where
  "turn_panics fails w = (\<lambda>e acts. e = UnwrapNone \<and> fails \<and> phase w \<noteq> Left \<and> list_all plain acts)"

lemma retest_turn:
  assumes inv: "watch_inv exs P w" and small: "length exs < 2 ^ 56" and looping: "phase w = Looping"
  shows "outcome (retest ck exs run w)
    (\<lambda>(a, w') acts. phase w' = Looping \<and> list_all raw_ok acts \<and>
      watch_inv exs (\<lambda>i. P i \<or> passes run (exs ! i)) (if a = All_passed then w'\<lparr>phase := Waiting\<rparr> else w') \<and>
      (a = Poll_events \<longrightarrow> list_all plain acts) \<and>
      (congratulates (length exs) acts \<longleftrightarrow> a = All_passed))
    (\<lambda>e acts. e = UnwrapNone \<and> list_all plain acts \<and> run (test_args (exs ! current w)) = None)"
proof -
  have w: "current w < length exs" "length (done_flags w) = length exs"
    using inv by (simp_all add: watch_inv_def)
  let ?dn = "(done_flags w)[current w := True]"
  consider "run (test_args (exs ! current w)) = None"
    | "run (test_args (exs ! current w)) \<noteq> None" "\<not> passes run (exs ! current w)"
    | "passes run (exs ! current w)"
    by blast
  then show ?thesis
  proof cases
    case 1
    then show ?thesis using retest_panics [OF w small, of run ck] by auto
  next
    case 2
    show ?thesis
      by (rule outcome_mono [OF retest_fails [OF w small 2, of ck]])
        (use inv looping in \<open>auto simp: watch_inv_def plain_raw dest: plain_quiet\<close>)
  next
    case 3
    have flags: "\<forall>i < length exs. ?dn ! i \<longrightarrow> P i \<or> passes run (exs ! i)"
      using inv 3 by (auto simp: watch_inv_def nth_list_update)
    note step = outcome_mono [OF retest_passes [OF w small 3, of ck]]
    show ?thesis
    proof (cases "find_next_incomplete ?dn (current w)")
      case None
      then have "list_all (\<lambda>d. d) ?dn" using find_next_incomplete_None [of "current w" ?dn] w by simp
      then show ?thesis using flags w looping None by (intro step) (auto simp: watch_inv_def)
    next
      case (Some j)
      then have "j < length exs" "\<not> ?dn ! j" using find_next_incomplete_bound [OF Some] w(2) by simp_all
      then have "\<not> list_all (\<lambda>d. d) ?dn" using w(2) by (auto simp: list_all_length)
      with \<open>j < length exs\<close> show ?thesis using flags w looping Some by (intro step) (auto simp: watch_inv_def)
    qed
  qed
qed

lemma poll_changes_facts:
  "poll_changes w = (w', acts) \<Longrightarrow>
   list_all plain acts \<and> phase w' = phase w \<and> done_flags w' = done_flags w \<and> current w' = current w"
  by (auto simp: poll_changes_def split: if_splits)

text \<open>Leaving the program.\<close>

lemma goodbye_outcome:
  assumes "watch_inv exs P w" "phase w \<noteq> Left"
  shows "outcome (goodbye t w)
    (\<lambda>w' acts. watch_inv exs P w' \<and> phase w' = Left \<and> all_done w' = all_done w \<and>
      raw_trace True acts \<and> \<not> raw_after True acts \<and> \<not> congratulates n acts)
    (\<lambda>e acts. e = UnwrapNone \<and> acts = [] \<and> \<not> restores t)"
  using assms by (auto simp: goodbye_def watch_inv_def congratulates_def rprintln_def rprint_def congratulation_def
      crlf_to_lf_Cons)

lemma plain_trace: "list_all plain acts \<Longrightarrow> raw_trace True acts \<and> raw_after True acts \<and> \<not> congratulates n acts"
  using raw_trace_ok plain_raw plain_quiet by blast

lemma events_turn:
  assumes inv: "watch_inv exs P w" and small: "length exs < 2 ^ 56" and looping: "phase w = Looping"
  shows "outcome (bind_out (handle_event ck exs t w) (\<lambda>(leave, w2).
           if leave then goodbye t w2 else (case poll_changes w2 of (w3, acts) \<Rightarrow> (acts, Inr w3))))
    (turn_ok exs P w) (turn_panics (\<not> polls_ok t \<or> \<not> restores t) w)"
  unfolding outcome_bind
proof (rule outcome_mono [OF handle_event_ok [OF inv small, of ck t]]; clarify)
  fix b w2 acts
  assume h: "list_all plain acts" "watch_inv exs P w2" "phase w2 = phase w" "done_flags w2 = done_flags w"
  show "outcome (if b then goodbye t w2 else (case poll_changes w2 of (w3, acts) \<Rightarrow> (acts, Inr w3)))
      (\<lambda>y acts'. turn_ok exs P w y (acts @ acts'))
      (\<lambda>e acts'. turn_panics (\<not> polls_ok t \<or> \<not> restores t) w e (acts @ acts'))"
  proof (cases b)
    case True
    have "phase w2 \<noteq> Left" using h looping by simp
    from goodbye_outcome [OF h(2) this, of t "length exs"] True h looping plain_trace [OF h(1)] show ?thesis
      by (auto simp: turn_ok_def turn_panics_def elim!: outcome_mono)
  next
    case False
    obtain w3 acts3 where p: "poll_changes w2 = (w3, acts3)" by (cases "poll_changes w2")
    from poll_changes_facts [OF this] h have "list_all plain (acts @ acts3)" "watch_inv exs P w3"
      "phase w3 = Looping" "done_flags w3 = done_flags w"
      using looping by (auto simp: watch_inv_def)
    then show ?thesis using False p looping plain_trace [of "acts @ acts3"] by (auto simp: turn_ok_def)
  qed
qed (use looping in \<open>simp add: turn_panics_def\<close>)

lemma watch_turn_ok:
  assumes inv: "watch_inv exs P w" and small: "length exs < 2 ^ 56"
  shows "outcome (watch_turn ck exs t w) (turn_ok exs (\<lambda>i. P i \<or> passes (cargo t) (exs ! i)) w)
    (turn_panics ((tests_now w \<and> cargo t (test_args (exs ! current w)) = None) \<or> \<not> polls_ok t \<or> \<not> restores t) w)"
proof -
  let ?Q = "\<lambda>i. P i \<or> passes (cargo t) (exs ! i)"
  let ?w = "w\<lparr>changes := changes w + messages t\<rparr>"
  have inv': "watch_inv exs P ?w" and invQ: "watch_inv exs ?Q ?w"
    using inv by (simp_all add: watch_inv_def)
  show ?thesis
  proof (cases "phase w")
    case Looping
    then have looping: "phase ?w = Looping" by simp
    show ?thesis
    proof (cases "needs_retest w")
      case True
      have "outcome (bind_out (retest ck exs (cargo t) ?w)
            (\<lambda>(after, w1). case after of
               Next_turn \<Rightarrow> silent (Inr w1)
             | All_passed \<Rightarrow> silent (Inr (w1\<lparr>phase := Waiting\<rparr>))
             | Poll_events \<Rightarrow> bind_out (handle_event ck exs t w1) (\<lambda>(leave, w2).
                   if leave then goodbye t w2 else (case poll_changes w2 of (w3, acts) \<Rightarrow> (acts, Inr w3)))))
          (turn_ok exs ?Q w)
          (turn_panics (cargo t (test_args (exs ! current w)) = None \<or> \<not> polls_ok t \<or> \<not> restores t) w)"
        unfolding outcome_bind
      proof (rule outcome_mono [OF retest_turn [OF inv' small looping, of ck "cargo t"]]; clarify)
        fix a w1 acts
        assume r: "phase w1 = Looping" "list_all raw_ok acts"
          "watch_inv exs ?Q (if a = All_passed then w1\<lparr>phase := Waiting\<rparr> else w1)"
          "a = Poll_events \<longrightarrow> list_all plain acts" "congratulates (length exs) acts = (a = All_passed)"
        note raw = raw_trace_ok [OF r(2)]
        have open_now: "\<not> all_done w" using inv Looping by (simp add: watch_inv_def)
        show "outcome (case a of
               Next_turn \<Rightarrow> silent (Inr w1)
             | All_passed \<Rightarrow> silent (Inr (w1\<lparr>phase := Waiting\<rparr>))
             | Poll_events \<Rightarrow> bind_out (handle_event ck exs t w1) (\<lambda>(leave, w2).
                   if leave then goodbye t w2 else (case poll_changes w2 of (w3, acts) \<Rightarrow> (acts, Inr w3))))
          (\<lambda>y acts'. turn_ok exs ?Q w y (acts @ acts'))
          (\<lambda>e acts'. turn_panics (cargo t (test_args (exs ! current w)) = None \<or> \<not> polls_ok t \<or> \<not> restores t) w
             e (acts @ acts'))"
        proof (cases a)
          case Poll_events
          then have inv1: "watch_inv exs ?Q w1" using r(3) by simp
          then have "\<not> all_done w1" using r(1) by (simp add: watch_inv_def)
          with events_turn [OF inv1 small r(1), of ck t] Poll_events raw r(1,4,5) Looping open_now
          show ?thesis by (auto simp: turn_ok_def turn_panics_def elim!: outcome_mono)
        qed (use r raw Looping open_now in \<open>simp_all add: turn_ok_def watch_inv_def\<close>)
      qed (use Looping in \<open>simp add: turn_panics_def\<close>)
      then show ?thesis using True Looping by (simp add: watch_turn_def tests_now_def)
    next
      case False
      from events_turn [OF invQ small looping, of ck t] False Looping show ?thesis
        by (auto simp: watch_turn_def tests_now_def turn_ok_def turn_panics_def elim!: outcome_mono)
    qed
  next
    case Waiting
    have "phase ?w \<noteq> Left" using Waiting by simp
    note leave = goodbye_outcome [OF invQ this, of t "length exs"]
    show ?thesis
    proof (rule poll_event_cases [of t])
      fix e assume e: "poll_event t = Inr e"
      show ?thesis
      proof (cases "case e of Some (Key k) \<Rightarrow> quits k | _ \<Rightarrow> False")
        case True
        then show ?thesis using leave Waiting e
          by (auto simp: watch_turn_def wait_for_quit_def Let_def turn_ok_def turn_panics_def elim!: outcome_mono)
      next
        case False
        then show ?thesis using Waiting invQ e by (simp add: watch_turn_def wait_for_quit_def Let_def turn_ok_def)
      qed
    next
      assume "poll_event t = Inl UnwrapNone" "\<not> polls_ok t"
      then show ?thesis using Waiting by (simp add: watch_turn_def wait_for_quit_def turn_panics_def)
    qed
  next
    case Left
    then show ?thesis using invQ by (simp add: watch_turn_def turn_ok_def)
  qed
qed

text \<open>Many turns. \<open>passed_in\<close>: exercise \<open>i\<close> passes in one of them.\<close>

definition passed_in :: "turn list \<Rightarrow> Exercise list \<Rightarrow> nat \<Rightarrow> bool" where
  "passed_in ts exs i \<longleftrightarrow> (\<exists>t \<in> set ts. passes (cargo t) (exs ! i))"

definition run_panics :: "Exercise list \<Rightarrow> (nat \<Rightarrow> bool) \<Rightarrow> turn list \<Rightarrow> watch \<Rightarrow> panic \<Rightarrow> action list \<Rightarrow> bool" where
  "run_panics exs P ts w = (\<lambda>e acts. e = UnwrapNone \<and> (\<exists>t \<in> set ts. \<not> world_works t) \<and> phase w \<noteq> Left \<and>
     raw_trace True acts \<and> raw_after True acts \<and>
     (congratulates (length exs) acts \<longrightarrow> (\<forall>i < length exs. P i)))"

lemma all_done_passed: "watch_inv exs P w \<Longrightarrow> all_done w \<Longrightarrow> i < length exs \<Longrightarrow> P i"
  by (auto simp: watch_inv_def list_all_length)

lemma watch_turns_ok:
  assumes small: "length exs < 2 ^ 56"
  shows "watch_inv exs P w \<Longrightarrow>
    outcome (watch_turns ck exs ts w) (turn_ok exs (\<lambda>i. P i \<or> passed_in ts exs i) w)
      (run_panics exs (\<lambda>i. P i \<or> passed_in ts exs i) ts w)"
proof (induction ts arbitrary: P w)
  case Nil
  then show ?case by (auto simp: turn_ok_def passed_in_def)
next
  case (Cons t ts)
  let ?Q = "\<lambda>i. P i \<or> passed_in (t # ts) exs i" and ?P1 = "\<lambda>i. P i \<or> passes (cargo t) (exs ! i)"
  have Q: "(\<lambda>i. ?P1 i \<or> passed_in ts exs i) = ?Q" by (auto simp: passed_in_def)
  show ?case
    unfolding watch_turns.simps outcome_bind
  proof (rule outcome_mono [OF watch_turn_ok [OF Cons.prems small, of ck t]])
    fix w1 acts1 assume t: "turn_ok exs ?P1 w w1 acts1"
    then have inv1: "watch_inv exs ?P1 w1" by (simp add: turn_ok_def)
    note rest = Cons.IH [OF inv1, unfolded Q]
    show "outcome (watch_turns ck exs ts w1) (\<lambda>y acts'. turn_ok exs ?Q w y (acts1 @ acts'))
        (\<lambda>e acts'. run_panics exs ?Q (t # ts) w e (acts1 @ acts'))"
    proof (rule outcome_mono [OF rest])
      fix w2 acts2 assume "turn_ok exs ?Q w1 w2 acts2"
      with t show "turn_ok exs ?Q w w2 (acts1 @ acts2)" by (auto simp: turn_ok_def)
    next
      fix e acts2 assume "run_panics exs ?Q ts w1 e acts2"
      moreover from this t have "phase w \<noteq> Left" by (auto simp: run_panics_def turn_ok_def)
      moreover have "?Q i" if "all_done w1" "i < length exs" for i
        using all_done_passed [OF inv1 that] by (auto simp: passed_in_def)
      ultimately show "run_panics exs ?Q (t # ts) w e (acts1 @ acts2)"
        using t unfolding run_panics_def turn_ok_def congratulates_simps raw_after_append raw_trace_append
        by auto
    qed
  next
    fix e acts1 assume "turn_panics
      ((tests_now w \<and> cargo t (test_args (exs ! current w)) = None) \<or> \<not> polls_ok t \<or> \<not> restores t) w e acts1"
    then show "run_panics exs ?Q (t # ts) w e acts1"
      using plain_trace [of acts1 "length exs"] by (auto simp: turn_panics_def run_panics_def world_works_def)
  qed
qed

section \<open>Sessions\<close>

lemma scan_ok:
  assumes "length dn = i + length es" "\<forall>j. i \<le> j \<longrightarrow> j < length dn \<longrightarrow> \<not> dn ! j" "i + length es = n"
    "c = n \<or> (c < i \<and> \<not> dn ! c)"
  shows "case scan run n i es dn c of (dn', c', acts) \<Rightarrow>
    length dn' = n \<and>
    (\<forall>j < n. dn' ! j \<longleftrightarrow> (if j < i then dn ! j else test_quiet (run j) (es ! (j - i)))) \<and>
    (if c' = n then c = n \<and> (\<forall>j < n. i \<le> j \<longrightarrow> dn' ! j) else c' < n \<and> \<not> dn' ! c') \<and>
    raw_trace False acts \<and> \<not> raw_after False acts"
  using assms
proof (induction run n i es dn c rule: scan.induct)
  case (1 run n i dn c)
  then show ?case by auto
next
  case (2 run n i ex es dn c)
  define dn1 where "dn1 = (if test_quiet (run i) ex then dn[i := True] else dn)"
  define c1 where "c1 = (if test_quiet (run i) ex then c else if c = n then i else c)"
  obtain dn' c' acts where rest: "scan run n (Suc i) es dn1 c1 = (dn', c', acts)"
    by (cases "scan run n (Suc i) es dn1 c1")
  have pair: "(if test_quiet (run i) ex then (dn[i := True], c)
      else if c = n then (dn, i) else (dn, c)) = (dn1, c1)"
    by (simp add: dn1_def c1_def)
  have step: "\<exists>line. scan run n i (ex # es) dn c = (dn', c', Print line # acts)"
    by (simp only: scan.simps pair Let_def prod.case rest) blast
  have "\<forall>j. Suc i \<le> j \<longrightarrow> j < length dn1 \<longrightarrow> \<not> dn1 ! j" "length dn1 = Suc i + length es"
    using 2(2,3) by (auto simp: dn1_def)
  moreover have "c1 = n \<or> (c1 < Suc i \<and> \<not> dn1 ! c1)"
    using 2(2-5) by (auto simp: c1_def dn1_def)
  ultimately have IH: "length dn' = n"
    "\<forall>j < n. dn' ! j \<longleftrightarrow> (if j < Suc i then dn1 ! j else test_quiet (run j) (es ! (j - Suc i)))"
    "if c' = n then c1 = n \<and> (\<forall>j < n. Suc i \<le> j \<longrightarrow> dn' ! j) else c' < n \<and> \<not> dn' ! c'"
    "raw_trace False acts" "\<not> raw_after False acts"
    using 2(1) [OF refl pair [symmetric] refl] rest 2(4) by auto
  have i: "i < n" using 2(4) by simp
  have dn1: "dn1 ! j \<longleftrightarrow> (if j < i then dn ! j else test_quiet (run i) ex)" if "j < Suc i" for j
    using that 2(2,3) i by (auto simp: dn1_def nth_list_update less_Suc_eq)
  have flags: "dn' ! j \<longleftrightarrow> (if j < i then dn ! j else test_quiet (run j) ((ex # es) ! (j - i)))" if "j < n" for j
    using IH(2) that dn1 [of j] by (auto simp: nth_Cons' less_Suc_eq)
  have "c1 = n \<longleftrightarrow> c = n \<and> test_quiet (run i) ex" using i by (auto simp: c1_def)
  moreover have "dn' ! i \<longleftrightarrow> test_quiet (run i) ex" using flags [OF i] by simp
  ultimately have "if c' = n then c = n \<and> (\<forall>j < n. i \<le> j \<longrightarrow> dn' ! j) else c' < n \<and> \<not> dn' ! c'"
    using IH(3) by (auto split: if_splits simp: le_eq_less_or_eq Suc_le_eq)
  then show ?case using step IH flags by auto
qed

text \<open>Scanning prints one line for each exercise, none of which is the congratulation.\<close>

lemma scan_lines:
  "scan run n i es dn c = (dn', c', acts) \<Longrightarrow> a \<in> set acts \<Longrightarrow> \<exists>s. a = Print (CHR '' '' # CHR '' '' # CHR ''['' # s)"
  by (induction run n i es dn c arbitrary: dn' c' acts rule: scan.induct)
    (auto simp: Let_def split: prod.splits if_splits)

lemma scan_quiet: "scan run n i es dn c = (dn', c', acts) \<Longrightarrow> \<not> congratulates k acts"
proof -
  assume scan: "scan run n i es dn c = (dn', c', acts)"
  have "other a \<and> a \<noteq> Print ([LF, LF] @ congratulation k @ [LF])" if "a \<in> set acts" for a
    using scan_lines [OF scan that] by auto
  then show ?thesis using other_not_congratulation unfolding congratulates_def by blast
qed

lemma title_quiet: "\<not> congratulates k [Print (BOLD @ s)]"
proof -
  have "other (Print (BOLD @ s))" "BOLD @ s \<noteq> [LF, LF] @ congratulation k @ [LF]" by (simp_all add: BOLD_def)
  then show ?thesis using other_not_congratulation [of "Print (BOLD @ s)" k] by (auto simp: congratulates_def)
qed

lemma watch_start_cases:
  "case watch_start run exs of (start, acts) \<Rightarrow>
     raw_trace False acts \<and> \<not> raw_after False acts \<and>
     (case start of
        None \<Rightarrow> (\<forall>i < length exs. test_quiet (run i) (exs ! i)) \<and> congratulates (length exs) acts
      | Some w \<Rightarrow> watch_inv exs (\<lambda>i. test_quiet (run i) (exs ! i)) w \<and> phase w = Looping \<and> needs_retest w \<and>
          \<not> done_flags w ! current w \<and> changes w = 0 \<and>
          (\<forall>i < length exs. done_flags w ! i \<longleftrightarrow> test_quiet (run i) (exs ! i)) \<and>
          \<not> congratulates (length exs) acts)"
proof -
  let ?n = "length exs"
  obtain dn c acts where scan: "scan run ?n 0 exs (replicate ?n False) ?n = (dn, c, acts)"
    by (cases "scan run ?n 0 exs (replicate ?n False) ?n")
  have facts: "length dn = ?n" "\<forall>j < ?n. dn ! j \<longleftrightarrow> test_quiet (run j) (exs ! j)"
    "if c = ?n then \<forall>j < ?n. dn ! j else c < ?n \<and> \<not> dn ! c" "raw_trace False acts" "\<not> raw_after False acts"
    using scan_ok [of "replicate ?n False" 0 exs ?n ?n run] scan by (auto split: if_splits)
  let ?title = "Print (BOLD @ BLUE @ ''OS Camp'' @ RESET @ '' - Scanning exercise progress...'' @ [LF, LF])"
  have quiet: "\<not> congratulates ?n (?title # acts)"
    using scan_quiet [OF scan, of ?n] title_quiet [of ?n] congratulates_simps(2) [of ?n "[?title]" acts] by auto
  show ?thesis
  proof (cases "c = ?n")
    case True
    have "congratulates ?n (?title # acts @ [Print ([LF, LF] @ congratulation ?n @ [LF])])"
      by (simp add: congratulates_def)
    then show ?thesis using True facts scan by (simp add: watch_start_def Let_def)
  next
    case False
    then have "\<not> list_all (\<lambda>d. d) dn" using facts(1,3) by (auto simp: list_all_length)
    then show ?thesis using False facts scan quiet by (simp add: watch_start_def Let_def watch_inv_def)
  qed
qed

text \<open>An exercise has passed: in the scan, or in a turn.\<close>

definition has_passed :: "(nat \<Rightarrow> cargo) \<Rightarrow> turn list \<Rightarrow> Exercise list \<Rightarrow> nat \<Rightarrow> bool" where
  "has_passed run ts exs i \<longleftrightarrow> test_quiet (run i) (exs ! i) \<or> passed_in ts exs i"

lemma watch_mode_outcome:
  assumes small: "length exs < 2 ^ 56"
  shows "outcome (watch_mode ck exs run env ts)
    (\<lambda>r acts. raw_trace False acts \<and>
      (case r of
         None \<Rightarrow> (\<forall>i < length exs. test_quiet (run i) (exs ! i)) \<and> \<not> raw_after False acts \<and>
           congratulates (length exs) acts
       | Some w \<Rightarrow> watch_inv exs (has_passed run ts exs) w \<and> raw_after False acts = (phase w \<noteq> Left) \<and>
           (congratulates (length exs) acts \<longleftrightarrow> all_done w)))
    (\<lambda>e acts. e = UnwrapNone \<and> raw_trace False acts \<and> raw_after False acts = raw_works env \<and>
      (raw_works env \<longrightarrow> watcher_works env \<longrightarrow> (\<exists>t \<in> set ts. \<not> world_works t)) \<and>
      (congratulates (length exs) acts \<longrightarrow> (\<forall>i < length exs. has_passed run ts exs i)))"
proof (cases "watch_start run exs")
  case (Pair start acts)
  note facts = watch_start_cases [of exs run, unfolded Pair prod.case]
  show ?thesis
  proof (cases start)
    case None
    then show ?thesis using facts Pair by (simp add: watch_mode_def has_passed_def)
  next
    case (Some w)
    have w: "raw_trace False acts" "\<not> raw_after False acts" "phase w = Looping" "\<not> congratulates (length exs) acts"
      "watch_inv exs (\<lambda>i. test_quiet (run i) (exs ! i)) w"
      using facts Some by simp_all
    then have "\<not> all_done w" by (simp add: watch_inv_def)
    note run = watch_turns_ok [OF small w(5), of ck ts, folded has_passed_def]
    obtain acts' r where turns: "watch_turns ck exs ts w = (acts', r)" by (cases "watch_turns ck exs ts w")
    have pre: "congratulates (length exs) (acts @ Raw_mode True # acts') \<longleftrightarrow> congratulates (length exs) acts'"
      "\<not> congratulates (length exs) (acts @ [Raw_mode True])"
      using w(4) by (auto simp: congratulates_def)
    show ?thesis
    proof (cases r)
      case (Inl e)
      then show ?thesis using run turns Pair Some w pre
        by (simp add: watch_mode_def watch_setup_def run_panics_def)
    next
      case (Inr w')
      then show ?thesis using run turns Pair Some w pre \<open>\<not> all_done w\<close>
        by (simp add: watch_mode_def watch_setup_def turn_ok_def silent_def)
    qed
  qed
qed


definition a_turn :: "bool \<Rightarrow> char \<Rightarrow> turn" where
  "a_turn b k = \<lparr>cargo = (\<lambda>_. Some \<lparr>success = b, stdout = [], stderr = []\<rparr>),
     polls = Some True, reads = Some (Key \<lparr>code = Char k, control = False\<rparr>), messages = 0, restores = True\<rparr>"

definition an_exercise :: "string \<Rightarrow> Exercise" where
  "an_exercise p = \<lparr>name = p, package = p, path = [], module = [], description = [], hint = []\<rparr>"

definition all_works :: environment where
  "all_works = \<lparr>raw_works = True, watcher_works = True\<rparr>"

lemma a_turn_works: "world_works (a_turn b k)"
  by (simp add: a_turn_def world_works_def polls_ok_def)


text \<open>C30: Whatever fails, while the terminal is in raw mode everything sent to it has a carriage return
  before each line feed. A session that does not panic has left raw mode when it ends, and is in raw
  mode while its loop runs; one that panics leaves the terminal in raw mode whenever raw mode could be
  switched on.\<close>

theorem watch_mode_terminal:
  assumes "length exs < 2 ^ 56" "watch_mode ck exs run env ts = (acts, r)"
  shows "raw_trace False acts \<and>
    (raw_after False acts \<longleftrightarrow>
      (case r of Inl e \<Rightarrow> raw_works env | Inr None \<Rightarrow> False | Inr (Some w) \<Rightarrow> phase w \<noteq> Left))"
  using watch_mode_outcome [OF assms(1), of ck run env ts] assms(2)
  by (auto simp: outcome_def split: sum.splits option.splits)

theorem watch_mode_terminal_witness:
  "\<exists>acts r. watch_mode True [an_exercise ''spinlock''] (\<lambda>_ _. None) all_works [a_turn False CHR ''q''] = (acts, Inr r) \<and>
     raw_trace False acts"
proof -
  let ?exs = "[an_exercise ''spinlock'']" and ?ts = "[a_turn False CHR ''q'']"
  have h: "length ?exs < 2 ^ 56" "\<forall>t \<in> set ?ts. world_works t" by (simp_all add: a_turn_works)
  obtain acts r where run: "watch_mode True ?exs (\<lambda>_ _. None) all_works ?ts = (acts, Inr r)"
    using watch_mode_outcome [OF h(1), of True "\<lambda>_ _. None" all_works ?ts] h(2)
    by (auto simp: outcome_def all_works_def split: prod.splits sum.splits)
  with watch_mode_terminal [OF h(1) run] show ?thesis by blast
qed

end
