(* ===== verification/WatchProgress.thy ===== *)
theory WatchProgress
  imports WatchSafety
begin

text \<open>
  How a session of the watch mode goes on: with passing tests it jumps from exercise to exercise
  until all are done; and two behaviours of its state that its user may not expect.
\<close>

section \<open>Passing tests\<close>

lemma poll_event_works: "world_works t \<Longrightarrow> \<exists>e. poll_event t = Inr e"
  by (rule poll_event_cases [of t]) (auto simp: world_works_def)

lemma stopped_turn:
  assumes "phase w \<noteq> Looping" "world_works t"
  shows "finishes (watch_turn ck exs t w) (\<lambda>w' _. phase w' \<noteq> Looping \<and> done_flags w' = done_flags w)"
proof -
  obtain e where "poll_event t = Inr e" using poll_event_works [OF assms(2)] by blast
  then show ?thesis using assms
    by (cases "phase w") (auto simp: watch_turn_def wait_for_quit_def goodbye_def world_works_def Let_def)
qed

lemma stopped_turns:
  "phase w \<noteq> Looping \<Longrightarrow> \<forall>t \<in> set ts. world_works t \<Longrightarrow>
   finishes (watch_turns ck exs ts w) (\<lambda>w' _. phase w' \<noteq> Looping \<and> done_flags w' = done_flags w)"
proof (induction ts arbitrary: w)
  case (Cons t ts)
  have "finishes (watch_turn ck exs t w) (\<lambda>w' _. phase w' \<noteq> Looping \<and> done_flags w' = done_flags w)"
    using stopped_turn Cons.prems by simp
  then show ?case
    unfolding watch_turns.simps outcome_bind
  proof (rule outcome_mono)
    fix w1 :: watch assume w1: "phase w1 \<noteq> Looping \<and> done_flags w1 = done_flags w"
    with Cons.IH [of w1] Cons.prems(2)
    show "finishes (watch_turns ck exs ts w1) (\<lambda>w' _. phase w' \<noteq> Looping \<and> done_flags w' = done_flags w)"
      by simp
  qed simp
qed simp

text \<open>One turn with a passing test: all are done, or the next exercise that is not done is tested next.\<close>

lemma passing_turn:
  assumes "current w < length exs" "length (done_flags w) = length exs" "length exs < 2 ^ 56"
    and "phase w = Looping" "needs_retest w" "passes (cargo t) (exs ! current w)"
  shows "finishes (watch_turn ck exs t w) (\<lambda>w' acts.
    done_flags w' = (done_flags w)[current w := True] \<and>
    (if all_done w' then phase w' = Waiting \<and> Print (rprintln (congratulation (length exs))) \<in> set acts
     else phase w' = Looping \<and> needs_retest w' \<and> current w' < length exs \<and> \<not> done_flags w' ! current w'))"
proof -
  let ?w = "w\<lparr>changes := changes w + messages t\<rparr>" and ?dn = "(done_flags w)[current w := True]"
  have r: "finishes (retest ck exs (cargo t) ?w) (\<lambda>(a, w1) acts. phase w1 = phase w \<and> done_flags w1 = ?dn \<and>
      (a = All_passed \<longrightarrow> Print (rprintln (congratulation (length exs))) \<in> set acts) \<and>
      (case find_next_incomplete ?dn (current w) of
         None \<Rightarrow> a = All_passed \<and> current w1 = current w
       | Some j \<Rightarrow> a = Next_turn \<and> current w1 = j \<and> needs_retest w1))"
    by (rule outcome_mono [OF retest_passes [of ?w exs "cargo t" ck]]) (use assms in \<open>auto simp: raw_congratulates split: option.splits\<close>)
  show ?thesis
  proof (cases "find_next_incomplete ?dn (current w)")
    case None
    then have "list_all (\<lambda>d. d) ?dn" using find_next_incomplete_None [of "current w" ?dn] assms(1,2) by simp
    then show ?thesis using None r assms(4,5)
      by (auto simp: watch_turn_def Let_def outcome_bind elim!: outcome_mono)
  next
    case (Some j)
    then have j: "j < length exs" "\<not> ?dn ! j" using find_next_incomplete_bound [OF Some] assms(2) by simp_all
    then have "\<not> list_all (\<lambda>d. d) ?dn" using assms(2) by (auto simp: list_all_length)
    then show ?thesis using Some j r assms(4,5)
      by (auto simp: watch_turn_def Let_def outcome_bind elim!: outcome_mono)
  qed
qed

lemma passing_turns:
  assumes "length exs < 2 ^ 56" "\<forall>t \<in> set ts. world_works t \<and> (\<forall>ex \<in> set exs. passes (cargo t) ex)"
  shows "current w < length exs \<Longrightarrow> length (done_flags w) = length exs \<Longrightarrow> phase w = Looping \<Longrightarrow>
    needs_retest w \<Longrightarrow> \<not> done_flags w ! current w \<Longrightarrow> count_open (done_flags w) \<le> length ts \<Longrightarrow>
    finishes (watch_turns ck exs ts w) (\<lambda>w' _. phase w' \<noteq> Looping \<and> all_done w')"
  using assms(2)
proof (induction ts arbitrary: w)
  case Nil
  then have "all_done w" using count_open_0 [of "done_flags w"] by simp
  then show ?case using Nil.prems(1,2,5) by (simp add: list_all_length)
next
  case (Cons t ts)
  have "passes (cargo t) (exs ! current w)" using Cons.prems(1,7) by simp
  note turn = passing_turn [OF Cons.prems(1,2) assms(1) Cons.prems(3,4) this, of ck]
  show ?case
    unfolding watch_turns.simps outcome_bind
  proof (rule outcome_mono [OF turn])
    fix w1 acts1
    assume t: "done_flags w1 = (done_flags w)[current w := True] \<and>
      (if all_done w1 then phase w1 = Waiting \<and> Print (rprintln (congratulation (length exs))) \<in> set acts1
       else phase w1 = Looping \<and> needs_retest w1 \<and> current w1 < length exs \<and> \<not> done_flags w1 ! current w1)"
    have fewer: "count_open (done_flags w1) \<le> length ts" "length (done_flags w1) = length exs"
      using count_open_set [of "current w" "done_flags w"] Cons.prems(1,2,5,6) t by simp_all
    show "finishes (watch_turns ck exs ts w1) (\<lambda>w' _. phase w' \<noteq> Looping \<and> all_done w')"
    proof (cases "all_done w1")
      case True
      then have "phase w1 \<noteq> Looping" using t by simp
      from stopped_turns [OF this, of ts ck exs] True Cons.prems(7) show ?thesis
        by (auto elim!: outcome_mono)
    next
      case False
      then have "phase w1 = Looping" "needs_retest w1" "current w1 < length exs" "\<not> done_flags w1 ! current w1"
        using t [THEN conjunct2] by simp_all
      then show ?thesis using Cons.IH [of w1] fewer Cons.prems(7) by simp
    qed
  qed simp
qed

lemma count_open_map: "count_open (map f [0..<n]) = length (filter (\<lambda>i. \<not> f i) [0..<n])"
  by (simp add: count_open_def filter_map comp_def)



section \<open>An exercise stays done\<close>

text \<open>A turn in which the test fails and the user goes to the next or the previous exercise.\<close>

lemma failing_turn:
  assumes "current w < length exs" "length (done_flags w) = length exs" "length exs < 2 ^ 56"
    and "phase w = Looping" "needs_retest w" "changes w = 0" "k = CHR ''n'' \<or> k = CHR ''p''"
  shows "finishes (watch_turn ck exs (a_turn False k) w) (\<lambda>w' _.
    done_flags w' = done_flags w \<and> phase w' = Looping \<and> needs_retest w' \<and> changes w' = 0 \<and>
    current w' = (if k = CHR ''n'' then (current w + 1) mod length exs
      else if 0 < current w then current w - 1 else length exs - 1))"
proof -
  let ?t = "a_turn False k"
  have run: "cargo ?t (test_args (exs ! current w)) \<noteq> None" "\<not> passes (cargo ?t) (exs ! current w)"
    by (simp_all add: a_turn_def passes_def)
  have w: "w\<lparr>changes := changes w + messages ?t\<rparr> = w" using assms(6) by (simp add: a_turn_def)
  obtain acts w1 where r: "retest ck exs (cargo ?t) w = (acts, Inr (Poll_events, w1))" "phase w1 = phase w"
    "done_flags w1 = done_flags w" "current w1 = current w" "changes w1 = changes w"
    using retest_fails [OF assms(1-3) run, of ck] by (auto simp: finishes_iff)
  have "sub_usize ck (length exs) 1 = Inr (length exs - 1)" using assms(1) by (simp add: sub_usize_def)
  moreover have "poll_event ?t = Inr (Some (Key \<lparr>code = Char k, control = False\<rparr>))"
    by (simp add: a_turn_def poll_event_def)
  moreover have "exs \<noteq> []" using assms(1) by auto
  ultimately show ?thesis
    unfolding watch_turn_def Let_def w
    using r assms(4-7)
    by (auto simp: handle_event_def handle_key_def Let_def poll_changes_def outcome_bind)
qed

text \<open>C29: Once done, an exercise stays done: here the first exercise passes in the scan, is broken and
  fails when it is tested again, and after the second one passes the program still congratulates
  and says that all exercises have passed.\<close>

theorem watch_mode_stale_done:
  "\<exists>w acts. watch_mode ck [a, b] (\<lambda>i _. Some \<lparr>success = (i = 0), stdout = [], stderr = []\<rparr>) all_works
      [a_turn False CHR ''p'', a_turn False CHR ''n'', a_turn True CHR ''x''] = (acts, Inr (Some w)) \<and>
    phase w = Waiting \<and> done_flags w = [True, True] \<and> Print (rprintln (congratulation 2)) \<in> set acts"
proof -
  let ?run = "\<lambda>i _. Some \<lparr>success = (i = (0 :: nat)), stdout = [], stderr = []\<rparr>"
  let ?w0 = "\<lparr>phase = Looping, current = 1, done_flags = [True, False], needs_retest = True,
    last_result = None, show_hint = False, show_list = False, changes = 0\<rparr>"
  let ?t1 = "a_turn False CHR ''p''" and ?t2 = "a_turn False CHR ''n''" and ?t3 = "a_turn True CHR ''x''"
  obtain acts0 where start: "watch_start ?run [a, b] = (Some ?w0, acts0)"
    by (simp add: watch_start_def Let_def test_quiet_def)
  have n: "length [a, b] < 2 ^ 56" by simp
  obtain acts1 w1 where t1: "watch_turn ck [a, b] ?t1 ?w0 = (acts1, Inr w1)"
    "done_flags w1 = [True, False]" "phase w1 = Looping" "needs_retest w1" "changes w1 = 0" "current w1 = 0"
    using failing_turn [of ?w0 "[a, b]" "CHR ''p''" ck] by (auto simp: finishes_iff)
  obtain acts2 w2 where t2: "watch_turn ck [a, b] ?t2 w1 = (acts2, Inr w2)"
    "done_flags w2 = [True, False]" "phase w2 = Looping" "needs_retest w2" "changes w2 = 0" "current w2 = 1"
    using failing_turn [of w1 "[a, b]" "CHR ''n''" ck] t1 by (auto simp: finishes_iff)
  have "passes (cargo ?t3) ([a, b] ! current w2)" by (simp add: a_turn_def passes_def)
  from passing_turn [OF _ _ n t2(3,4) this, of ck] t2(2,6) obtain acts3 w3 where t3:
    "watch_turn ck [a, b] ?t3 w2 = (acts3, Inr w3)" "done_flags w3 = [True, True]" "phase w3 = Waiting"
    "Print (rprintln (congratulation 2)) \<in> set acts3"
    by (auto simp: finishes_iff numeral_2_eq_2)
  have "watch_mode ck [a, b] ?run all_works [?t1, ?t2, ?t3] = (acts0 @ Raw_mode True # acts1 @ acts2 @ acts3, Inr (Some w3))"
    using start t1(1) t2(1) t3(1) by (simp add: watch_mode_def watch_setup_def all_works_def silent_def)
  then show ?thesis using t3(2-4) by auto
qed

section \<open>The key for the list\<close>

text \<open>Pressing \<^verbatim>\<open>h\<close> while the list is shown draws the screen without the list, but \<open>show_list\<close> stays set;
  the next \<^verbatim>\<open>l\<close> then clears it, and draws the screen without the list again.\<close>

lemma list_key_lost:
  "handle_key ck exs \<lparr>code = Char (CHR ''h''), control = c\<rparr> (w\<lparr>show_list := True\<rparr>) =
     (case full_redraw ck exs (current w) (count_done (done_flags w)) (last_result w)
         (\<not> show_hint w) False (done_flags w) of
        Inl e \<Rightarrow> silent (Inl e)
      | Inr acts \<Rightarrow> (acts, Inr (False, w\<lparr>show_list := True, show_hint := \<not> show_hint w\<rparr>)))"
  "handle_key ck exs \<lparr>code = Char (CHR ''l''), control = c\<rparr> (w\<lparr>show_list := True\<rparr>) =
     (case full_redraw ck exs (current w) (count_done (done_flags w)) (last_result w)
         (show_hint w) False (done_flags w) of
        Inl e \<Rightarrow> silent (Inl e)
      | Inr acts \<Rightarrow> (acts, Inr (False, w\<lparr>show_list := False\<rparr>)))"
  by (simp_all add: handle_key_def Let_def)

end
