(* ===== verification/WatchFailure.thy ===== *)
theory WatchFailure
  imports WatchSafety
begin

text \<open>
  \<^verbatim>\<open>watch_mode\<close> of \<^verbatim>\<open>cli/src/main.rs\<close> when something it needs fails: why it panics, and in what state it
  then leaves the terminal.
\<close>

text \<open>Without \<^verbatim>\<open>cargo\<close> no exercise passes the scan, so that the session comes to its loop.\<close>

lemma watch_start_no_cargo:
  assumes "exs \<noteq> []" "\<And>i a. run i a = None"
  obtains w acts where "watch_start run exs = (Some w, acts)"
    "watch_inv exs (\<lambda>i. test_quiet (run i) (exs ! i)) w" "tests_now w"
proof (cases "watch_start run exs")
  case (Pair start acts)
  note facts = watch_start_cases [of exs run, unfolded Pair prod.case]
  have "\<not> test_quiet (run 0) (exs ! 0)" using assms(2) by (simp add: test_quiet_def)
  then show ?thesis using that Pair assms(1) facts by (cases start) (auto simp: tests_now_def)
qed

lemma watch_turn_no_cargo:
  assumes "watch_inv exs P w" "length exs < 2 ^ 56" "tests_now w" "cargo t (test_args (exs ! current w)) = None"
  shows "\<exists>acts. watch_turn ck exs t w = (acts, Inl UnwrapNone)"
proof -
  let ?w = "w\<lparr>changes := changes w + messages t\<rparr>"
  have "current w < length exs" "length (done_flags w) = length exs" using assms(1) by (simp_all add: watch_inv_def)
  then obtain acts where "retest ck exs (cargo t) ?w = (acts, Inl UnwrapNone)"
    using retest_panics [of ?w exs "cargo t" ck] assms(2,4) by auto
  then show ?thesis using assms(3) by (simp add: watch_turn_def tests_now_def Let_def)
qed

text \<open>C32: When the watch mode panics (printing is taken to succeed): only because raw mode, the file watcher,
  \<^verbatim>\<open>cargo\<close>, polling or reading events, or leaving raw mode failed; and nothing restores the terminal,
  which is then left in raw mode whenever raw mode could be switched on. Without \<^verbatim>\<open>cargo\<close> this is how
  every session ends, at its first test, since the scan before it takes the failure for an exercise that
  does not pass.\<close>

theorem watch_mode_panics:
  assumes "length exs < 2 ^ 56" "watch_mode ck exs run env ts = (acts, r)"
  shows "(\<forall>e. r = Inl e \<longrightarrow> e = UnwrapNone \<and> raw_after False acts = raw_works env \<and>
       (\<not> raw_works env \<or> \<not> watcher_works env \<or>
        (\<exists>t \<in> set ts. (\<exists>a. cargo t a = None) \<or> polls t = None \<or> (polls t = Some True \<and> reads t = None) \<or>
          \<not> restores t))) \<and>
    (exs \<noteq> [] \<longrightarrow> ts \<noteq> [] \<longrightarrow> (\<forall>i a. run i a = None) \<longrightarrow> (\<forall>a. cargo (hd ts) a = None) \<longrightarrow> r = Inl UnwrapNone)"
proof (intro conjI impI)
  show "\<forall>e. r = Inl e \<longrightarrow> e = UnwrapNone \<and> raw_after False acts = raw_works env \<and>
       (\<not> raw_works env \<or> \<not> watcher_works env \<or>
        (\<exists>t \<in> set ts. (\<exists>a. cargo t a = None) \<or> polls t = None \<or> (polls t = Some True \<and> reads t = None) \<or>
          \<not> restores t))"
    using watch_mode_outcome [OF assms(1), of ck run env ts] assms(2)
    by (auto simp: outcome_def world_works_def polls_ok_def)
  assume no: "exs \<noteq> []" "ts \<noteq> []" "\<forall>i a. run i a = None" "\<forall>a. cargo (hd ts) a = None"
  then obtain w acts1 where w: "watch_start run exs = (Some w, acts1)"
    "watch_inv exs (\<lambda>i. test_quiet (run i) (exs ! i)) w" "tests_now w"
    using watch_start_no_cargo by metis
  obtain acts2 where "watch_turn ck exs (hd ts) w = (acts2, Inl UnwrapNone)"
    using watch_turn_no_cargo [OF w(2) assms(1) w(3)] no(4) by blast
  then have "watch_turns ck exs ts w = (acts2, Inl UnwrapNone)" using no(2) by (cases ts) simp_all
  then show "r = Inl UnwrapNone" using assms(2) w(1)
    by (auto simp: watch_mode_def watch_setup_def split: if_splits)
qed

theorem watch_mode_panics_witness:
  "\<exists>acts. watch_mode True [an_exercise ''spinlock''] (\<lambda>_ _. None) all_works
       [(a_turn False CHR ''x'')\<lparr>cargo := \<lambda>_. None\<rparr>] = (acts, Inl UnwrapNone) \<and> raw_after False acts"
proof -
  let ?exs = "[an_exercise ''spinlock'']" and ?ts = "[(a_turn False CHR ''x'')\<lparr>cargo := \<lambda>_. None\<rparr>]"
  obtain acts r where run: "watch_mode True ?exs (\<lambda>_ _. None) all_works ?ts = (acts, r)"
    by (cases "watch_mode True ?exs (\<lambda>_ _. None) all_works ?ts")
  have "length ?exs < 2 ^ 56" by simp
  from watch_mode_panics [OF this run] have "r = Inl UnwrapNone" "raw_after False acts"
    by (auto simp: all_works_def)
  with run show ?thesis by blast
qed

end
