(* ===== verification/CliModes.thy ===== *)
theory CliModes
  imports WatchMode
begin

text \<open>
  \<^verbatim>\<open>cli/src/main.rs\<close>: loading the exercises, the modes that run once, and \<^verbatim>\<open>main\<close>. The files and the
  TOML parser are parameters: \<open>files p\<close> is the content of file \<open>p\<close> when it can be read, and
  \<open>parse\<close> the exercises a configuration describes when it is one. A mode gives what it does and how
  it ends; \<open>run i\<close> is what \<^verbatim>\<open>cargo\<close> answers in the \<open>i\<close>-th test.
\<close>

section \<open>The modes\<close>

datatype ending = Returns | Exit nat | Panics panic | Still_running

definition println :: "string \<Rightarrow> action" where
  "println s = Print (s @ [LF])"

definition eprintln :: "string \<Rightarrow> action" where
  "eprintln s = Eprint (s @ [LF])"

fun load_from :: "(string \<Rightarrow> string option) \<Rightarrow> (string \<Rightarrow> Exercise list option) \<Rightarrow> string list \<Rightarrow>
  action list \<times> (ending + Exercise list)"
where
  "load_from files parse [] =
     ([eprintln (RED @ ''Error:'' @ RESET @
         '' Could not find exercises.toml, please run in project root directory'')], Inl (Exit 1))"
| "load_from files parse (p # ps) =
     (case files p of
        Some content \<Rightarrow>
          (case parse content of
             Some exs \<Rightarrow> ([], Inr exs)
           | None \<Rightarrow> ([], Inl (Panics UnwrapNone)))
      | None \<Rightarrow> load_from files parse ps)"

definition load_exercises ::
  "(string \<Rightarrow> string option) \<Rightarrow> (string \<Rightarrow> Exercise list option) \<Rightarrow> action list \<times> (ending + Exercise list)"
where
  "load_exercises files parse =
     load_from files parse [''exercises.toml'', ''../exercises.toml'']"

text \<open>The loop of \<^verbatim>\<open>list_mode\<close> from exercise \<open>i\<close> on, with the number of passed ones so far.\<close>

fun list_loop :: "(nat \<Rightarrow> cargo) \<Rightarrow> nat \<Rightarrow> string \<Rightarrow> nat \<Rightarrow> Exercise list \<Rightarrow> nat \<times> action list" where
  "list_loop run i cur_module n [] = (n, [])"
| "list_loop run i cur_module n (ex # exs) =
     (let heading =
            (if module ex \<noteq> cur_module
             then [println ([LF] @ ''  '' @ YELLOW @ ''['' @ module ex @ '']'' @ RESET)] else []);
          ok = test_quiet (run i) ex;
          n' = (if ok then n + 1 else n);
          status = (if ok then GREEN @ check_mark @ RESET else RED @ cross_mark @ RESET);
          (m, acts) = list_loop run (Suc i) (module ex) n' exs
      in (m, heading @
             [println (''  '' @ status @ '' '' @ pad_left 2 (show_nat (i + 1)) @ ''. '' @
                pad_right 22 (name ex) @ '' ('' @ DIM @ ''cargo test -p '' @ package ex @ RESET @ '')'')] @
             acts))"

definition list_mode :: "bool \<Rightarrow> (nat \<Rightarrow> cargo) \<Rightarrow> Exercise list \<Rightarrow> action list \<times> ending" where
  "list_mode ck run exs =
     (let (n, acts) = list_loop run 0 [] 0 exs;
          acts = println (BOLD @ BLUE @ ''OS Camp - Exercise list'' @ RESET @ [LF]) # acts
      in case progress_bar ck n (length exs) 20 of
           Inl e \<Rightarrow> (acts, Panics e)
         | Inr bar \<Rightarrow> (acts @ [println ([LF] @ ''  Progress: '' @ bar @ [LF])], Returns))"

fun check_loop :: "(nat \<Rightarrow> cargo) \<Rightarrow> nat \<Rightarrow> nat \<Rightarrow> nat \<Rightarrow> Exercise list \<Rightarrow> nat \<times> action list" where
  "check_loop run total_n i n [] = (n, [])"
| "check_loop run total_n i n (ex # exs) =
     (let line = Print (''  ['' @ pad_left 2 (show_nat (i + 1)) @ ''/'' @ show_nat total_n @ ''] '' @
                   pad_right 22 (name ex) @ '' '');
          ok = test_quiet (run i) ex;
          verdict = println (if ok then GREEN @ check_mark @ '' PASS'' @ RESET
                             else RED @ cross_mark @ '' FAIL'' @ RESET);
          (m, acts) = check_loop run total_n (Suc i) (if ok then n + 1 else n) exs
      in (m, [line, verdict] @ acts))"

definition check_mode :: "(nat \<Rightarrow> cargo) \<Rightarrow> Exercise list \<Rightarrow> action list \<times> ending" where
  "check_mode run exs =
     (let total_n = length exs; (n, acts) = check_loop run total_n 0 0 exs in
      ([println (BOLD @ BLUE @ ''OS Camp - Check all exercises'' @ RESET @ [LF])] @ acts @
       [println ([LF] @ ''  '' @ BOLD @ ''Result: '' @ show_nat n @ ''/'' @ show_nat total_n @
          '' passed'' @ RESET)] @
       (if n = total_n then [println (''  '' @ GREEN @ party @ '' All passed!'' @ RESET)] else []),
       Returns))"

definition find_exercise :: "Exercise list \<Rightarrow> string \<Rightarrow> action list \<times> (ending + Exercise)" where
  "find_exercise exs nm =
     (case List.find (\<lambda>e. package e = nm) exs of
        Some e \<Rightarrow> ([], Inr e)
      | None \<Rightarrow> ([eprintln (''Exercise not found: '' @ nm),
                  eprintln (''Use '' @ [CHR 0x27] @ ''oscamp list'' @ [CHR 0x27] @ '' to see all exercises'')],
                 Inl (Exit 1)))"

definition run_mode :: "cargo \<Rightarrow> Exercise list \<Rightarrow> string option \<Rightarrow> action list \<times> ending" where
  "run_mode run exs arg =
     (case arg of
        None \<Rightarrow> ([eprintln ''Usage: oscamp run <package>''], Exit 1)
      | Some nm \<Rightarrow>
          (case find_exercise exs nm of
             (acts, Inl e) \<Rightarrow> (acts, e)
           | (acts, Inr ex) \<Rightarrow>
               (let acts = acts @ [println (BOLD @ play @ '' '' @ name ex @ '' - '' @ description ex @ RESET),
                      println (''  '' @ page @ '' '' @ path ex @ [LF])]
                in case test_exercise run ex of
                     Inl e \<Rightarrow> (acts, Panics e)
                   | Inr r \<Rightarrow>
                       (acts @ [Print (test_output r)] @
                        (if passed r
                         then [println ([LF] @ BOLD @ GREEN @ check_mark @ '' Test passed!'' @ RESET)]
                         else [println ([LF] @ BOLD @ RED @ cross_mark @ '' Test failed'' @ RESET),
                               println (''  '' @ bulb @ '' Use '' @ [CHR 0x27] @ ''oscamp hint '' @ nm @ [CHR 0x27] @
                                 '' to view hint'')]),
                        Returns))))"

definition hint_mode :: "Exercise list \<Rightarrow> string option \<Rightarrow> action list \<times> ending" where
  "hint_mode exs arg =
     (case arg of
        None \<Rightarrow> ([eprintln ''Usage: oscamp hint <package>''], Exit 1)
      | Some nm \<Rightarrow>
          (case find_exercise exs nm of
             (acts, Inl e) \<Rightarrow> (acts, e)
           | (acts, Inr ex) \<Rightarrow>
               (acts @ [println (BOLD @ YELLOW @ bulb @ '' '' @ name ex @ '' - Hint:'' @ RESET @ [LF]),
                  println (hint ex)], Returns)))"

definition print_usage :: "action list" where
  "print_usage =
     [println (BOLD @ BLUE @ ''OS Camp'' @ RESET @ '' - Rust & OS Advanced Experiments'' @ [LF]),
      println (''Usage: oscamp [command]'' @ [LF]),
      println ''Commands:'',
      println (''  '' @ BOLD @ ''watch'' @ RESET @ ''    Interactive exercise mode (default) - real-time file monitoring''),
      println (''  '' @ BOLD @ ''list'' @ RESET @ ''     View completion status of all exercises''),
      println (''  '' @ BOLD @ ''check'' @ RESET @ ''    Check all exercises in batch''),
      println (''  '' @ BOLD @ ''run'' @ RESET @ ''      Run specified exercise  (oscamp run <package>)''),
      println (''  '' @ BOLD @ ''hint'' @ RESET @ ''     View exercise hint  (oscamp hint <package>)''),
      println (''  '' @ BOLD @ ''help'' @ RESET @ ''     Show this help message'')]"

definition arg_at :: "string list \<Rightarrow> nat \<Rightarrow> string option" where
  "arg_at args i = (if i < length args then Some (args ! i) else None)"

definition run_watch ::
  "bool \<Rightarrow> Exercise list \<Rightarrow> (nat \<Rightarrow> cargo) \<Rightarrow> environment \<Rightarrow> turn list \<Rightarrow> action list \<times> ending"
where
  "run_watch ck exs run env ts =
     (case watch_mode ck exs run env ts of
        (acts, Inl e) \<Rightarrow> (acts, Panics e)
      | (acts, Inr None) \<Rightarrow> (acts, Returns)
      | (acts, Inr (Some w)) \<Rightarrow> (acts, if phase w = Left then Returns else Still_running))"

definition dispatch ::
  "bool \<Rightarrow> string list \<Rightarrow> Exercise list \<Rightarrow> (nat \<Rightarrow> cargo) \<Rightarrow> environment \<Rightarrow> turn list \<Rightarrow> action list \<times> ending"
where
  "dispatch ck args exs run env ts =
     (case arg_at args 1 of
        None \<Rightarrow> run_watch ck exs run env ts
      | Some c \<Rightarrow>
          if c = ''watch'' then run_watch ck exs run env ts
          else if c = ''list'' then list_mode ck run exs
          else if c = ''check'' then check_mode run exs
          else if c = ''run'' then run_mode (run 0) exs (arg_at args 2)
          else if c = ''hint'' then hint_mode exs (arg_at args 2)
          else if c = ''help'' \<or> c = ''--help'' \<or> c = ''-h'' then (print_usage, Returns)
          else (eprintln (''Unknown command: '' @ c) # print_usage, Exit 1))"

definition main ::
  "bool \<Rightarrow> string list \<Rightarrow> (string \<Rightarrow> string option) \<Rightarrow> (string \<Rightarrow> Exercise list option) \<Rightarrow>
   (nat \<Rightarrow> cargo) \<Rightarrow> environment \<Rightarrow> turn list \<Rightarrow> action list \<times> ending"
where
  "main ck args files parse run env ts =
     (case load_exercises files parse of
        (acts, Inl e) \<Rightarrow> (acts, e)
      | (acts, Inr exs) \<Rightarrow>
          (case dispatch ck args exs run env ts of (acts', e) \<Rightarrow> (acts @ acts', e)))"

section \<open>What they print\<close>

text \<open>The numbers of the exercises that pass.\<close>

definition passing :: "(nat \<Rightarrow> cargo) \<Rightarrow> nat \<Rightarrow> Exercise list \<Rightarrow> nat list" where
  "passing run i exs = filter (\<lambda>k. test_quiet (run (i + k)) (exs ! k)) [0..<length exs]"

lemma passing_Nil [simp]: "passing run i [] = []"
  by (simp add: passing_def)

lemma passing_Cons:
  "length (passing run i (ex # exs)) =
     (if test_quiet (run i) ex then Suc (length (passing run (Suc i) exs)) else length (passing run (Suc i) exs))"
proof -
  have "[0..<length (ex # exs)] = 0 # map Suc [0..<length exs]"
    by (simp add: map_Suc_upt upt_conv_Cons del: upt_Suc)
  then show ?thesis by (simp add: passing_def filter_map comp_def)
qed

lemma passing_le: "length (passing run i exs) \<le> length exs"
  by (simp add: passing_def) (metis diff_zero length_filter_le length_upt)

lemma length_filter_eq: "length (filter P xs) = length xs \<longleftrightarrow> (\<forall>x \<in> set xs. P x)"
proof -
  have "length (filter P xs) = length xs \<longleftrightarrow> filter (\<lambda>x. \<not> P x) xs = []"
    using sum_length_filter_compl [of P xs] by auto
  then show ?thesis by (simp add: filter_empty_conv)
qed

lemma passing_all: "length (passing run 0 exs) = length exs \<longleftrightarrow> (\<forall>k < length exs. test_quiet (run k) (exs ! k))"
  using length_filter_eq [of "\<lambda>k. test_quiet (run k) (exs ! k)" "[0..<length exs]"]
  by (simp add: passing_def Ball_def)

text \<open>What \<^verbatim>\<open>check\<close> prints about one exercise.\<close>

definition check_line :: "(nat \<Rightarrow> cargo) \<Rightarrow> nat \<Rightarrow> nat \<Rightarrow> Exercise \<Rightarrow> action list" where
  "check_line run total_n i ex =
     [Print (''  ['' @ pad_left 2 (show_nat (i + 1)) @ ''/'' @ show_nat total_n @ ''] '' @ pad_right 22 (name ex) @ '' ''),
      println (if test_quiet (run i) ex then GREEN @ check_mark @ '' PASS'' @ RESET
               else RED @ cross_mark @ '' FAIL'' @ RESET)]"

lemma check_loop_lines:
  "check_loop run total_n i n exs =
     (n + length (passing run i exs),
      concat (map (\<lambda>(k, ex). check_line run total_n k ex) (enumerate i exs)))"
  by (induction run total_n i n exs rule: check_loop.induct)
    (auto simp: passing_Cons check_line_def Let_def)

text \<open>\<^verbatim>\<open>check\<close> reports on every exercise once, in order, and counts exactly those whose test passes;
  it says that all have passed exactly when all have, and returns in any case.\<close>

theorem check_mode_report:
  "check_mode run exs =
     ([println (BOLD @ BLUE @ ''OS Camp - Check all exercises'' @ RESET @ [LF])] @
      concat (map (\<lambda>(i, ex). check_line run (length exs) i ex) (enumerate 0 exs)) @
      [println ([LF] @ ''  '' @ BOLD @ ''Result: '' @
         show_nat (card {i. i < length exs \<and> test_quiet (run i) (exs ! i)}) @ ''/'' @
         show_nat (length exs) @ '' passed'' @ RESET)] @
      (if \<forall>i < length exs. test_quiet (run i) (exs ! i)
       then [println (''  '' @ GREEN @ party @ '' All passed!'' @ RESET)] else []),
      Returns)"
proof -
  have "passing run 0 exs = filter (\<lambda>i. test_quiet (run i) (exs ! i)) [0..<length exs]"
    by (simp add: passing_def)
  moreover have "set (filter (\<lambda>i. test_quiet (run i) (exs ! i)) [0..<length exs]) =
      {i. i < length exs \<and> test_quiet (run i) (exs ! i)}"
    by auto
  ultimately have count: "card {i. i < length exs \<and> test_quiet (run i) (exs ! i)} = length (passing run 0 exs)"
    by (metis distinct_card distinct_filter distinct_upt)
  show ?thesis
    unfolding check_mode_def check_loop_lines Let_def prod.case add_0 count passing_all ..
qed

text \<open>What \<^verbatim>\<open>list\<close> prints about one exercise, without a heading.\<close>

definition list_line :: "(nat \<Rightarrow> cargo) \<Rightarrow> nat \<Rightarrow> Exercise \<Rightarrow> action" where
  "list_line run i ex =
     println (''  '' @ (if test_quiet (run i) ex then GREEN @ check_mark @ RESET else RED @ cross_mark @ RESET) @
       '' '' @ pad_left 2 (show_nat (i + 1)) @ ''. '' @ pad_right 22 (name ex) @ '' ('' @ DIM @
       ''cargo test -p '' @ package ex @ RESET @ '')'')"

definition list_heading :: "Exercise \<Rightarrow> action" where
  "list_heading ex = println ([LF] @ ''  '' @ YELLOW @ ''['' @ module ex @ '']'' @ RESET)"

lemma list_loop_lines:
  "list_loop run i m n exs =
     (n + length (passing run i exs),
      concat (map (\<lambda>(k, old, ex). (if module ex \<noteq> old then [list_heading ex] else []) @ [list_line run k ex])
        (enumerate i (zip (m # map module exs) exs))))"
  by (induction run i m n exs rule: list_loop.induct)
    (auto simp: passing_Cons list_line_def list_heading_def Let_def)

text \<open>\<^verbatim>\<open>list\<close> shows every exercise once, in order, with a heading exactly where the module differs from
  that of the exercise before, and ends with the progress bar for the number of those that pass; it
  does not panic.\<close>

theorem list_mode_report:
  assumes "0 < length exs" "length exs < 2 ^ 56"
  shows "\<exists>bar. progress_bar ck (length (passing run 0 exs)) (length exs) 20 = Inr bar \<and>
    list_mode ck run exs =
      (println (BOLD @ BLUE @ ''OS Camp - Exercise list'' @ RESET @ [LF]) #
       concat (map (\<lambda>(i, old, ex). (if module ex \<noteq> old then [list_heading ex] else []) @ [list_line run i ex])
         (enumerate 0 (zip ([] # map module exs) exs))) @
       [println ([LF] @ ''  Progress: '' @ bar @ [LF])],
       Returns)"
proof -
  obtain bar where "progress_bar ck (length (passing run 0 exs)) (length exs) 20 = Inr bar"
    using progress_bar_header [OF passing_le assms] by blast
  then show ?thesis by (simp add: list_mode_def list_loop_lines)
qed

theorem list_mode_report_witness:
  "\<exists>acts. list_mode True (\<lambda>_ _. None)
     [\<lparr>name = ''a'', package = ''a'', path = [], module = ''m'', description = [], hint = []\<rparr>] = (acts, Returns)"
  using list_mode_report
    [of "[\<lparr>name = ''a'', package = ''a'', path = [], module = ''m'', description = [], hint = []\<rparr>]" True
      "\<lambda>_ _. None"]
  by auto

section \<open>How they end\<close>

lemma find_exercise_cases:
  "find_exercise exs nm = (acts, r) \<longleftrightarrow>
     (case List.find (\<lambda>e. package e = nm) exs of
        Some e \<Rightarrow> acts = [] \<and> r = Inr e
      | None \<Rightarrow> r = Inl (Exit 1) \<and> acts = fst (find_exercise exs nm))"
  by (auto simp: find_exercise_def split: option.split)

lemma find_exercise_error: "find_exercise exs nm = (acts, Inl e) \<Longrightarrow> e = Exit 1 \<and> nm \<notin> package ` set exs"
  by (auto simp: find_exercise_def find_None_iff split: option.splits)

lemma find_exercise_found:
  "find_exercise exs nm = (acts, Inr ex) \<Longrightarrow> package ex = nm \<and> ex \<in> set exs"
  by (auto simp: find_exercise_def find_Some_iff split: option.splits)

lemma run_watch_end: "snd (run_watch ck exs run env ts) \<noteq> Exit n"
  by (auto simp: run_watch_def split: sum.split option.split prod.split)

lemma list_mode_end: "snd (list_mode ck run exs) \<noteq> Exit n"
  by (auto simp: list_mode_def Let_def split: sum.split prod.split)

lemma check_mode_end: "snd (check_mode run exs) = Returns"
  by (auto simp: check_mode_def Let_def split: prod.split)

lemma run_mode_end:
  "snd (run_mode run exs arg) = Exit n \<longleftrightarrow>
     n = 1 \<and> (case arg of None \<Rightarrow> True | Some nm \<Rightarrow> nm \<notin> package ` set exs)"
  by (auto simp: run_mode_def Let_def find_exercise_def find_None_iff find_Some_iff
      split: option.split sum.split prod.split)

lemma hint_mode_end:
  "snd (hint_mode exs arg) = Exit n \<longleftrightarrow>
     n = 1 \<and> (case arg of None \<Rightarrow> True | Some nm \<Rightarrow> nm \<notin> package ` set exs)"
  by (auto simp: hint_mode_def Let_def find_exercise_def find_None_iff find_Some_iff
      split: option.split sum.split prod.split)

text \<open>The commands.\<close>

definition commands :: "string set" where
  "commands = {''watch'', ''list'', ''check'', ''run'', ''hint'', ''help'', ''--help'', ''-h''}"

definition bad_args :: "string list \<Rightarrow> Exercise list \<Rightarrow> bool" where
  "bad_args args exs \<longleftrightarrow>
     (case arg_at args 1 of
        None \<Rightarrow> False
      | Some c \<Rightarrow>
          c \<notin> commands \<or>
          (c \<in> {''run'', ''hint''} \<and>
           (case arg_at args 2 of None \<Rightarrow> True | Some nm \<Rightarrow> nm \<notin> package ` set exs)))"

lemma dispatch_end: "snd (dispatch ck args exs run env ts) = Exit n \<longleftrightarrow> n = 1 \<and> bad_args args exs"
proof (cases "arg_at args 1")
  case None
  then show ?thesis by (simp add: dispatch_def bad_args_def run_watch_end)
next
  case (Some c)
  show ?thesis
  proof (cases "c \<in> commands")
    case True
    then show ?thesis using Some
      unfolding commands_def
      by (elim insertE emptyE)
        (simp_all add: dispatch_def bad_args_def commands_def run_watch_end list_mode_end check_mode_end
          run_mode_end hint_mode_end)
  next
    case False
    then show ?thesis using Some by (auto simp: dispatch_def bad_args_def commands_def)
  qed
qed

text \<open>C31: The exit status is 1 exactly when neither configuration file can be read, when the command is
  not one of the commands, or when \<^verbatim>\<open>run\<close> or \<^verbatim>\<open>hint\<close> is not given the package of an exercise. The
  configuration is loaded first, whatever the command; a file that can be read but not parsed
  is a panic even when there is a second file. A failed test does not change the status.\<close>

theorem main_exit_status:
  "snd (main ck args files parse run env ts) = Exit n \<longleftrightarrow> n = 1 \<and>
     (case (files ''exercises.toml'', files ''../exercises.toml'') of
        (None, None) \<Rightarrow> True
      | (Some content, _) \<Rightarrow> (case parse content of None \<Rightarrow> False | Some exs \<Rightarrow> bad_args args exs)
      | (None, Some content) \<Rightarrow> (case parse content of None \<Rightarrow> False | Some exs \<Rightarrow> bad_args args exs))"
  by (auto simp: main_def load_exercises_def dispatch_end
      split: option.split sum.split prod.split dest: arg_cong [where f = snd])

end
