(* ===== verification/ThreadSpawn.thy ===== *)
theory ThreadSpawn
  imports ForkJoin
begin

text \<open>
  \<^verbatim>\<open>exercises/01_concurrency_sync/01_thread_spawn/src/lib.rs\<close>: starting threads and taking their
  results. A closure given to a thread is the result it computes, or its panic. The threads of these
  functions share nothing, so a function is defined from the results of its threads; that this is
  what comes out in every interleaving is proved from the contract of task runtimes (theory
  ForkJoin), which the standard library's threads meet.
\<close>

section \<open>Signed arithmetic\<close>

definition in_i32 :: "int \<Rightarrow> bool" where
  "in_i32 x \<longleftrightarrow> - (2 ^ 31) \<le> x \<and> x < 2 ^ 31"

definition sadd_ck :: "bool \<Rightarrow> i32 \<Rightarrow> i32 \<Rightarrow> i32 res" where
  "sadd_ck ck a b = (if ck \<and> \<not> in_i32 (sint a + sint b) then Inl Overflow else Inr (a + b))"

definition smul_ck :: "bool \<Rightarrow> i32 \<Rightarrow> i32 \<Rightarrow> i32 res" where
  "smul_ck ck a b = (if ck \<and> \<not> in_i32 (sint a * sint b) then Inl Overflow else Inr (a * b))"

lemma sint_in_i32: "in_i32 (sint (a :: i32))"
  using sint_greater_eq [of a] sint_lt [of a] by (simp add: in_i32_def)

lemma sint_of_int_i32: "in_i32 x \<Longrightarrow> sint (of_int x :: i32) = x"
  unfolding in_i32_def by (simp add: int_word_sint)

lemma sint_add_i32: "in_i32 (sint a + sint b) \<Longrightarrow> sint (a + b :: i32) = sint a + sint b"
  using sint_of_int_i32 [of "sint a + sint b"] by simp

lemma sint_mul_i32: "in_i32 (sint a * sint b) \<Longrightarrow> sint (a * b :: i32) = sint a * sint b"
  using sint_of_int_i32 [of "sint a * sint b"] by simp

section \<open>The functions\<close>

text \<open>\<^verbatim>\<open>handle.join().unwrap()\<close>.\<close>

definition join_unwrap :: "'a res \<Rightarrow> 'a res" where
  "join_unwrap r = (case r of Inl e \<Rightarrow> Inl ThreadPanicked | Inr x \<Rightarrow> Inr x)"

fun double_all :: "bool \<Rightarrow> i32 list \<Rightarrow> i32 list res" where
  "double_all ck [] = Inr []"
| "double_all ck (n # ns) =
     bind_res (smul_ck ck n 2) (\<lambda>d. bind_res (double_all ck ns) (\<lambda>ds. Inr (d # ds)))"

definition double_in_thread :: "bool \<Rightarrow> i32 list \<Rightarrow> i32 list res" where
  "double_in_thread ck numbers = join_unwrap (double_all ck numbers)"

text \<open>\<^verbatim>\<open>sum::<i32>()\<close>, from left to right.\<close>

fun sum_from :: "bool \<Rightarrow> i32 \<Rightarrow> i32 list \<Rightarrow> i32 res" where
  "sum_from ck acc [] = Inr acc"
| "sum_from ck acc (x # xs) = bind_res (sadd_ck ck acc x) (\<lambda>acc'. sum_from ck acc' xs)"

definition sum_i32 :: "bool \<Rightarrow> i32 list \<Rightarrow> i32 res" where
  "sum_i32 ck xs = sum_from ck 0 xs"

definition parallel_sum :: "bool \<Rightarrow> i32 list \<Rightarrow> i32 list \<Rightarrow> (i32 \<times> i32) res" where
  "parallel_sum ck a b =
     bind_res (join_unwrap (sum_i32 ck a)) (\<lambda>x.
     bind_res (join_unwrap (sum_i32 ck b)) (\<lambda>y. Inr (x, y)))"

text \<open>The name of the thread and the milliseconds it sleeps, and the result.\<close>

definition named_sleeper :: "i32 \<Rightarrow> u64 \<Rightarrow> string \<times> u64 \<times> i32 res" where
  "named_sleeper x ms = (''sleeper'', ms, join_unwrap (Inr x))"

text \<open>\<^verbatim>\<open>THREAD_COUNT\<close> has a value for every thread; the call is made by thread \<open>t\<close>.\<close>

definition THREAD_COUNT :: "nat \<Rightarrow> usize" where
  "THREAD_COUNT = (\<lambda>_. 0)"

definition increment_thread_local ::
  "bool \<Rightarrow> nat \<Rightarrow> (nat \<Rightarrow> usize) \<Rightarrow> ((nat \<Rightarrow> usize) \<times> usize) res"
where
  "increment_thread_local ck t cells =
     bind_res (add_ck ck (cells t) 1) (\<lambda>count. Inr (cells(t := count), count))"

definition scoped_slice_sum :: "bool \<Rightarrow> i32 list \<Rightarrow> i32 list \<Rightarrow> (i32 \<times> i32) res" where
  "scoped_slice_sum ck a b =
     (let h1 = sum_i32 ck a; h2 = sum_i32 ck b in
      bind_res (join_unwrap h1) (\<lambda>x. bind_res (join_unwrap h2) (\<lambda>y. Inr (x, y))))"

definition handle_panic :: "i32 \<Rightarrow> bool \<Rightarrow> unit + i32" where
  "handle_panic x should_panic =
     (case (if should_panic then Inl ExplicitPanic else Inr x) of
        Inl e \<Rightarrow> Inl ()
      | Inr y \<Rightarrow> Inr y)"

section \<open>The standard library's threads\<close>

text \<open>A thread that has been started ends with what its closure computes.\<close>

inductive thread_step :: "('g, 'r res, 'r) task_step" where
  "thread_step i g x g (Ended x)"

interpretation std: task_runtime "\<lambda>x. x" thread_step "\<lambda>x. x" "\<lambda>_. 0"
  by unfold_locales (auto simp: thread_step.simps)

section \<open>Sums\<close>

lemma sum_from_checked:
  "sum_from True acc xs = Inr r \<longleftrightarrow>
     (\<forall>k \<le> length xs. in_i32 (sint acc + sum_list (map sint (take k xs)))) \<and>
     sint r = sint acc + sum_list (map sint xs)"
proof (induction xs arbitrary: acc)
  case Nil
  then show ?case using sint_in_i32 [of acc] word_eq_iff_signed [of acc r, where 'a = int] by auto
next
  case (Cons x xs)
  have all: "(\<forall>k \<le> length (x # xs). P k) \<longleftrightarrow> P 0 \<and> (\<forall>k \<le> length xs. P (Suc k))" for P
    using All_less_Suc2 [of "Suc (length xs)" P] by (simp add: less_Suc_eq_le)
  show ?case
  proof (cases "in_i32 (sint acc + sint x)")
    case True
    then show ?thesis
      unfolding all using Cons.IH [of "acc + x"] sint_in_i32 [of acc]
      by (simp add: sadd_ck_def sint_add_i32 add.assoc)
  next
    case False
    then have "\<not> (\<forall>k \<le> length xs. in_i32 (sint acc + sum_list (map sint (take (Suc k) (x # xs)))))"
      by (auto intro!: exI [of _ 0])
    then show ?thesis unfolding all using False by (simp add: sadd_ck_def)
  qed
qed

lemma sum_from_release: "sum_from False acc xs = Inr (acc + sum_list xs)"
  by (induction xs arbitrary: acc) (simp_all add: sadd_ck_def add.assoc)

text \<open>The integer sum of a vector, and whether it stays in range from the left.\<close>

definition sums_fit :: "i32 list \<Rightarrow> bool" where
  "sums_fit xs \<longleftrightarrow> (\<forall>k \<le> length xs. in_i32 (sum_list (map sint (take k xs))))"

lemma sum_i32_checked: "sum_i32 True xs = Inr r \<longleftrightarrow> sums_fit xs \<and> sint r = sum_list (map sint xs)"
  by (simp add: sum_i32_def sum_from_checked sums_fit_def)

lemma join_unwrap_simps [simp]: "join_unwrap (Inr x) = Inr x" "join_unwrap (Inl e) = Inl ThreadPanicked"
  by (simp_all add: join_unwrap_def)

text \<open>C37: With overflow checks \<^verbatim>\<open>parallel_sum\<close> returns the two exact sums when, for each vector, every sum
  of an initial part fits into 32 bits, and otherwise panics because a thread has; without the
  checks it returns the sums modulo \<open>2\<^sup>3\<^sup>2\<close>. The version with scoped threads returns the same.\<close>

theorem parallel_sum_exact:
  "(if sums_fit a \<and> sums_fit b
    then \<exists>x y. parallel_sum True a b = Inr (x, y) \<and>
      sint x = sum_list (map sint a) \<and> sint y = sum_list (map sint b)
    else parallel_sum True a b = Inl ThreadPanicked) \<and>
   parallel_sum False a b = Inr (sum_list a, sum_list b) \<and>
   scoped_slice_sum ck a b = parallel_sum ck a b"
proof -
  have s: "\<exists>x. sum_i32 True xs = Inr x \<and> sint x = sum_list (map sint xs)" if "sums_fit xs" for xs
  proof -
    have "in_i32 (sum_list (map sint xs))" using that by (auto simp: sums_fit_def dest: spec [of _ "length xs"])
    then have "sint (of_int (sum_list (map sint xs)) :: i32) = sum_list (map sint xs)" by (rule sint_of_int_i32)
    with that sum_i32_checked show ?thesis by blast
  qed
  have f: "\<exists>e. sum_i32 True xs = Inl e" if "\<not> sums_fit xs" for xs
    using that sum_i32_checked [of xs] by (cases "sum_i32 True xs") auto
  show ?thesis
    using s [of a] s [of b] f [of a] f [of b]
    by (cases "sums_fit a"; cases "sums_fit b")
      (auto simp: parallel_sum_def scoped_slice_sum_def sum_i32_def sum_from_release Let_def)
qed

text \<open>The two threads of \<^verbatim>\<open>parallel_sum\<close> deliver its result in every interleaving, and always get to
  the end.\<close>

theorem parallel_sum_threads:
  assumes "parallel_sum ck a b = Inr (x, y)"
    and "(fj_step thread_step (\<lambda>i. [sum_i32 ck a, sum_i32 ck b] ! i) 2)\<^sup>*\<^sup>* (fj_init g) s"
  shows "(\<forall>rs. main s = Joined rs \<longrightarrow> rs = [x, y]) \<and>
    (\<exists>s' rs. (fj_step thread_step (\<lambda>i. [sum_i32 ck a, sum_i32 ck b] ! i) 2)\<^sup>*\<^sup>* s s' \<and> main s' = Joined rs)"
proof -
  have "sum_i32 ck a = Inr x" "sum_i32 ck b = Inr y"
    using assms(1) by (auto simp: parallel_sum_def join_unwrap_def bind_res_Inr_iff split: sum.splits)
  then have body: "[sum_i32 ck a, sum_i32 ck b] ! i = Inr ([x, y] ! i)" if "i < 2" for i
    using that by (auto simp: less_2_cases_iff)
  have "map (\<lambda>i. [x, y] ! i) [0..<2] = [x, y]" by (simp add: upt_rec)
  with std.group_results [OF body assms(2)] show ?thesis by auto
qed

theorem parallel_sum_threads_witness:
  "\<exists>s. main s = Joined [3, 4] \<and>
    (fj_step thread_step (\<lambda>i. [sum_i32 True [1, 2], sum_i32 True [4]] ! i) 2)\<^sup>*\<^sup>* (fj_init ()) s"
proof -
  have "parallel_sum True [1, 2] [4] = Inr (3, 4)"
    by (simp add: parallel_sum_def sum_i32_def sadd_ck_def in_i32_def)
  note threads = parallel_sum_threads [OF this, of "()"]
  from threads [OF rtranclp.rtrancl_refl] obtain s rs where
    s: "(fj_step thread_step (\<lambda>i. [sum_i32 True [1, 2], sum_i32 True [4]] ! i) 2)\<^sup>*\<^sup>* (fj_init ()) s"
      "main s = Joined rs" by blast
  with threads [OF s(1)] show ?thesis by auto
qed

text \<open>Doubling: the exact doubles when they all fit, and a panic otherwise.\<close>

lemma double_in_thread_exact:
  "double_in_thread True ns =
     (if list_all (\<lambda>n. in_i32 (2 * sint n)) ns then Inr (map (\<lambda>n. n * 2) ns) else Inl ThreadPanicked)"
proof -
  have "double_all True ns =
      (if list_all (\<lambda>n. in_i32 (2 * sint n)) ns then Inr (map (\<lambda>n. n * 2) ns) else Inl Overflow)"
    by (induction ns) (auto simp: smul_ck_def mult.commute)
  then show ?thesis by (simp add: double_in_thread_def)
qed

lemma handle_panic_result: "handle_panic x p = (if p then Inl () else Inr x)"
  by (simp add: handle_panic_def)

section \<open>Thread-local counts\<close>

text \<open>Calls by different threads, in the order in which they happen.\<close>

fun local_calls :: "bool \<Rightarrow> nat list \<Rightarrow> (nat \<Rightarrow> usize) \<Rightarrow> usize list res" where
  "local_calls ck [] cells = Inr []"
| "local_calls ck (t # ts) cells =
     bind_res (increment_thread_local ck t cells) (\<lambda>(cells', c).
     bind_res (local_calls ck ts cells') (\<lambda>cs. Inr (c # cs)))"

lemma local_calls_counts:
  "(\<And>t. cells t = of_nat (f t)) \<Longrightarrow> (\<And>t. f t + length ts < 2 ^ 64) \<Longrightarrow>
   local_calls ck ts cells =
     Inr (map (\<lambda>i. of_nat (f (ts ! i) + count_list (take (Suc i) ts) (ts ! i))) [0..<length ts])"
proof (induction ts arbitrary: cells f)
  case (Cons t ts)
  have fits: "f t + 1 < 2 ^ 64" using Cons.prems(2) [of t] by simp
  have "unat (of_nat (f t) :: usize) = f t" using fits by (simp add: unat_of_nat)
  then have inc: "increment_thread_local ck t cells = Inr (cells(t := of_nat (f t) + 1), of_nat (f t) + 1)"
    using fits Cons.prems(1) [of t] by (simp add: increment_thread_local_def add_ck_def)
  let ?f = "f(t := Suc (f t))"
  have "local_calls ck ts (cells(t := of_nat (f t) + 1)) =
      Inr (map (\<lambda>i. of_nat (?f (ts ! i) + count_list (take (Suc i) ts) (ts ! i))) [0..<length ts])"
    by (rule Cons.IH) (use Cons.prems in \<open>auto intro: Suc_lessD\<close>)
  moreover have "[0..<length (t # ts)] = 0 # map Suc [0..<length ts]"
    by (simp add: map_Suc_upt upt_conv_Cons del: upt_Suc)
  ultimately show ?case by (simp add: inc comp_def)
qed simp

text \<open>However the calls of the threads interleave, each call of \<^verbatim>\<open>increment_thread_local\<close> returns how
  many calls its own thread has made, as long as that number fits.\<close>

theorem thread_local_counts:
  assumes "length ts < 2 ^ 64"
  shows "local_calls ck ts THREAD_COUNT =
    Inr (map (\<lambda>i. of_nat (count_list (take (Suc i) ts) (ts ! i))) [0..<length ts])"
  using local_calls_counts [of THREAD_COUNT "\<lambda>_. 0" ts ck] assms by (simp add: THREAD_COUNT_def)

theorem thread_local_counts_witness: "local_calls True [0, 1, 0, 0, 1] THREAD_COUNT = Inr [1, 1, 2, 3, 2]"
proof -
  have "[0..<5] = [0, 1, 2, 3, 4 :: nat]" by (simp add: upt_rec)
  then show ?thesis using thread_local_counts [of "[0, 1, 0, 0, 1]" True] by simp
qed

end
