(* ===== verification/TokioTasks.thy ===== *)
theory TokioTasks
  imports ForkJoin
begin

text \<open>
  \<^verbatim>\<open>exercises/05_async_programming/02_tokio_tasks/src/lib.rs\<close>: starting asynchronous tasks and awaiting
  their handles. The tokio runtime is a parameter: \<open>submit ms x\<close> is a task that sleeps \<open>ms\<close> milliseconds
  and then computes \<open>x\<close>, \<open>tstep\<close> what the runtime does with the tasks. What the functions need of it is
  the contract \<open>task_runtime\<close> of theory ForkJoin: a task can always go on, ends, and its handle then
  gives what it computed.
\<close>

section \<open>The functions\<close>

text \<open>The body of a task, \<^verbatim>\<open>i * i\<close>, and the states \<^verbatim>\<open>concurrent_squares\<close> can get to; its loops are those of
  the main thread of theory ForkJoin, so that the list joined is its result.\<close>

definition square :: "bool \<Rightarrow> nat \<Rightarrow> usize res" where
  "square ck i = mul_ck ck (of_nat i) (of_nat i)"

definition concurrent_squares ::
  "bool \<Rightarrow> (u64 \<Rightarrow> usize res \<Rightarrow> 'l) \<Rightarrow> ('g, 'l, usize) task_step \<Rightarrow> nat \<Rightarrow> 'g \<Rightarrow> ('g, 'l, usize) fj \<Rightarrow> bool"
where
  "concurrent_squares ck submit tstep n g =
     (fj_step tstep (\<lambda>i. submit 10 (square ck i)) n)\<^sup>*\<^sup>* (fj_init g)"

definition parallel_sleep_tasks ::
  "(u64 \<Rightarrow> usize res \<Rightarrow> 'l) \<Rightarrow> ('g, 'l, usize) task_step \<Rightarrow> nat \<Rightarrow> u64 \<Rightarrow> 'g \<Rightarrow> ('g, 'l, usize) fj \<Rightarrow> bool"
where
  "parallel_sleep_tasks submit tstep n duration_ms g =
     (fj_step tstep (\<lambda>i. submit duration_ms (Inr (of_nat i))) n)\<^sup>*\<^sup>* (fj_init g)"

definition sleep_result :: "usize list \<Rightarrow> usize list" where
  "sleep_result results = sort results"

section \<open>Their results\<close>

lemma square_small: "i < 2 ^ 32 \<Longrightarrow> square ck i = Inr (of_nat (i * i))"
proof -
  assume i: "i < 2 ^ 32"
  have "i * i < 2 ^ 32 * 2 ^ 32" using i by (intro mult_strict_mono) simp_all
  then have "i * i < 2 ^ 64" by simp
  moreover have "unat (of_nat i :: usize) = i" using i by (simp add: unat_of_nat)
  ultimately show ?thesis by (simp add: square_def mul_ck_def)
qed

text \<open>In whatever order the runtime runs the tasks, \<^verbatim>\<open>concurrent_squares(n)\<close> returns the squares of the
  numbers below \<open>n\<close> in order, and it always gets there, as long as the squares fit.\<close>

theorem concurrent_squares_ordered:
  assumes "task_runtime (submit 10) tstep computes rank" "n \<le> 2 ^ 32"
    and "concurrent_squares ck submit tstep n g s"
  shows "(\<forall>rs. main s = Joined rs \<longrightarrow> rs = map (\<lambda>i. of_nat (i * i)) [0..<n]) \<and>
    (\<exists>s' rs. (fj_step tstep (\<lambda>i. submit 10 (square ck i)) n)\<^sup>*\<^sup>* s s' \<and> main s' = Joined rs)"
proof -
  have body: "square ck i = Inr (of_nat (i * i))" if "i < n" for i
    using that assms(2) by (intro square_small) simp
  from task_runtime.group_results [OF assms(1), of n "square ck", OF body assms(3) [unfolded concurrent_squares_def]]
  show ?thesis by blast
qed

text \<open>A runtime that meets the contract: its tasks count down before they end.\<close>

inductive countdown_step :: "('g, nat \<times> 'r res, 'r) task_step" where
  tick: "countdown_step i g (Suc k, x) g (Alive (k, x))"
| ready: "countdown_step i g (0, x) g (Ended x)"

lemma countdown_runtime: "task_runtime (\<lambda>x. (unat (ms :: u64), x)) countdown_step snd fst"
proof
  show "(\<exists>l'. t' = Alive l' \<and> snd l' = snd l \<and> fst l' < fst l) \<or> t' = Ended (snd l)"
    if "countdown_step i g l g' t'" for i :: nat and g g' :: 'b and l :: "nat \<times> 'a res" and t'
    using that by cases auto
  show "\<exists>g' t'. countdown_step i g l g' t'" for i :: nat and g :: 'b and l :: "nat \<times> 'a res"
    by (cases l; cases "fst l") (auto intro: countdown_step.intros)
qed simp

theorem concurrent_squares_ordered_witness:
  "\<exists>s. concurrent_squares True (\<lambda>ms x. (unat ms, x)) countdown_step 3 () s \<and> main s = Joined [0, 1, 4]"
proof -
  have small: "(3 :: nat) \<le> 2 ^ 32" by simp
  have start: "concurrent_squares True (\<lambda>ms x. (unat ms, x)) countdown_step 3 () (fj_init ())"
    by (simp add: concurrent_squares_def)
  note squares = concurrent_squares_ordered [OF countdown_runtime small, of True]
  from squares [OF start] obtain s rs where s: "main s = Joined rs"
    "concurrent_squares True (\<lambda>ms x. (unat ms, x)) countdown_step 3 () s"
    by (auto simp: concurrent_squares_def)
  have "[0..<3] = [0, 1, 2 :: nat]" by (simp add: upt_rec)
  then show ?thesis using squares [OF s(2)] s by auto
qed

text \<open>The numbers of the tasks, in order, from \<^verbatim>\<open>parallel_sleep_tasks\<close>.\<close>

lemma sorted_of_nat_upt: "n \<le> 2 ^ 64 \<Longrightarrow> sorted (map of_nat [0..<n] :: usize list)"
  by (auto simp: sorted_map sorted_wrt_upt word_le_nat_alt unat_of_nat sorted_wrt_iff_nth_less)

lemma parallel_sleep_sorted:
  assumes "task_runtime (submit duration_ms) tstep computes rank" "n \<le> 2 ^ 64"
    and "parallel_sleep_tasks submit tstep n duration_ms g s" "main s = Joined rs"
  shows "sleep_result rs = map of_nat [0..<n]"
proof -
  have "rs = map of_nat [0..<n]"
    using task_runtime.group_results(1) [OF assms(1), of n "\<lambda>i. Inr (of_nat i)" of_nat,
        OF _ assms(3) [unfolded parallel_sleep_tasks_def] assms(4)] by simp
  then show ?thesis using sorted_of_nat_upt [OF assms(2)] by (simp add: sleep_result_def sorted_sort_id)
qed

end
