(* ===== verification/FifoChannel.thy ===== *)
theory FifoChannel
  imports Prelude "HOL-Library.Multiset" "HOL-Library.Sublist"
begin

text \<open>
  Channels with many senders and one receiver, and the program that the channel exercises share: a
  main thread starts producers that each send a list of messages, drops its own sender, and then
  receives until the channel is closed. The contract of a channel is a locale: first in, first
  out, and never blocking a sender for ever. What the program delivers is proved once from it.
\<close>

section \<open>Interleavings of lists\<close>

text \<open>\<open>merged xss ys\<close>: \<open>ys\<close> has the elements of the lists, each list in its own order.\<close>

inductive merged :: "'a list list \<Rightarrow> 'a list \<Rightarrow> bool" where
  merged_nil: "merged (replicate n []) []"
| merged_snoc: "merged xss ys \<Longrightarrow> i < length xss \<Longrightarrow> merged (xss[i := xss ! i @ [y]]) (ys @ [y])"

lemma merged_start: "merged xss ys \<Longrightarrow> merged (xss @ [[]]) ys"
proof (induction rule: merged.induct)
  case (merged_nil n)
  then show ?case using merged.merged_nil [of "Suc n"] by (simp add: replicate_append_same)
next
  case (merged_snoc xss ys i y)
  then have "merged ((xss @ [[]])[i := (xss @ [[]]) ! i @ [y]]) (ys @ [y])"
    by (intro merged.merged_snoc) auto
  then show ?case using merged_snoc(2) by (simp add: list_update_append1 nth_append)
qed

lemma mset_concat_update: "i < length xss \<Longrightarrow> mset (concat (xss[i := xss ! i @ [y]])) = add_mset y (mset (concat xss))"
  by (induction xss arbitrary: i) (auto split: nat.splits)

lemma merged_mset: "merged xss ys \<Longrightarrow> mset ys = mset (concat xss)"
  by (induction rule: merged.induct) (simp_all add: mset_concat_update)

lemma merged_single: "merged xss ys \<Longrightarrow> xss = [xs] \<Longrightarrow> ys = xs"
proof (induction arbitrary: xs rule: merged.induct)
  case (merged_nil n)
  then show ?case by (cases n) auto
next
  case (merged_snoc xss ys i y)
  then have "length xss = 1" by (metis length_list_update length_Cons list.size(3) One_nat_def)
  then obtain zs where "xss = [zs]" by (auto simp: length_Suc_conv)
  then show ?case using merged_snoc by auto
qed

lemma merged_order: "merged xss ys \<Longrightarrow> i < length xss \<Longrightarrow> subseq (xss ! i) ys"
proof (induction rule: merged.induct)
  case (merged_snoc xss ys j y)
  then show ?case by (cases "i = j") (auto intro: list_emb_append_mono subseq_rev_drop_many)
qed simp

section \<open>The program\<close>

datatype collector = Spawning nat | Collecting | Finished

text \<open>The producers are the messages they have yet to send; one that has sent its last message drops its
  sender. \<open>failed\<close>: a producer has found the receiver gone, and its \<^verbatim>\<open>unwrap\<close> has panicked.\<close>

record ('c, 'm) net =
  chan :: 'c
  producers :: "'m list list"
  received :: "'m list"
  main :: collector
  failed :: bool

inductive net_step ::
  "('m \<Rightarrow> 'c \<Rightarrow> 'c option) \<Rightarrow> ('c \<Rightarrow> ('m \<times> 'c) option) \<Rightarrow> 'm list list \<Rightarrow> ('c, 'm) net \<Rightarrow> ('c, 'm) net \<Rightarrow> bool"
  for send recv messages where
  spawn: "main s = Spawning i \<Longrightarrow> i < length messages \<Longrightarrow>
    net_step send recv messages s
      (s\<lparr>producers := producers s @ [messages ! i], main := Spawning (Suc i)\<rparr>)"
| drop_tx: "main s = Spawning (length messages) \<Longrightarrow> net_step send recv messages s (s\<lparr>main := Collecting\<rparr>)"
| send: "i < length (producers s) \<Longrightarrow> producers s ! i = m # ms \<Longrightarrow> main s \<noteq> Finished \<Longrightarrow>
    send m (chan s) = Some c \<Longrightarrow>
    net_step send recv messages s (s\<lparr>chan := c, producers := (producers s)[i := ms]\<rparr>)"
| send_failed: "i < length (producers s) \<Longrightarrow> producers s ! i = m # ms \<Longrightarrow> main s = Finished \<Longrightarrow>
    net_step send recv messages s (s\<lparr>producers := (producers s)[i := []], failed := True\<rparr>)"
| recv: "main s = Collecting \<Longrightarrow> recv (chan s) = Some (m, c) \<Longrightarrow>
    net_step send recv messages s (s\<lparr>chan := c, received := received s @ [m]\<rparr>)"
| closed: "main s = Collecting \<Longrightarrow> recv (chan s) = None \<Longrightarrow> list_all (\<lambda>p. p = []) (producers s) \<Longrightarrow>
    net_step send recv messages s (s\<lparr>main := Finished\<rparr>)"

definition net_init :: "'c \<Rightarrow> ('c, 'm) net" where
  "net_init c = \<lparr>chan = c, producers = [], received = [], main = Spawning 0, failed = False\<rparr>"

section \<open>The contract of a channel\<close>

locale fifo_channel =
  fixes send :: "'m \<Rightarrow> 'c \<Rightarrow> 'c option"
    and recv :: "'c \<Rightarrow> ('m \<times> 'c) option"
    and queued :: "'c \<Rightarrow> 'm list"
  assumes send_queues: "send m c = Some c' \<Longrightarrow> queued c' = queued c @ [m]"
    and recv_first: "recv c = Some (m, c') \<Longrightarrow> queued c = m # queued c'"
    and recv_none: "recv c = None \<Longrightarrow> queued c = []"
    and send_room: "queued c = [] \<Longrightarrow> send m c \<noteq> None"
begin

definition net_inv :: "'m list list \<Rightarrow> ('c, 'm) net \<Rightarrow> bool" where
  "net_inv messages s \<longleftrightarrow>
     \<not> failed s \<and> length (producers s) \<le> length messages \<and>
     (case main s of
        Spawning i \<Rightarrow> length (producers s) = i
      | Collecting \<Rightarrow> length (producers s) = length messages
      | Finished \<Rightarrow> length (producers s) = length messages \<and> list_all (\<lambda>p. p = []) (producers s) \<and>
          queued (chan s) = []) \<and>
     (\<exists>sent. length sent = length (producers s) \<and>
        (\<forall>i < length sent. sent ! i @ producers s ! i = messages ! i) \<and>
        merged sent (received s @ queued (chan s)))"

lemma net_inv_step:
  assumes "net_inv messages s" "net_step send recv messages s s'"
  shows "net_inv messages s'"
proof -
  obtain sent where sent: "length sent = length (producers s)"
    "\<forall>i < length sent. sent ! i @ producers s ! i = messages ! i"
    "merged sent (received s @ queued (chan s))"
    using assms(1) by (auto simp: net_inv_def)
  show ?thesis
    using assms(2)
  proof (cases rule: net_step.cases)
    case (spawn i)
    have "\<forall>j < length (sent @ [[]]). (sent @ [[]]) ! j @ producers s' ! j = messages ! j"
      using sent(1,2) spawn assms(1) by (auto simp: nth_append less_Suc_eq net_inv_def)
    then show ?thesis using spawn assms(1) sent merged_start [OF sent(3)]
      unfolding net_inv_def by (intro conjI exI [of _ "sent @ [[]]"]) auto
  next
    case drop_tx
    then show ?thesis using assms(1) sent unfolding net_inv_def by (intro conjI exI [of _ sent]) auto
  next
    case (send i m ms c)
    let ?sent = "sent[i := sent ! i @ [m]]"
    have i: "i < length sent" using send sent(1) by simp
    have "\<forall>j < length ?sent. ?sent ! j @ producers s' ! j = messages ! j"
      using sent(1,2) send i by (auto simp: nth_list_update)
    moreover have "merged ?sent (received s' @ queued (chan s'))"
      using merged.merged_snoc [OF sent(3) i, of m] send send_queues [OF send(5)] by simp
    moreover have "main s \<noteq> Finished" by (rule send(4))
    ultimately show ?thesis using send assms(1) sent(1)
      unfolding net_inv_def by (auto split: collector.splits intro!: exI [of _ ?sent])
  next
    case (send_failed i m ms)
    then show ?thesis using assms(1) by (auto simp: net_inv_def list_all_length)
  next
    case (recv m c)
    then have "received s' @ queued (chan s') = received s @ queued (chan s)"
      using recv_first [OF recv(3)] by simp
    then show ?thesis using recv assms(1) sent unfolding net_inv_def by (intro conjI exI [of _ sent]) auto
  next
    case closed
    then show ?thesis using assms(1) sent recv_none [OF closed(3)]
      unfolding net_inv_def by (intro conjI exI [of _ sent]) auto
  qed
qed

lemma net_inv_steps: "(net_step send recv messages)\<^sup>*\<^sup>* s s' \<Longrightarrow> net_inv messages s \<Longrightarrow> net_inv messages s'"
  by (induction rule: rtranclp_induct) (auto intro: net_inv_step)

lemma net_inv_init: "queued c = [] \<Longrightarrow> net_inv messages (net_init c)"
  using merged_nil [of 0] by (auto simp: net_inv_def net_init_def)

lemma finished_merged:
  assumes "net_inv messages s" "main s = Finished"
  shows "merged messages (received s)"
proof -
  obtain sent where sent: "length sent = length messages"
    "\<forall>i < length sent. sent ! i @ producers s ! i = messages ! i" "merged sent (received s)"
    "list_all (\<lambda>p. p = []) (producers s)" "length (producers s) = length messages"
    using assms by (auto simp: net_inv_def)
  then have "sent = messages" by (intro nth_equalityI) (auto simp: list_all_length)
  with sent(3) show ?thesis by simp
qed

text \<open>Unless the main thread has finished some step is possible, and every step goes down in a measure.\<close>

lemma net_progress:
  assumes "net_inv messages s" "main s \<noteq> Finished"
  shows "\<exists>s'. net_step send recv messages s s'"
proof (cases "main s")
  case (Spawning i)
  then have "i \<le> length messages" using assms(1) by (simp add: net_inv_def)
  then show ?thesis using Spawning net_step.spawn net_step.drop_tx by (metis le_neq_implies_less)
next
  case Collecting
  show ?thesis
  proof (cases "recv (chan s)")
    case None
    show ?thesis
    proof (cases "list_all (\<lambda>p. p = []) (producers s)")
      case True
      with Collecting None show ?thesis using net_step.closed by blast
    next
      case False
      then obtain i m ms where i: "i < length (producers s)" "producers s ! i = m # ms"
        by (auto simp: list_all_length neq_Nil_conv)
      obtain c where "send m (chan s) = Some c" using send_room [OF recv_none [OF None]] by blast
      with net_step.send [where send = send, OF i assms(2)] show ?thesis by blast
    qed
  next
    case (Some p)
    then show ?thesis using Collecting net_step.recv [of s recv "fst p" "snd p"] by (metis prod.collapse)
  qed
qed (use assms in simp)

definition net_rank :: "'m list list \<Rightarrow> ('c, 'm) net \<Rightarrow> nat" where
  "net_rank messages s =
     2 * (sum_list (map length (producers s)) + sum_list (map length (drop (length (producers s)) messages))) +
     length (queued (chan s)) +
     (case main s of Spawning i \<Rightarrow> length messages - i + 2 | Collecting \<Rightarrow> 1 | Finished \<Rightarrow> 0)"

lemma sum_list_length_update:
  "i < length ps \<Longrightarrow> ps ! i = m # ms \<Longrightarrow> Suc (sum_list (map length (ps[i := ms]))) = sum_list (map length ps)"
  by (induction ps arbitrary: i) (auto split: nat.splits)

lemma net_rank_step:
  assumes "net_inv messages s" "net_step send recv messages s s'"
  shows "net_rank messages s' < net_rank messages s"
  using assms(2)
proof (cases rule: net_step.cases)
  case (spawn i)
  then have "length (producers s) = i" using assms(1) by (simp add: net_inv_def)
  then show ?thesis using spawn by (simp add: net_rank_def Cons_nth_drop_Suc [symmetric])
next
  case (send i m ms c)
  then show ?thesis using sum_list_length_update [OF send(2,3)] send_queues [OF send(5)]
    by (simp add: net_rank_def)
next
  case (send_failed i m ms)
  then show ?thesis using assms(1) by (auto simp: net_inv_def list_all_length)
next
  case (recv m c)
  then show ?thesis using recv_first [OF recv(3)] by (simp add: net_rank_def)
qed (auto simp: net_rank_def)

lemma net_finishes:
  "net_inv messages s \<Longrightarrow> \<exists>s'. (net_step send recv messages)\<^sup>*\<^sup>* s s' \<and> main s' = Finished"
proof (induction "net_rank messages s" arbitrary: s rule: less_induct)
  case less
  show ?case
  proof (cases "main s = Finished")
    case False
    then obtain s1 where s1: "net_step send recv messages s s1" using net_progress [OF less.prems] by blast
    from less.hyps [OF net_rank_step [OF less.prems s1] net_inv_step [OF less.prems s1]] s1
    show ?thesis by (meson converse_rtranclp_into_rtranclp)
  qed blast
qed

text \<open>What the program delivers.\<close>

lemma delivers:
  assumes "(net_step send recv messages)\<^sup>*\<^sup>* (net_init c) s" "queued c = []"
  shows "main s = Finished \<Longrightarrow> merged messages (received s)" and "\<not> failed s"
    and "\<exists>s'. (net_step send recv messages)\<^sup>*\<^sup>* s s' \<and> main s' = Finished"
proof -
  have inv: "net_inv messages s" using net_inv_steps [OF assms(1) net_inv_init [OF assms(2)]] .
  show "main s = Finished \<Longrightarrow> merged messages (received s)" using finished_merged [OF inv] .
  show "\<not> failed s" using inv by (simp add: net_inv_def)
  show "\<exists>s'. (net_step send recv messages)\<^sup>*\<^sup>* s s' \<and> main s' = Finished" using net_finishes [OF inv] .
qed

end

end
