(* ===== verification/Channel.thy ===== *)
theory Channel
  imports FifoChannel Text "HOL-Library.List_Lexorder" "HOL-Library.Char_ord"
begin

text \<open>
  \<^verbatim>\<open>exercises/01_concurrency_sync/03_channel/src/lib.rs\<close>: threads that send into a channel of the
  standard library, which is unbounded. Strings are compared byte by byte, as Rust compares them.
\<close>

section \<open>The functions\<close>

definition mpsc_send :: "'m \<Rightarrow> 'm list \<Rightarrow> 'm list option" where
  "mpsc_send m queue = Some (queue @ [m])"

fun mpsc_recv :: "'m list \<Rightarrow> ('m \<times> 'm list) option" where
  "mpsc_recv [] = None"
| "mpsc_recv (m # queue) = Some (m, queue)"

fun_cases mpsc_recv_SomeE: "mpsc_recv queue = Some (m, queue')"
  and mpsc_recv_NoneE: "mpsc_recv queue = None"

interpretation mpsc: fifo_channel mpsc_send mpsc_recv "\<lambda>queue. queue"
  by unfold_locales (auto simp: mpsc_send_def elim: mpsc_recv_SomeE mpsc_recv_NoneE)

text \<open>The states a call can get to; what has been received when the main thread has finished is the
  result, which \<^verbatim>\<open>multi_producer\<close> sorts.\<close>

definition simple_send_recv :: "string list \<Rightarrow> (string list, string) net \<Rightarrow> bool" where
  "simple_send_recv items = (net_step mpsc_send mpsc_recv [items])\<^sup>*\<^sup>* (net_init [])"

definition producer_message :: "nat \<Rightarrow> string" where
  "producer_message i = ''msg from '' @ show_nat i"

definition multi_producer :: "nat \<Rightarrow> (string list, string) net \<Rightarrow> bool" where
  "multi_producer n_producers =
     (net_step mpsc_send mpsc_recv (map (\<lambda>i. [producer_message i]) [0..<n_producers]))\<^sup>*\<^sup>* (net_init [])"

definition multi_producer_result :: "(string list, string) net \<Rightarrow> string list" where
  "multi_producer_result s = sort (received s)"

section \<open>Their results\<close>

text \<open>\<^verbatim>\<open>simple_send_recv\<close> returns the items in their order, however the two threads interleave, and
  it always returns; no send fails.\<close>

theorem simple_send_recv_all:
  assumes "simple_send_recv items s"
  shows "(main s = Finished \<longrightarrow> received s = items) \<and> \<not> failed s \<and>
    (\<exists>s'. (net_step mpsc_send mpsc_recv [items])\<^sup>*\<^sup>* s s' \<and> main s' = Finished)"
  using mpsc.delivers [OF assms [unfolded simple_send_recv_def]] merged_single by blast

theorem simple_send_recv_all_witness:
  "\<exists>s. simple_send_recv [''a'', ''b''] s \<and> main s = Finished \<and> received s = [''a'', ''b'']"
proof -
  have start: "simple_send_recv [''a'', ''b''] (net_init [])" by (simp add: simple_send_recv_def)
  from simple_send_recv_all [OF start] obtain s where s: "main s = Finished"
    "simple_send_recv [''a'', ''b''] s" by (auto simp: simple_send_recv_def)
  with simple_send_recv_all [OF s(2)] show ?thesis by blast
qed

text \<open>The result of sorting is determined by what has been received.\<close>

lemma merged_singletons:
  assumes "merged (map (\<lambda>i. [f i]) ks) ys"
  shows "mset ys = mset (map f ks)"
  using merged_mset [OF assms] by (simp add: concat_map_singleton)

text \<open>\<^verbatim>\<open>multi_producer\<close> returns one message of every producer, sorted, whatever the order in which
  they were sent, and it always returns: the receiver sees the channel closed.\<close>

theorem multi_producer_sorted:
  assumes "multi_producer n_producers s"
  shows "(main s = Finished \<longrightarrow>
      multi_producer_result s = sort (map producer_message [0..<n_producers]) \<and>
      sorted (multi_producer_result s) \<and> distinct (multi_producer_result s)) \<and>
    \<not> failed s \<and>
    (\<exists>s'. (net_step mpsc_send mpsc_recv (map (\<lambda>i. [producer_message i]) [0..<n_producers]))\<^sup>*\<^sup>* s s' \<and>
      main s' = Finished)"
proof -
  note d = mpsc.delivers [OF assms [unfolded multi_producer_def]]
  have "multi_producer_result s = sort (map producer_message [0..<n_producers])" if "main s = Finished"
  proof -
    have "merged (map (\<lambda>i. [producer_message i]) [0..<n_producers]) (received s)" using d(1) that by simp
    from merged_singletons [OF this] have "mset (received s) = mset (map producer_message [0..<n_producers])" .
    then show ?thesis unfolding multi_producer_result_def by (metis mset_sort properties_for_sort sorted_sort)
  qed
  moreover have "distinct (map producer_message [0..<n_producers])"
    by (auto simp: distinct_map inj_on_def producer_message_def show_nat_inject)
  ultimately show ?thesis using d(2,3) by (auto simp: multi_producer_result_def)
qed

theorem multi_producer_sorted_witness:
  "\<exists>s. multi_producer 2 s \<and> main s = Finished \<and> sorted (multi_producer_result s)"
proof -
  have start: "multi_producer 2 (net_init [])" by (simp add: multi_producer_def)
  from multi_producer_sorted [OF start] obtain s where s: "main s = Finished" "multi_producer 2 s"
    by (auto simp: multi_producer_def)
  with multi_producer_sorted [OF s(2)] show ?thesis by blast
qed

end
