(* ===== verification/AsyncChannel.thy ===== *)
theory AsyncChannel
  imports Channel
begin

text \<open>
  \<^verbatim>\<open>exercises/05_async_programming/03_async_channel/src/lib.rs\<close>: the producer and consumer programs over
  tokio's bounded channels. The channel is a parameter: its constructor \<open>mk\<close>, which takes the capacity,
  and its operations, which meet the contract of theory FifoChannel. A send that finds the channel
  full gives nothing and is tried again.
\<close>

section \<open>The functions\<close>

text \<open>The consumer of \<^verbatim>\<open>producer_consumer\<close> is the calling task; its sender moves into the producer.\<close>

definition producer_consumer ::
  "(nat \<Rightarrow> 'c) \<Rightarrow> (string \<Rightarrow> 'c \<Rightarrow> 'c option) \<Rightarrow> ('c \<Rightarrow> (string \<times> 'c) option) \<Rightarrow> string list \<Rightarrow>
   ('c, string) net \<Rightarrow> bool"
where
  "producer_consumer mk send recv items =
     (net_step send recv [items])\<^sup>*\<^sup>* (net_init (mk (max (length items) 1)))"

definition fan_in_message :: "nat \<Rightarrow> string" where
  "fan_in_message i = ''producer '' @ show_nat i @ '': message''"

definition fan_in ::
  "(nat \<Rightarrow> 'c) \<Rightarrow> (string \<Rightarrow> 'c \<Rightarrow> 'c option) \<Rightarrow> ('c \<Rightarrow> (string \<times> 'c) option) \<Rightarrow> nat \<Rightarrow> ('c, string) net \<Rightarrow> bool"
where
  "fan_in mk send recv n_producers =
     (net_step send recv (map (\<lambda>i. [fan_in_message i]) [0..<n_producers]))\<^sup>*\<^sup>*
       (net_init (mk (max n_producers 1)))"

definition fan_in_result :: "('c, string) net \<Rightarrow> string list" where
  "fan_in_result s = sort (received s)"

section \<open>Their results\<close>

text \<open>The contract of tokio's channels: first in, first out, room for at least one message, and empty
  when they are made.\<close>

definition bounded_channel ::
  "(nat \<Rightarrow> 'c) \<Rightarrow> ('m \<Rightarrow> 'c \<Rightarrow> 'c option) \<Rightarrow> ('c \<Rightarrow> ('m \<times> 'c) option) \<Rightarrow> ('c \<Rightarrow> 'm list) \<Rightarrow> bool"
where
  "bounded_channel mk send recv queued \<longleftrightarrow>
     fifo_channel send recv queued \<and> (\<forall>cap > 0. queued (mk cap) = [])"

text \<open>C27: Over any channel that meets the contract \<^verbatim>\<open>producer_consumer\<close> returns the items in their order
  and \<^verbatim>\<open>fan_in\<close> one message of every producer, sorted; both always return.\<close>

theorem async_channels_deliver:
  assumes "bounded_channel mk send recv queued"
  shows "(producer_consumer mk send recv items s \<longrightarrow>
      (main s = Finished \<longrightarrow> received s = items) \<and> \<not> failed s \<and>
      (\<exists>s'. (net_step send recv [items])\<^sup>*\<^sup>* s s' \<and> main s' = Finished)) \<and>
    (fan_in mk send recv n u \<longrightarrow>
      (main u = Finished \<longrightarrow> fan_in_result u = sort (map fan_in_message [0..<n])) \<and> \<not> failed u \<and>
      (\<exists>u'. (net_step send recv (map (\<lambda>i. [fan_in_message i]) [0..<n]))\<^sup>*\<^sup>* u u' \<and> main u' = Finished))"
proof -
  have fifo: "fifo_channel send recv queued" and fresh: "queued (mk (max k 1)) = []" for k
    using assms by (simp_all add: bounded_channel_def)
  note d = fifo_channel.delivers [OF fifo _ fresh]
  have "fan_in_result u = sort (map fan_in_message [0..<n])"
    if "fan_in mk send recv n u" "main u = Finished"
  proof -
    have "merged (map (\<lambda>i. [fan_in_message i]) [0..<n]) (received u)"
      using d(1) that by (simp add: fan_in_def)
    from merged_singletons [OF this] show ?thesis
      unfolding fan_in_result_def by (metis mset_sort properties_for_sort sorted_sort)
  qed
  then show ?thesis
    using d(1) [of "[items]" "length items" s] d(2) [of "[items]" "length items" s]
      d(3) [of "[items]" "length items" s] d(2,3) [of _ n u] merged_single
    unfolding producer_consumer_def fan_in_def by blast
qed

text \<open>A channel that meets the contract: a queue with its capacity.\<close>

definition bounded_send :: "'m \<Rightarrow> nat \<times> 'm list \<Rightarrow> (nat \<times> 'm list) option" where
  "bounded_send m c = (if length (snd c) < max (fst c) 1 then Some (fst c, snd c @ [m]) else None)"

definition bounded_recv :: "nat \<times> 'm list \<Rightarrow> ('m \<times> nat \<times> 'm list) option" where
  "bounded_recv c = (case snd c of [] \<Rightarrow> None | m # q \<Rightarrow> Some (m, fst c, q))"

lemma bounded_queue: "bounded_channel (\<lambda>cap. (cap, [])) bounded_send bounded_recv snd"
proof -
  have "fifo_channel bounded_send bounded_recv (snd :: nat \<times> 'm list \<Rightarrow> 'm list)"
    by unfold_locales (auto simp: bounded_send_def bounded_recv_def split: if_splits list.splits)
  then show ?thesis by (simp add: bounded_channel_def)
qed

theorem async_channels_deliver_witness:
  "\<exists>s. producer_consumer (\<lambda>cap. (cap, [])) bounded_send bounded_recv [''a'', ''b''] s \<and> main s = Finished \<and>
     received s = [''a'', ''b'']"
proof -
  let ?run = "producer_consumer (\<lambda>cap. (cap, [])) bounded_send bounded_recv [''a'', ''b'']"
  note deliver = async_channels_deliver [OF bounded_queue, THEN conjunct1, rule_format]
  have start: "?run (net_init (max (length [''a'', ''b'']) 1, []))" by (simp add: producer_consumer_def)
  from deliver [OF start] obtain s where s: "main s = Finished" "?run s"
    unfolding producer_consumer_def by blast
  with deliver [OF s(2)] show ?thesis by blast
qed

end
