(* ===== verification/ProcessPipe.thy ===== *)
theory ProcessPipe
  imports Text
begin

text \<open>
  \<^verbatim>\<open>exercises/01_concurrency_sync/04_process_pipe/src/lib.rs\<close>: running child processes and talking to
  them through pipes. What other programs do is a parameter: \<open>run p args\<close> is the outcome of running
  \<open>p\<close> to its end, \<open>None\<close> when it cannot be started. A child behind two pipes is a machine that reads
  its input byte by byte and writes what each byte, and the end of the input, makes it write. The
  pipes hold up to \<open>cap\<close> bytes, and the child reads on while it has less than \<open>room\<close> bytes to write.
\<close>

section \<open>Running a command\<close>

record child_output =
  out_bytes :: string
  exit_code :: "i32 option"

datatype io_error = Os_error | InvalidData

type_synonym programs = "string \<Rightarrow> string list \<Rightarrow> child_output option"

definition run_command :: "programs \<Rightarrow> string \<Rightarrow> string list \<Rightarrow> string res" where
  "run_command run program args =
     (case run program args of
        None \<Rightarrow> Inl UnwrapNone
      | Some out \<Rightarrow> Inr (from_utf8_lossy (out_bytes out)))"

definition get_exit_code :: "programs \<Rightarrow> string \<Rightarrow> i32 res" where
  "get_exit_code run command =
     (case run ''sh'' [''-c'', command] of
        None \<Rightarrow> Inl UnwrapNone
      | Some status \<Rightarrow> Inr (case exit_code status of Some c \<Rightarrow> c | None \<Rightarrow> - 1))"

definition run_command_with_result :: "programs \<Rightarrow> string \<Rightarrow> string list \<Rightarrow> io_error + string" where
  "run_command_with_result run program args =
     (case run program args of
        None \<Rightarrow> Inl Os_error
      | Some out \<Rightarrow> (if utf8_valid (out_bytes out) then Inr (out_bytes out) else Inl InvalidData))"

text \<open>The two ways to run a command agree when the output is text; when it is not, one reports an error
  and the other returns text that differs from the output; when the program cannot be started, one
  reports an error and the other panics.\<close>

theorem run_command_agree:
  "case run_command_with_result run program args of
     Inr s \<Rightarrow> run_command run program args = Inr s \<and> utf8_valid s
   | Inl InvalidData \<Rightarrow> \<exists>out s. run program args = Some out \<and> run_command run program args = Inr s \<and>
       utf8_valid s \<and> s \<noteq> out_bytes out
   | Inl Os_error \<Rightarrow> run_command run program args = Inl UnwrapNone"
  by (auto simp: run_command_with_result_def run_command_def from_utf8_lossy_valid from_utf8_lossy_id
      split: option.split) (metis from_utf8_lossy_valid)

section \<open>A child behind two pipes\<close>

datatype phase = Writing | Reading | Waited

text \<open>The phases are ordered as the parent goes through them.\<close>

instantiation phase :: linorder
begin

fun phase_number :: "phase \<Rightarrow> nat" where
  "phase_number Writing = 0"
| "phase_number Reading = 1"
| "phase_number Waited = 2"

definition less_eq_phase :: "phase \<Rightarrow> phase \<Rightarrow> bool" where
  "less_eq_phase p q \<longleftrightarrow> phase_number p \<le> phase_number q"

definition less_phase :: "phase \<Rightarrow> phase \<Rightarrow> bool" where
  "less_phase p q \<longleftrightarrow> phase_number p < phase_number q"

instance
proof
  show "p = q" if "p \<le> q" "q \<le> p" for p q :: phase
    using that by (cases p; cases q) (simp_all add: less_eq_phase_def)
qed (auto simp: less_eq_phase_def less_phase_def)

end

record 'q pipes =
  phase :: phase
  to_write :: string
  in_pipe :: string
  child :: 'q
  pending :: string
  at_end :: bool
  exited :: bool
  out_pipe :: string
  got :: string

text \<open>\<^verbatim>\<open>pipe_through_cat\<close> and \<^verbatim>\<open>pipe_through_grep\<close>: the parent writes all its input, closes the pipe, reads
  until the end of the output, and waits for the child. Steps of the parent and of the child, a
  machine with the transitions \<open>react\<close> and the last output \<open>last_words\<close>.\<close>

inductive pipe_step ::
  "('q \<Rightarrow> char \<Rightarrow> 'q \<times> string) \<Rightarrow> ('q \<Rightarrow> string) \<Rightarrow> nat \<Rightarrow> nat \<Rightarrow> 'q pipes \<Rightarrow> 'q pipes \<Rightarrow> bool"
  for react last_words cap room where
  write_in: "phase s = Writing \<Longrightarrow> to_write s = b # bs \<Longrightarrow> length (in_pipe s) < cap \<Longrightarrow>
    pipe_step react last_words cap room s (s\<lparr>to_write := bs, in_pipe := in_pipe s @ [b]\<rparr>)"
| close_in: "phase s = Writing \<Longrightarrow> to_write s = [] \<Longrightarrow> pipe_step react last_words cap room s (s\<lparr>phase := Reading\<rparr>)"
| child_read: "in_pipe s = b # bs \<Longrightarrow> length (pending s) < room \<Longrightarrow> react (child s) b = (q, out) \<Longrightarrow>
    pipe_step react last_words cap room s (s\<lparr>in_pipe := bs, child := q, pending := pending s @ out\<rparr>)"
| child_end: "phase s \<noteq> Writing \<Longrightarrow> in_pipe s = [] \<Longrightarrow> \<not> at_end s \<Longrightarrow>
    pipe_step react last_words cap room s (s\<lparr>at_end := True, pending := pending s @ last_words (child s)\<rparr>)"
| child_write: "pending s = b # bs \<Longrightarrow> length (out_pipe s) < cap \<Longrightarrow>
    pipe_step react last_words cap room s (s\<lparr>pending := bs, out_pipe := out_pipe s @ [b]\<rparr>)"
| child_exit: "at_end s \<Longrightarrow> pending s = [] \<Longrightarrow> \<not> exited s \<Longrightarrow>
    pipe_step react last_words cap room s (s\<lparr>exited := True\<rparr>)"
| read_out: "phase s = Reading \<Longrightarrow> out_pipe s = b # bs \<Longrightarrow>
    pipe_step react last_words cap room s (s\<lparr>out_pipe := bs, got := got s @ [b]\<rparr>)"
| read_end: "phase s = Reading \<Longrightarrow> out_pipe s = [] \<Longrightarrow> exited s \<Longrightarrow>
    pipe_step react last_words cap room s (s\<lparr>phase := Waited\<rparr>)"

definition pipe_init :: "'q \<Rightarrow> string \<Rightarrow> 'q pipes" where
  "pipe_init q input = \<lparr>phase = Writing, to_write = input, in_pipe = [], child = q, pending = [],
     at_end = False, exited = False, out_pipe = [], got = []\<rparr>"

text \<open>\<^verbatim>\<open>cat\<close> writes every byte it reads. \<^verbatim>\<open>read_to_string\<close> fails on output that is not UTF-8.\<close>

definition cat_react :: "unit \<Rightarrow> char \<Rightarrow> unit \<times> string" where
  "cat_react q b = ((), [b])"

definition pipe_through_cat :: "nat \<Rightarrow> nat \<Rightarrow> string \<Rightarrow> unit pipes \<Rightarrow> bool" where
  "pipe_through_cat cap room input = (pipe_step cat_react (\<lambda>_. []) cap room)\<^sup>*\<^sup>* (pipe_init () input)"

definition pipe_through_grep ::
  "('q \<Rightarrow> char \<Rightarrow> 'q \<times> string) \<Rightarrow> ('q \<Rightarrow> string) \<Rightarrow> (string \<Rightarrow> 'q) \<Rightarrow> nat \<Rightarrow> nat \<Rightarrow> string \<Rightarrow> string \<Rightarrow> 'q pipes \<Rightarrow> bool"
where
  "pipe_through_grep react last_words grep cap room pattern input =
     (pipe_step react last_words cap room)\<^sup>*\<^sup>* (pipe_init (grep pattern) input)"

definition pipe_result :: "unit pipes \<Rightarrow> string res" where
  "pipe_result s = (if utf8_valid (got s) then Inr (got s) else Inl UnwrapNone)"

definition grep_result :: "'q pipes \<Rightarrow> string res" where
  "grep_result s = (if utf8_valid (got s) then Inr (got s) else Inl UnwrapNone)"

section \<open>What comes back\<close>

text \<open>What the child writes in answer to an input.\<close>

fun answer :: "('q \<Rightarrow> char \<Rightarrow> 'q \<times> string) \<Rightarrow> ('q \<Rightarrow> string) \<Rightarrow> 'q \<Rightarrow> string \<Rightarrow> string" where
  "answer react last_words q [] = last_words q"
| "answer react last_words q (b # bs) =
     (case react q b of (q', out) \<Rightarrow> out @ answer react last_words q' bs)"

definition rest :: "('q \<Rightarrow> char \<Rightarrow> 'q \<times> string) \<Rightarrow> ('q \<Rightarrow> string) \<Rightarrow> 'q pipes \<Rightarrow> string" where
  "rest react last_words s =
     (if at_end s then [] else answer react last_words (child s) (in_pipe s @ to_write s))"

definition pipe_inv :: "('q \<Rightarrow> char \<Rightarrow> 'q \<times> string) \<Rightarrow> ('q \<Rightarrow> string) \<Rightarrow> 'q \<Rightarrow> string \<Rightarrow> 'q pipes \<Rightarrow> bool" where
  "pipe_inv react last_words q input s \<longleftrightarrow>
     got s @ out_pipe s @ pending s @ rest react last_words s = answer react last_words q input \<and>
     length (in_pipe s) + length (to_write s) \<le> length input \<and>
     (phase s = Writing \<longrightarrow> got s = [] \<and> \<not> at_end s) \<and> (phase s \<noteq> Writing \<longrightarrow> to_write s = []) \<and>
     (at_end s \<longrightarrow> in_pipe s = []) \<and> (exited s \<longrightarrow> at_end s \<and> pending s = []) \<and>
     (phase s = Waited \<longrightarrow> exited s \<and> out_pipe s = [])"

lemma pipe_inv_init: "pipe_inv react last_words q input (pipe_init q input)"
  by (simp add: pipe_inv_def pipe_init_def rest_def)

lemma pipe_inv_step:
  assumes "pipe_inv react last_words q input s" "pipe_step react last_words cap room s s'"
  shows "pipe_inv react last_words q input s'"
  using assms(2,1) by (cases rule: pipe_step.cases) (auto simp: pipe_inv_def rest_def)

text \<open>The parent never goes back to an earlier phase.\<close>

lemma pipe_phase_mono: "pipe_step react last_words cap room s s' \<Longrightarrow> phase s \<le> phase s'"
  by (cases rule: pipe_step.cases) (auto simp: less_eq_phase_def)

lemma pipe_inv_steps:
  "(pipe_step react last_words cap room)\<^sup>*\<^sup>* s s' \<Longrightarrow> pipe_inv react last_words q input s \<Longrightarrow>
   pipe_inv react last_words q input s'"
  by (induction rule: rtranclp_induct) (auto intro: pipe_inv_step)

lemma waited_answer:
  "pipe_inv react last_words q input s \<Longrightarrow> phase s = Waited \<Longrightarrow> got s = answer react last_words q input"
  by (auto simp: pipe_inv_def rest_def)

text \<open>Unless the parent has finished, or all three buffers are full while it is writing, something can
  happen.\<close>

definition pipe_stuck :: "nat \<Rightarrow> nat \<Rightarrow> 'q pipes \<Rightarrow> bool" where
  "pipe_stuck cap room s \<longleftrightarrow> phase s = Writing \<and> to_write s \<noteq> [] \<and>
     cap \<le> length (in_pipe s) \<and> room \<le> length (pending s) \<and> cap \<le> length (out_pipe s)"

lemma pipe_progress:
  assumes "pipe_inv react last_words q input s" "phase s \<noteq> Waited" "0 < cap" "0 < room"
    and "\<not> pipe_stuck cap room s"
  shows "\<exists>s'. pipe_step react last_words cap room s s'"
proof (cases "phase s")
  case Writing
  show ?thesis
  proof (cases "to_write s = [] \<or> length (in_pipe s) < cap")
    case True
    then show ?thesis using Writing pipe_step.write_in pipe_step.close_in by (metis neq_Nil_conv)
  next
    case False
    then obtain b bs where in_pipe: "in_pipe s = b # bs" using assms(3) by (cases "in_pipe s") auto
    show ?thesis
    proof (cases "length (pending s) < room")
      case True
      obtain q' out where "react (child s) b = (q', out)" by fastforce
      from pipe_step.child_read [where react = react, OF in_pipe True this] show ?thesis by blast
    next
      case pending: False
      then have out: "length (out_pipe s) < cap" using False Writing assms(5) by (simp add: pipe_stuck_def)
      from pending obtain c cs where "pending s = c # cs" using assms(4) by (cases "pending s") auto
      from pipe_step.child_write [OF this out] show ?thesis by blast
    qed
  qed
next
  case Reading
  show ?thesis
  proof (cases "out_pipe s")
    case (Cons b bs)
    then show ?thesis using Reading pipe_step.read_out by blast
  next
    case Nil
    show ?thesis
    proof (cases "pending s")
      case (Cons b bs)
      have "length (out_pipe s) < cap" using Nil assms(3) by simp
      from pipe_step.child_write [OF Cons this] show ?thesis by blast
    next
      case pending: Nil
      show ?thesis
      proof (cases "in_pipe s")
        case (Cons b bs)
        obtain q' out where "react (child s) b = (q', out)" by fastforce
        moreover have "length (pending s) < room" using pending assms(4) by simp
        ultimately show ?thesis using pipe_step.child_read [where react = react, OF Cons] by blast
      next
        case in_pipe: Nil
        have nw: "phase s \<noteq> Writing" using Reading by simp
        show ?thesis
          using pipe_step.child_end [OF nw in_pipe] pipe_step.child_exit [OF _ pending] pipe_step.read_end [OF Reading Nil]
          by blast
      qed
    qed
  qed
qed (use assms in simp)

definition pipe_rank :: "('q \<Rightarrow> char \<Rightarrow> 'q \<times> string) \<Rightarrow> ('q \<Rightarrow> string) \<Rightarrow> 'q pipes \<Rightarrow> nat" where
  "pipe_rank react last_words s =
     2 * length (to_write s) + length (in_pipe s) + (if at_end s then 0 else 1) + (if exited s then 0 else 1) +
     2 * (length (pending s) + length (rest react last_words s)) + length (out_pipe s) +
     (case phase s of Writing \<Rightarrow> 2 | Reading \<Rightarrow> 1 | Waited \<Rightarrow> 0)"

lemma pipe_rank_step:
  assumes "pipe_inv react last_words q input s" "pipe_step react last_words cap room s s'"
  shows "pipe_rank react last_words s' < pipe_rank react last_words s"
  using assms(2,1) by (cases rule: pipe_step.cases) (auto simp: pipe_rank_def pipe_inv_def rest_def)

lemma pipe_finishes:
  assumes "0 < cap" "0 < room" "\<And>s. pipe_inv react last_words q input s \<Longrightarrow> \<not> pipe_stuck cap room s"
  shows "pipe_inv react last_words q input s \<Longrightarrow>
    \<exists>s'. (pipe_step react last_words cap room)\<^sup>*\<^sup>* s s' \<and> phase s' = Waited"
proof (induction "pipe_rank react last_words s" arbitrary: s rule: less_induct)
  case less
  show ?case
  proof (cases "phase s = Waited")
    case False
    then obtain s1 where s1: "pipe_step react last_words cap room s s1"
      using pipe_progress [OF less.prems False assms(1,2) assms(3) [OF less.prems]] by blast
    from less.hyps [OF pipe_rank_step [OF less.prems s1] pipe_inv_step [OF less.prems s1]] s1
    show ?thesis by (meson converse_rtranclp_into_rtranclp)
  qed blast
qed

lemma small_input_not_stuck:
  "pipe_inv react last_words q input s \<Longrightarrow> length input \<le> cap \<Longrightarrow> \<not> pipe_stuck cap room s"
  by (cases "to_write s") (auto simp: pipe_inv_def pipe_stuck_def)

text \<open>Whatever \<^verbatim>\<open>grep\<close> computes, byte by byte, \<^verbatim>\<open>pipe_through_grep\<close> returns all of its answer to the
  whole input, if that is text, and with an input that fits into a pipe it always returns.\<close>

theorem pipe_through_grep_answer:
  assumes "0 < cap" "0 < room" "pipe_through_grep react last_words grep cap room pattern input s"
  shows "(phase s = Waited \<longrightarrow> got s = answer react last_words (grep pattern) input \<and>
      (utf8_valid (got s) \<longrightarrow> grep_result s = Inr (answer react last_words (grep pattern) input))) \<and>
    (length input \<le> cap \<longrightarrow> (\<exists>s'. (pipe_step react last_words cap room)\<^sup>*\<^sup>* s s' \<and> phase s' = Waited))"
proof -
  have inv: "pipe_inv react last_words (grep pattern) input s"
    using pipe_inv_steps [OF assms(3) [unfolded pipe_through_grep_def] pipe_inv_init] .
  then show ?thesis using waited_answer [OF inv] pipe_finishes [OF assms(1,2) small_input_not_stuck inv]
    by (auto simp: grep_result_def)
qed

section \<open>cat\<close>

lemma answer_cat: "answer cat_react (\<lambda>_. []) q input = input"
  by (induction input) (simp_all add: cat_react_def)

lemma cat_holds_input:
  assumes "pipe_inv cat_react (\<lambda>_. []) () input s" "phase s = Writing"
  shows "length (out_pipe s) + length (pending s) + length (in_pipe s) + length (to_write s) = length input"
proof -
  have "got s @ out_pipe s @ pending s @ in_pipe s @ to_write s = input" "got s = []"
    using assms unfolding pipe_inv_def rest_def answer_cat by auto
  then show ?thesis by (metis append_Nil length_append add.assoc)
qed

lemma cat_not_stuck:
  assumes "pipe_inv cat_react (\<lambda>_. []) () input s" "length input \<le> 2 * cap + room"
  shows "\<not> pipe_stuck cap room s"
  using cat_holds_input [OF assms(1)] assms(2) by (cases "to_write s") (auto simp: pipe_stuck_def)

text \<open>Between the parent and \<^verbatim>\<open>cat\<close> no more than two pipes and the room of \<^verbatim>\<open>cat\<close> are full.\<close>

definition cat_bounds :: "nat \<Rightarrow> nat \<Rightarrow> unit pipes \<Rightarrow> bool" where
  "cat_bounds cap room s \<longleftrightarrow>
     length (in_pipe s) \<le> cap \<and> length (pending s) \<le> room \<and> length (out_pipe s) \<le> cap"

lemma cat_bounds_step:
  "cat_bounds cap room s \<Longrightarrow> pipe_step cat_react (\<lambda>_. []) cap room s s' \<Longrightarrow> cat_bounds cap room s'"
  by (erule pipe_step.cases) (auto simp: cat_bounds_def cat_react_def)

lemma cat_blocked:
  assumes inv: "pipe_inv cat_react (\<lambda>_. []) () input s" and bounds: "cat_bounds cap room s"
    and big: "2 * cap + room < length input" and writing: "phase s = Writing"
    and st: "pipe_step cat_react (\<lambda>_. []) cap room s s'"
  shows "phase s' = Writing"
  using st
proof (cases rule: pipe_step.cases)
  case close_in
  then show ?thesis using cat_holds_input [OF inv writing] bounds big by (simp add: cat_bounds_def)
qed (use writing in auto)



theorem pipe_through_grep_answer_witness:
  "\<exists>s. pipe_through_grep (\<lambda>q b. (q, if b = q then [b] else [])) (\<lambda>_. [LF]) hd 4 1 ''a'' ''abca'' s \<and>
     phase s = Waited \<and> got s = ''aa'' @ [LF]"
proof -
  let ?run = "pipe_through_grep (\<lambda>q b. (q, if b = q then [b] else [])) (\<lambda>_. [LF]) hd 4 1 ''a'' ''abca''"
  have start: "?run (pipe_init (CHR ''a'') ''abca'')" by (simp add: pipe_through_grep_def)
  have "(0 :: nat) < 4" "(0 :: nat) < 1" by simp_all
  note grep = pipe_through_grep_answer [OF this]
  have "length ''abca'' \<le> 4" by simp
  with grep [OF start] have "\<exists>s. ?run s \<and> phase s = Waited"
    unfolding pipe_through_grep_def by simp
  then obtain s where s: "phase s = Waited" "?run s" by blast
  with grep [OF s(2)] show ?thesis by auto
qed

end
