(* ===== verification/Futures.thy ===== *)
theory Futures
  imports Prelude
begin

text \<open>
  \<^verbatim>\<open>exercises/05_async_programming/01_basic_future/src/lib.rs\<close>: futures written by hand. A poll gives the
  output, if the future is ready, the future afterwards, and whether the waker has been called. What
  a future owes its executor is a locale; an executor that polls again whenever it has been woken,
  and sleeps for ever otherwise, then always gets the output.
\<close>

section \<open>The futures\<close>

type_synonym ('s, 'a) poll_fn = "'s \<Rightarrow> ('a option \<times> 's \<times> bool) res"

record CountDown =
  count :: u32

definition countdown_new :: "u32 \<Rightarrow> CountDown" where
  "countdown_new c = \<lparr>count = c\<rparr>"

definition poll_countdown :: "bool \<Rightarrow> (CountDown, string) poll_fn" where
  "poll_countdown ck s =
     (if count s = 0 then Inr (Some ''liftoff!'', s, False)
      else bind_res (sub_ck ck (count s) 1) (\<lambda>c. Inr (None, s\<lparr>count := c\<rparr>, True)))"

record YieldOnce =
  yielded :: bool

definition yield_once_new :: YieldOnce where
  "yield_once_new = \<lparr>yielded = False\<rparr>"

definition poll_yield_once :: "(YieldOnce, unit) poll_fn" where
  "poll_yield_once s =
     (if yielded s then Inr (Some (), s, False) else Inr (None, s\<lparr>yielded := True\<rparr>, True))"

section \<open>The executor\<close>

text \<open>\<open>None\<close>: the executor never comes back.\<close>

partial_function (option) block_on :: "('s, 'a) poll_fn \<Rightarrow> 's \<Rightarrow> ('a \<times> 's) res option" where
  "block_on poll s =
     (case poll s of
        Inl e \<Rightarrow> Some (Inl e)
      | Inr (Some x, s', w) \<Rightarrow> Some (Inr (x, s'))
      | Inr (None, s', w) \<Rightarrow> if w then block_on poll s' else None)"

text \<open>The outcomes of the first \<open>n\<close> polls.\<close>

fun polls :: "('s, 'a) poll_fn \<Rightarrow> nat \<Rightarrow> 's \<Rightarrow> ('a option \<times> bool) list res" where
  "polls poll 0 s = Inr []"
| "polls poll (Suc n) s =
     bind_res (poll s) (\<lambda>(x, s', w). bind_res (polls poll n s') (\<lambda>xs. Inr ((x, w) # xs)))"

section \<open>What a future owes its executor\<close>

text \<open>A pending future wakes its task and comes closer to its output; \<open>steps s\<close> polls are pending before
  the output \<open>result\<close>.\<close>

locale waking_future =
  fixes poll :: "('s, 'a) poll_fn"
    and steps :: "'s \<Rightarrow> nat"
    and result :: 'a
  assumes ready: "steps s = 0 \<Longrightarrow> \<exists>s'. poll s = Inr (Some result, s', False)"
    and pending: "0 < steps s \<Longrightarrow> \<exists>s'. poll s = Inr (None, s', True) \<and> Suc (steps s') = steps s"
begin

lemma block_on_returns: "\<exists>s'. block_on poll s = Some (Inr (result, s'))"
proof (induction "steps s" arbitrary: s)
  case 0
  then show ?case using ready [of s] by (subst block_on.simps) auto
next
  case (Suc n)
  then obtain s' where "poll s = Inr (None, s', True)" "steps s' = n"
    using pending [of s] by (metis Suc_inject zero_less_Suc)
  then show ?case using Suc(1) [of s'] by (subst block_on.simps) auto
qed

lemma polls_until_ready:
  "polls poll (Suc (steps s)) s = Inr (replicate (steps s) (None, True) @ [(Some result, False)])"
proof (induction "steps s" arbitrary: s)
  case 0
  then show ?case using ready [of s] by auto
next
  case (Suc n)
  then obtain s' where s': "poll s = Inr (None, s', True)" "steps s' = n"
    using pending [of s] by (metis Suc_inject zero_less_Suc)
  then have "polls poll (Suc n) s' = Inr (replicate n (None, True) @ [(Some result, False)])"
    using Suc(1) [of s'] by simp
  then show ?case using s'(1) Suc(2) [symmetric] by (simp del: polls.simps add: polls.simps(2) [of poll "Suc n" s])
qed

end

interpretation countdown: waking_future "poll_countdown ck" "\<lambda>s. unat (count s)" "''liftoff!''" for ck
proof
  show "\<exists>s'. poll_countdown ck s = Inr (Some ''liftoff!'', s', False)" if "unat (count s) = 0" for s :: CountDown
    using that by (simp add: poll_countdown_def unat_eq_0)
  show "\<exists>s'. poll_countdown ck s = Inr (None, s', True) \<and> Suc (unat (count s')) = unat (count s)"
    if "0 < unat (count s)" for s :: CountDown
  proof -
    have nz: "count s \<noteq> 0" using that by auto
    then have "\<not> count s < 1" by (simp add: word_less_nat_alt unat_eq_0 flip: unat_gt_0)
    then have "sub_ck ck (count s) 1 = Inr (count s - 1)" by (simp add: sub_ck_def)
    moreover have "Suc (unat (count s - 1)) = unat (count s)" using nz by (simp add: unat_minus_one that)
    ultimately show ?thesis using nz by (simp add: poll_countdown_def)
  qed
qed

interpretation yield_once: waking_future poll_yield_once "\<lambda>s. if yielded s then 0 else 1" "()"
  by unfold_locales (auto simp: poll_yield_once_def split: if_splits)

text \<open>C39: A count down from \<open>c\<close> is pending exactly \<open>c\<close> times, each time having woken its task, and then
  gives its output; no subtraction overflows. An executor that polls only when woken gets the output,
  of it and of \<^verbatim>\<open>YieldOnce\<close>, which is pending once.\<close>

theorem futures_get_ready:
  "polls (poll_countdown ck) (unat c + 1) (countdown_new c) =
     Inr (replicate (unat c) (None, True) @ [(Some ''liftoff!'', False)]) \<and>
   (\<exists>s. block_on (poll_countdown ck) (countdown_new c) = Some (Inr (''liftoff!'', s))) \<and>
   polls poll_yield_once 2 yield_once_new = Inr [(None, True), (Some (), False)] \<and>
   (\<exists>s. block_on poll_yield_once yield_once_new = Some (Inr ((), s)))"
  using countdown.polls_until_ready [of ck "countdown_new c"] countdown.block_on_returns [of ck]
    yield_once.polls_until_ready [of yield_once_new] yield_once.block_on_returns
  by (simp add: countdown_new_def yield_once_new_def numeral_2_eq_2 del: polls.simps)

text \<open>A future that does not wake its task hangs in this executor: without the call of the waker the
  count down would never end.\<close>

lemma silent_future_hangs: "poll s = Inr (None, s', False) \<Longrightarrow> block_on poll s = None"
  by (subst block_on.simps) simp

end
