(* ===== verification/SelectTimeout.thy ===== *)
theory SelectTimeout
  imports Prelude
begin

text \<open>
  \<^verbatim>\<open>exercises/05_async_programming/04_select_timeout/src/lib.rs\<close>: a time limit for a future and a race
  of two. A future is seen from outside, as the milliseconds after which it completes and its value;
  \<^verbatim>\<open>timeout\<close>, \<^verbatim>\<open>select!\<close> and \<^verbatim>\<open>sleep\<close> are tokio's, and parameters.
\<close>

section \<open>Futures in time\<close>

text \<open>\<open>None\<close>: it never completes.\<close>

type_synonym 'a timed = "(nat \<times> 'a) option"

datatype elapsed = Elapsed

definition ready :: "'a \<Rightarrow> 'a timed" where
  "ready x = Some (0, x)"

text \<open>What follows an \<^verbatim>\<open>await\<close> and takes no time.\<close>

definition await_map :: "('a \<Rightarrow> 'b) \<Rightarrow> 'a timed \<Rightarrow> 'b timed" where
  "await_map f fut = map_option (map_prod id f) fut"

text \<open>It completes before the time \<open>t\<close>; by the time \<open>t\<close>.\<close>

definition before :: "'a timed \<Rightarrow> nat \<Rightarrow> bool" where
  "before fut t \<longleftrightarrow> (case fut of None \<Rightarrow> False | Some (u, _) \<Rightarrow> u < t)"

definition by_then :: "'a timed \<Rightarrow> nat \<Rightarrow> bool" where
  "by_then fut t \<longleftrightarrow> (case fut of None \<Rightarrow> False | Some (u, _) \<Rightarrow> u \<le> t)"

section \<open>The functions\<close>

definition with_timeout ::
  "(nat \<Rightarrow> 'a timed \<Rightarrow> (elapsed + 'a) timed) \<Rightarrow> 'a timed \<Rightarrow> u64 \<Rightarrow> 'a option timed" where
  "with_timeout timeout future timeout_ms =
     await_map (\<lambda>r. case r of Inr result \<Rightarrow> Some result | Inl _ \<Rightarrow> None) (timeout (unat timeout_ms) future)"

text \<open>\<open>select\<close> tells which branch it takes.\<close>

definition race :: "('a timed \<Rightarrow> 'a timed \<Rightarrow> ('a + 'a) timed) \<Rightarrow> 'a timed \<Rightarrow> 'a timed \<Rightarrow> 'a timed" where
  "race select f1 f2 = await_map (\<lambda>b. case b of Inl res1 \<Rightarrow> res1 | Inr res2 \<Rightarrow> res2) (select f1 f2)"

section \<open>The documented behaviour of tokio\<close>

text \<open>A future that completes before the time is up gives its value, one that does not complete by then is
  cancelled; when both happen at once, either. The clock counts milliseconds and is exact.\<close>

definition keeps_time :: "(nat \<Rightarrow> 'a timed \<Rightarrow> (elapsed + 'a) timed) \<Rightarrow> bool" where
  "keeps_time timeout \<longleftrightarrow>
     (\<forall>ms fut. (before fut ms \<longrightarrow> timeout ms fut = await_map Inr fut) \<and>
       (\<not> by_then fut ms \<longrightarrow> timeout ms fut = Some (ms, Inl Elapsed)) \<and>
       timeout ms fut \<in> {await_map Inr fut, Some (ms, Inl Elapsed)})"

text \<open>\<^verbatim>\<open>select!\<close> takes the branch that completes first, and either if they complete at once.\<close>

definition takes_first :: "('a timed \<Rightarrow> 'b timed \<Rightarrow> ('a + 'b) timed) \<Rightarrow> bool" where
  "takes_first select \<longleftrightarrow>
     (\<forall>f1 f2. select f1 f2 \<in> {await_map Inl f1, await_map Inr f2} \<and>
       (\<forall>t. by_then f1 t \<or> by_then f2 t \<longrightarrow> by_then (select f1 f2) t))"

definition sleeps :: "(nat \<Rightarrow> unit timed) \<Rightarrow> bool" where
  "sleeps sleep \<longleftrightarrow> (\<forall>ms. sleep ms = Some (ms, ()))"

section \<open>What the functions return\<close>

text \<open>Never after the time is up; and what the future gives, if it gives it in time.\<close>

lemma with_timeout_in_time:
  assumes "keeps_time timeout"
  shows "by_then (with_timeout timeout fut ms) (unat ms)"
    and "before fut (unat ms) \<Longrightarrow> with_timeout timeout fut ms = await_map Some fut"
    and "\<not> by_then fut (unat ms) \<Longrightarrow> with_timeout timeout fut ms = Some (unat ms, None)"
proof -
  let ?r = "timeout (unat ms) fut"
  have t: "before fut (unat ms) \<Longrightarrow> ?r = await_map Inr fut"
    "\<not> by_then fut (unat ms) \<Longrightarrow> ?r = Some (unat ms, Inl Elapsed)"
    "?r = await_map Inr fut \<or> ?r = Some (unat ms, Inl Elapsed)"
    using assms by (auto simp: keeps_time_def)
  show "before fut (unat ms) \<Longrightarrow> with_timeout timeout fut ms = await_map Some fut"
    using t(1) by (cases fut) (auto simp: with_timeout_def await_map_def)
  show "\<not> by_then fut (unat ms) \<Longrightarrow> with_timeout timeout fut ms = Some (unat ms, None)"
    using t(2) by (auto simp: with_timeout_def await_map_def)
  show "by_then (with_timeout timeout fut ms) (unat ms)"
    using t(2,3) by (cases "by_then fut (unat ms)")
      (auto simp: with_timeout_def await_map_def by_then_def split: option.splits)
qed

text \<open>As soon as one of the two, with the value of one that has completed.\<close>

lemma race_first:
  assumes "takes_first select"
  shows "race select f1 f2 \<in> {f1, f2}"
    and "by_then f1 t \<or> by_then f2 t \<Longrightarrow> by_then (race select f1 f2) t"
proof -
  have s: "select f1 f2 = await_map Inl f1 \<or> select f1 f2 = await_map Inr f2"
    "by_then f1 t \<or> by_then f2 t \<Longrightarrow> by_then (select f1 f2) t"
    using assms unfolding takes_first_def by blast+
  show "race select f1 f2 \<in> {f1, f2}"
    using s(1) by (auto simp: race_def await_map_def option.map_comp comp_def map_prod_def case_prod_unfold option.map_ident)
  show "by_then f1 t \<or> by_then f2 t \<Longrightarrow> by_then (race select f1 f2) t"
    using s(2) by (auto simp: race_def await_map_def by_then_def split: option.splits)
qed

section \<open>The unit tests\<close>

text \<open>\<^verbatim>\<open>async { sleep(Duration::from_millis(ms)).await; x }\<close>.\<close>

definition after :: "(nat \<Rightarrow> unit timed) \<Rightarrow> u64 \<Rightarrow> 'a \<Rightarrow> 'a timed" where
  "after sleep ms x = await_map (\<lambda>_. x) (sleep (unat ms))"

definition returns_value :: "'a timed \<Rightarrow> 'a \<Rightarrow> bool" where
  "returns_value fut x \<longleftrightarrow> (case fut of None \<Rightarrow> False | Some (_, y) \<Rightarrow> y = x)"

definition test_timeout_success :: "(nat \<Rightarrow> i32 timed \<Rightarrow> (elapsed + i32) timed) \<Rightarrow> bool" where [tests]:
  "test_timeout_success timeout = returns_value (with_timeout timeout (ready 42) 100) (Some 42)"

definition test_timeout_expired ::
  "(nat \<Rightarrow> unit timed) \<Rightarrow> (nat \<Rightarrow> i32 timed \<Rightarrow> (elapsed + i32) timed) \<Rightarrow> bool" where [tests]:
  "test_timeout_expired sleep timeout = returns_value (with_timeout timeout (after sleep 200 42) 50) None"

definition test_race_first_wins ::
  "(nat \<Rightarrow> unit timed) \<Rightarrow> (string timed \<Rightarrow> string timed \<Rightarrow> (string + string) timed) \<Rightarrow> bool" where [tests]:
  "test_race_first_wins sleep select =
     returns_value (race select (after sleep 10 ''fast'') (after sleep 200 ''slow'')) ''fast''"

definition test_race_second_wins ::
  "(nat \<Rightarrow> unit timed) \<Rightarrow> (string timed \<Rightarrow> string timed \<Rightarrow> (string + string) timed) \<Rightarrow> bool" where [tests]:
  "test_race_second_wins sleep select =
     returns_value (race select (after sleep 200 ''slow'') (after sleep 10 ''fast'')) ''fast''"

lemma timeout_tests:
  assumes "keeps_time timeout" "sleeps sleep"
  shows "test_timeout_success timeout" "test_timeout_expired sleep timeout"
  using with_timeout_in_time(2) [OF assms(1), of "ready 42" 100]
    with_timeout_in_time(3) [OF assms(1), of "after sleep 200 42" 50] assms(2)
  by (simp_all add: tests ready_def after_def sleeps_def await_map_def before_def by_then_def returns_value_def)

lemma race_tests:
  assumes "takes_first select" "sleeps sleep"
  shows "test_race_first_wins sleep select" "test_race_second_wins sleep select"
  using race_first(1) [OF assms(1), of "after sleep 10 ''fast''" "after sleep 200 ''slow''"]
    race_first(2) [OF assms(1), of "after sleep 10 ''fast''" 10 "after sleep 200 ''slow''"]
    race_first(1) [OF assms(1), of "after sleep 200 ''slow''" "after sleep 10 ''fast''"]
    race_first(2) [OF assms(1), of "after sleep 200 ''slow''" 10 "after sleep 10 ''fast''"] assms(2)
  by (auto simp: tests after_def sleeps_def await_map_def by_then_def returns_value_def)

text \<open>There are such functions.\<close>

definition exact_timeout :: "nat \<Rightarrow> 'a timed \<Rightarrow> (elapsed + 'a) timed" where
  "exact_timeout ms fut = (if by_then fut ms then await_map Inr fut else Some (ms, Inl Elapsed))"

definition left_select :: "'a timed \<Rightarrow> 'b timed \<Rightarrow> ('a + 'b) timed" where
  "left_select f1 f2 =
     (case f1 of
        Some (t, _) \<Rightarrow> if before f2 t then await_map Inr f2 else await_map Inl f1
      | None \<Rightarrow> await_map Inr f2)"

lemma tokio_possible: "keeps_time exact_timeout" "takes_first left_select" "sleeps (\<lambda>ms. Some (ms, ()))"
proof -
  show "keeps_time exact_timeout"
    by (auto simp: keeps_time_def exact_timeout_def before_def by_then_def split: option.splits)
  show "takes_first left_select"
    by (auto simp: takes_first_def left_select_def before_def by_then_def await_map_def split: option.splits)
qed (simp add: sleeps_def)

end
