(* ===== verification/PteFlagsTests.thy ===== *)
theory PteFlagsTests
  imports PteFlags
begin

text \<open>
  The unit tests of \<^verbatim>\<open>exercises/06_page_table/01_pte_flags/src/lib.rs\<close> on the model, assertion by assertion.
\<close>

definition test_make_pte_basic :: bool where [tests]:
  "test_make_pte_basic \<longleftrightarrow>
     (let pte = make_pte 0x12345 (PTE_V OR PTE_R OR PTE_W) in
      extract_ppn pte = 0x12345 \<and>
      extract_flags pte = PTE_V OR PTE_R OR PTE_W)"

definition test_make_pte_zero :: bool where [tests]:
  "test_make_pte_zero \<longleftrightarrow>
     (let pte = make_pte 0 0 in pte = 0 \<and> extract_ppn pte = 0 \<and> extract_flags pte = 0)"

definition test_make_pte_all_flags :: bool where [tests]:
  "test_make_pte_all_flags \<longleftrightarrow>
     (let all = PTE_V OR PTE_R OR PTE_W OR PTE_X OR
                PTE_U OR PTE_G OR PTE_A OR PTE_D;
          pte = make_pte 0xABC all in
      extract_ppn pte = 0xABC \<and> extract_flags pte = all)"

definition test_make_pte_large_ppn :: bool where [tests]:
  "test_make_pte_large_ppn \<longleftrightarrow>
     (let ppn = push_bit 44 1 - 1; pte = make_pte ppn PTE_V in extract_ppn pte = ppn)"

definition test_is_valid :: bool where [tests]:
  "test_is_valid \<longleftrightarrow>
     is_valid (make_pte 1 PTE_V) \<and> \<not> is_valid (make_pte 1 PTE_R) \<and> \<not> is_valid 0"

definition test_is_leaf :: bool where [tests]:
  "test_is_leaf \<longleftrightarrow>
     is_leaf (make_pte 1 (PTE_V OR PTE_R)) \<and>
     is_leaf (make_pte 1 (PTE_V OR PTE_X)) \<and>
     is_leaf (make_pte 1 (PTE_V OR PTE_R OR PTE_W OR PTE_X)) \<and>
     \<not> is_leaf (make_pte 1 PTE_V) \<and>
     \<not> is_leaf (make_pte 1 (PTE_V OR PTE_A OR PTE_D))"

definition test_check_permission_read :: bool where [tests]:
  "test_check_permission_read \<longleftrightarrow>
     (let pte = make_pte 1 (PTE_V OR PTE_R) in
      check_permission pte True False False \<and>
      \<not> check_permission pte False True False \<and>
      \<not> check_permission pte False False True)"

definition test_check_permission_rw :: bool where [tests]:
  "test_check_permission_rw \<longleftrightarrow>
     (let pte = make_pte 1 (PTE_V OR PTE_R OR PTE_W) in
      check_permission pte True True False \<and> \<not> check_permission pte True True True)"

definition test_check_permission_all :: bool where [tests]:
  "test_check_permission_all \<longleftrightarrow>
     (let pte = make_pte 1 (PTE_V OR PTE_R OR PTE_W OR PTE_X) in
      check_permission pte True True True \<and>
      check_permission pte True False False \<and>
      check_permission pte False False False)"

definition test_check_permission_invalid :: bool where [tests]:
  "test_check_permission_invalid \<longleftrightarrow>
     (let pte = make_pte 1 (PTE_R OR PTE_W OR PTE_X) in
      \<not> check_permission pte True False False)"

lemma pte_flags_tests:
  "test_make_pte_basic" "test_make_pte_zero" "test_make_pte_all_flags" "test_make_pte_large_ppn"
  "test_is_valid" "test_is_leaf" "test_check_permission_read" "test_check_permission_rw"
  "test_check_permission_all" "test_check_permission_invalid"
  by (simp_all add: tests make_pte_def extract_ppn_def extract_flags_def is_valid_def is_leaf_def
      check_permission_def PTE_bits PPN_SHIFT_def PPN_MASK_def)

end
