(* ===== verification/SingleLevelTests.thy ===== *)
theory SingleLevelTests
  imports SingleLevelPageTable
begin

text \<open>
  The unit tests of \<^verbatim>\<open>exercises/06_page_table/02_page_table_walk/src/lib.rs\<close> on the model, assertion by
  assertion. A call that may panic is under \<open>yields\<close>: it does not, and the test goes on with its result.
\<close>

definition test_va_decompose :: bool where [tests]:
  "test_va_decompose \<longleftrightarrow> va_to_vpn 0x12345678 = 0x12345 \<and> va_to_offset 0x12345678 = 0x678"

definition test_va_decompose_zero :: bool where [tests]:
  "test_va_decompose_zero \<longleftrightarrow> va_to_vpn 0 = 0 \<and> va_to_offset 0 = 0"

definition test_va_decompose_page_boundary :: bool where [tests]:
  "test_va_decompose_page_boundary \<longleftrightarrow> va_to_vpn 0x3000 = 3 \<and> va_to_offset 0x3000 = 0"

definition test_make_pa :: bool where [tests]:
  "test_make_pa \<longleftrightarrow>
     make_pa 0x80 0x100 = 0x80 * 4096 + 0x100 \<and> make_pa 0 0 = 0 \<and> make_pa 1 0 = 4096"

definition test_map_and_lookup :: bool where [tests]:
  "test_map_and_lookup \<longleftrightarrow>
     yields (map_pt (new 1024) 5 100 (PTE_VALID OR PTE_READ)) (\<lambda>pt.
     yields (bind_res (lookup pt 5) unwrap) (\<lambda>entry.
       ppn entry = 100 \<and>
       flags entry = PTE_VALID OR PTE_READ))"

definition test_lookup_unmapped :: bool where [tests]:
  "test_lookup_unmapped \<longleftrightarrow>
     yields (lookup (new 1024) 0) (\<lambda>e. e = None)"

definition test_unmap :: bool where [tests]:
  "test_unmap \<longleftrightarrow>
     yields (map_pt (new 1024) 10 200 (PTE_VALID OR PTE_READ)) (\<lambda>pt.
     yields (lookup pt 10) (\<lambda>e. e \<noteq> None) \<and>
     yields (unmap pt 10) (\<lambda>pt.
     yields (lookup pt 10) (\<lambda>e. e = None)))"

definition test_translate_basic :: bool where [tests]:
  "test_translate_basic \<longleftrightarrow>
     yields (map_pt (new 1024) 1 0x80 (PTE_VALID OR PTE_READ)) (\<lambda>pt.
     yields (translate pt 0x1100 False) (\<lambda>result.
       result = Ok 0x80100))"

definition test_translate_page_fault :: bool where [tests]:
  "test_translate_page_fault \<longleftrightarrow>
     yields (translate (new 1024) 0x5000 False) (\<lambda>r.
       r = PageFault)"

definition test_translate_write_permission :: bool where [tests]:
  "test_translate_write_permission \<longleftrightarrow>
     yields (map_pt (new 1024) 2 0x90 (PTE_VALID OR PTE_READ)) (\<lambda>pt.
     yields (translate pt 0x2000 False) (\<lambda>r.
       r = Ok (0x90 * of_nat PAGE_SIZE)) \<and>
     yields (translate pt 0x2000 True) (\<lambda>r. r = PermissionDenied))"

definition test_translate_writable_page :: bool where [tests]:
  "test_translate_writable_page \<longleftrightarrow>
     yields (map_pt (new 1024) 3 0xA0 (PTE_VALID OR PTE_READ OR PTE_WRITE)) (\<lambda>pt.
     yields (translate pt 0x3456 True) (\<lambda>r.
       r = Ok (0xA0 * of_nat PAGE_SIZE + 0x456)))"

definition test_translate_invalid_entry :: bool where [tests]:
  "test_translate_invalid_entry \<longleftrightarrow>
     yields (map_pt (new 1024) 4 0x50 PTE_READ) (\<lambda>pt.
     yields (translate pt 0x4000 False) (\<lambda>r. r = PageFault))"

definition test_multiple_mappings :: bool where [tests]:
  "test_multiple_mappings \<longleftrightarrow>
     yields (map_pt (new 1024) 0 0x10 (PTE_VALID OR PTE_READ)) (\<lambda>pt.
     yields (map_pt pt 1 0x20 (PTE_VALID OR PTE_READ OR PTE_WRITE)) (\<lambda>pt.
     yields (map_pt pt 2 0x30 (PTE_VALID OR PTE_READ)) (\<lambda>pt.
     yields (translate pt 0x0FFF False) (\<lambda>r. r = Ok 0x10FFF) \<and>
     yields (translate pt 0x1000 True) (\<lambda>r. r = Ok 0x20000) \<and>
     yields (translate pt 0x2800 False) (\<lambda>r. r = Ok 0x30800))))"

lemmas single_level_defs = va_to_vpn_def va_to_offset_def make_pa_def PAGE_OFFSET_BITS_def
  PAGE_SIZE_def map_pt_def unmap_def lookup_def
  translate_def new_def PTE_VALID_def PTE_READ_def PTE_WRITE_def

lemma page_table_walk_tests:
  "test_va_decompose" "test_va_decompose_zero" "test_va_decompose_page_boundary" "test_make_pa"
  "test_map_and_lookup" "test_lookup_unmapped" "test_unmap" "test_translate_basic"
  "test_translate_page_fault" "test_translate_write_permission" "test_translate_writable_page"
  "test_translate_invalid_entry" "test_multiple_mappings"
  by (simp_all add: tests single_level_defs)

end
