(* ===== verification/Sv39Tests.thy ===== *)
theory Sv39Tests
  imports Sv39PageTable
begin

text \<open>
  The unit tests of \<^verbatim>\<open>exercises/06_page_table/03_multi_level_pt/src/lib.rs\<close> on the model, assertion by
  assertion. A call that may panic is under \<open>yields\<close>: it does not, and the test goes on with its result.
  They hold with overflow checks, as in \<^verbatim>\<open>cargo test\<close>, and without.
\<close>

definition test_extract_vpn :: "bool \<Rightarrow> bool" where [tests]:
  "test_extract_vpn ck \<longleftrightarrow>
     (let va = 0x7FFFFFF000 in
      extract_vpn ck va 2 = Inr 0x1FF \<and> extract_vpn ck va 1 = Inr 0x1FF \<and> extract_vpn ck va 0 = Inr 0x1FF)"

definition test_extract_vpn_simple :: "bool \<Rightarrow> bool" where [tests]:
  "test_extract_vpn_simple ck \<longleftrightarrow>
     (let va = 0x1000 in
      extract_vpn ck va 2 = Inr 0 \<and> extract_vpn ck va 1 = Inr 0 \<and> extract_vpn ck va 0 = Inr 1)"

definition test_extract_vpn_level2 :: "bool \<Rightarrow> bool" where [tests]:
  "test_extract_vpn_level2 ck \<longleftrightarrow>
     (let va = 0x40000000 in
      extract_vpn ck va 2 = Inr 1 \<and> extract_vpn ck va 1 = Inr 0 \<and> extract_vpn ck va 0 = Inr 0)"

definition test_map_and_translate_single :: "bool \<Rightarrow> bool" where [tests]:
  "test_map_and_translate_single ck \<longleftrightarrow>
     yields (map_page ck new 0x1000 0x80001000 (PTE_V OR PTE_R)) (\<lambda>pt.
     yields (translate ck pt 0x1000) (\<lambda>r. r = Ok 0x80001000))"

definition test_translate_with_offset :: "bool \<Rightarrow> bool" where [tests]:
  "test_translate_with_offset ck \<longleftrightarrow>
     yields (map_page ck new 0x2000 0x90000000 (PTE_V OR PTE_R OR PTE_W)) (\<lambda>pt.
     yields (translate ck pt 0x2ABC) (\<lambda>r. r = Ok 0x90000ABC))"

definition test_translate_page_fault :: "bool \<Rightarrow> bool" where [tests]:
  "test_translate_page_fault ck \<longleftrightarrow>
     (let pt = new in
     yields (translate ck pt 0x1000) (\<lambda>r. r = PageFault))"

definition test_multiple_mappings :: "bool \<Rightarrow> bool" where [tests]:
  "test_multiple_mappings ck \<longleftrightarrow>
     yields (map_page ck new 0x1000 0x80001000 (PTE_V OR PTE_R)) (\<lambda>pt.
     yields (map_page ck pt 0x2000 0x80005000 (PTE_V OR PTE_R OR PTE_W)) (\<lambda>pt.
     yields (map_page ck pt 0x400000 0x90000000 (PTE_V OR PTE_R)) (\<lambda>pt.
     yields (translate ck pt 0x1234) (\<lambda>r. r = Ok 0x80001234) \<and>
     yields (translate ck pt 0x2000) (\<lambda>r. r = Ok 0x80005000) \<and>
     yields (translate ck pt 0x400100) (\<lambda>r. r = Ok 0x90000100))))"

definition test_map_overwrite :: "bool \<Rightarrow> bool" where [tests]:
  "test_map_overwrite ck \<longleftrightarrow>
     yields (map_page ck new 0x1000 0x80001000 (PTE_V OR PTE_R)) (\<lambda>pt.
     yields (translate ck pt 0x1000) (\<lambda>r. r = Ok 0x80001000) \<and>
     yields (map_page ck pt 0x1000 0x90002000 (PTE_V OR PTE_R)) (\<lambda>pt.
     yields (translate ck pt 0x1000) (\<lambda>r. r = Ok 0x90002000)))"

definition test_superpage_mapping :: "bool \<Rightarrow> bool" where [tests]:
  "test_superpage_mapping ck \<longleftrightarrow>
     yields (map_superpage ck new 0x200000 0x80200000 (PTE_V OR PTE_R OR PTE_W)) (\<lambda>pt.
     yields (translate ck pt 0x200000) (\<lambda>r. r = Ok 0x80200000) \<and>
     yields (translate ck pt 0x200ABC) (\<lambda>r. r = Ok 0x80200ABC) \<and>
     yields (translate ck pt 0x2FF000) (\<lambda>r. r = Ok 0x802FF000))"

definition test_superpage_and_normal_coexist :: "bool \<Rightarrow> bool" where [tests]:
  "test_superpage_and_normal_coexist ck \<longleftrightarrow>
     yields (map_superpage ck new 0 0x80000000 (PTE_V OR PTE_R)) (\<lambda>pt.
     yields (map_page ck pt 0x40000000 0x90001000 (PTE_V OR PTE_R)) (\<lambda>pt.
     yields (translate ck pt 0x100) (\<lambda>r. r = Ok 0x80000100) \<and>
     yields (translate ck pt 0x40000000) (\<lambda>r. r = Ok 0x90001000)))"

lemmas sv39_defs = extract_vpn_def map_page_def map_superpage_def translate_def read_entry_def
  write_entry_def alloc_node_def add_ck_def node_new_def new_def PT_ENTRIES_def
  PAGE_SIZE_def PPN_SHIFT_def PTE_V_def
  PTE_R_def PTE_W_def PTE_X_def

lemma multi_level_pt_tests:
  "test_extract_vpn ck" "test_extract_vpn_simple ck" "test_extract_vpn_level2 ck"
  "test_map_and_translate_single ck" "test_translate_with_offset ck" "test_translate_page_fault ck"
  "test_multiple_mappings ck" "test_map_overwrite ck" "test_superpage_mapping ck"
  "test_superpage_and_normal_coexist ck"
  by (simp_all add: tests sv39_defs)

end
