(* ===== verification/TlbTests.thy ===== *)
theory TlbTests
  imports HitRate
begin

text \<open>
  The unit tests of \<^verbatim>\<open>exercises/06_page_table/04_tlb_sim/src/lib.rs\<close> on the model, assertion by assertion.
  They hold with overflow checks, as in \<^verbatim>\<open>cargo test\<close>, and without.
\<close>

section \<open>Lookups and insertions\<close>

definition test_tlb_empty_lookup :: "bool \<Rightarrow> bool" where [tests]:
  "test_tlb_empty_lookup ck \<longleftrightarrow>
     (let t = tlb_new 4 in
      yields (lookup ck t 0x100 0) (\<lambda>(r, t). r = None \<and>
      misses (stats t) = 1 \<and>
      hits (stats t) = 0))"

definition test_tlb_insert_and_lookup :: "bool \<Rightarrow> bool" where [tests]:
  "test_tlb_insert_and_lookup ck \<longleftrightarrow>
     (let t = tlb_new 4 in
      yields (tlb_insert t 0x100 0x200 1 7) (\<lambda>t.
      yields (lookup ck t 0x100 1) (\<lambda>(r, t). r = Some 0x200 \<and>
      hits (stats t) = 1)))"

definition test_tlb_asid_isolation :: "bool \<Rightarrow> bool" where [tests]:
  "test_tlb_asid_isolation ck \<longleftrightarrow>
     (let t = tlb_new 4 in
      yields (tlb_insert t 0x100 0x200 1 7) (\<lambda>t.
      yields (tlb_insert t 0x100 0x300 2 7) (\<lambda>t.
      yields (lookup ck t 0x100 1) (\<lambda>(r, t). r = Some 0x200 \<and>
      yields (lookup ck t 0x100 2) (\<lambda>(r, t). r = Some 0x300)))))"

definition test_tlb_miss_wrong_asid :: "bool \<Rightarrow> bool" where [tests]:
  "test_tlb_miss_wrong_asid ck \<longleftrightarrow>
     (let t = tlb_new 4 in
      yields (tlb_insert t 0x100 0x200 1 7) (\<lambda>t.
      yields (lookup ck t 0x100 99) (\<lambda>(r, t). r = None \<and>
      misses (stats t) = 1)))"

definition test_tlb_fifo_eviction :: "bool \<Rightarrow> bool" where [tests]:
  "test_tlb_fifo_eviction ck \<longleftrightarrow>
     (let t = tlb_new 2 in
      yields (tlb_insert t 0x10 0x20 0 7) (\<lambda>t.
      yields (tlb_insert t 0x30 0x40 0 7) (\<lambda>t.
      yields (tlb_insert t 0x50 0x60 0 7) (\<lambda>t.
      yields (lookup ck t 0x10 0) (\<lambda>(r, t). r = None \<and>
      yields (lookup ck t 0x30 0) (\<lambda>(r, t). r = Some 0x40 \<and>
      yields (lookup ck t 0x50 0) (\<lambda>(r, t). r = Some 0x60)))))))"

definition test_tlb_update_existing :: "bool \<Rightarrow> bool" where [tests]:
  "test_tlb_update_existing ck \<longleftrightarrow>
     (let t = tlb_new 4 in
      yields (tlb_insert t 0x100 0x200 1 3) (\<lambda>t.
      yields (tlb_insert t 0x100 0x999 1 7) (\<lambda>t.
      yields (lookup ck t 0x100 1) (\<lambda>(r, t). r = Some 0x999 \<and>
      valid_count t = 1))))"

definition test_tlb_valid_count :: "bool \<Rightarrow> bool" where [tests]:
  "test_tlb_valid_count ck \<longleftrightarrow>
     (let t = tlb_new 4 in
      valid_count t = 0 \<and>
      yields (tlb_insert t 1 0x10 0 7) (\<lambda>t.
      valid_count t = 1 \<and>
      yields (tlb_insert t 2 0x20 0 7) (\<lambda>t.
      valid_count t = 2)))"

section \<open>Flushes\<close>

definition test_flush_all :: "bool \<Rightarrow> bool" where [tests]:
  "test_flush_all ck \<longleftrightarrow>
     (let t = tlb_new 4 in
      yields (tlb_insert t 1 0x10 0 7) (\<lambda>t.
      yields (tlb_insert t 2 0x20 1 7) (\<lambda>t.
      yields (tlb_insert t 3 0x30 2 7) (\<lambda>t.
      valid_count t = 3 \<and>
      (let t = flush_all t in
      valid_count t = 0 \<and>
      yields (lookup ck t 1 0) (\<lambda>(r, t). r = None))))))"

definition test_flush_by_vpn :: "bool \<Rightarrow> bool" where [tests]:
  "test_flush_by_vpn ck \<longleftrightarrow>
     (let t = tlb_new 4 in
      yields (tlb_insert t 0x100 0x200 1 7) (\<lambda>t.
      yields (tlb_insert t 0x100 0x300 2 7) (\<lambda>t.
      yields (tlb_insert t 0x999 0x400 1 7) (\<lambda>t.
      (let t = flush_by_vpn t 0x100 in
      yields (lookup ck t 0x100 1) (\<lambda>(r, t). r = None \<and>
      yields (lookup ck t 0x100 2) (\<lambda>(r, t). r = None \<and>
      yields (lookup ck t 0x999 1) (\<lambda>(r, t). r = Some 0x400))))))))"

definition test_flush_by_asid :: "bool \<Rightarrow> bool" where [tests]:
  "test_flush_by_asid ck \<longleftrightarrow>
     (let t = tlb_new 4 in
      yields (tlb_insert t 1 0x10 1 7) (\<lambda>t.
      yields (tlb_insert t 2 0x20 1 7) (\<lambda>t.
      yields (tlb_insert t 3 0x30 2 7) (\<lambda>t.
      (let t = flush_by_asid t 1 in
      yields (lookup ck t 1 1) (\<lambda>(r, t). r = None \<and>
      yields (lookup ck t 2 1) (\<lambda>(r, t). r = None \<and>
      yields (lookup ck t 3 2) (\<lambda>(r, t). r = Some 0x30))))))))"

definition test_flush_by_vpn_then_reinsert :: "bool \<Rightarrow> bool" where [tests]:
  "test_flush_by_vpn_then_reinsert ck \<longleftrightarrow>
     (let t = tlb_new 4 in
      yields (tlb_insert t 0x100 0x200 1 7) (\<lambda>t.
      (let t = flush_by_vpn t 0x100 in
      yields (lookup ck t 0x100 1) (\<lambda>(r, t). r = None \<and>
      yields (tlb_insert t 0x100 0x500 1 7) (\<lambda>t.
      yields (lookup ck t 0x100 1) (\<lambda>(r, t). r = Some 0x500))))))"

section \<open>The MMU\<close>

definition test_mmu_basic_translate :: "bool \<Rightarrow> bool" where [tests]:
  "test_mmu_basic_translate ck \<longleftrightarrow>
     (let m = add_mapping ((mmu_new 4)\<lparr>current_asid := 1\<rparr>) 1 0x100 0x200 7 in
      yields (translate ck m 0x100) (\<lambda>(r, m). r = Some 0x200 \<and>
      misses (stats (tlb m)) = 1 \<and>
      hits (stats (tlb m)) = 0 \<and>
      yields (translate ck m 0x100) (\<lambda>(r, m). r = Some 0x200 \<and>
      hits (stats (tlb m)) = 1)))"

definition test_mmu_page_fault :: "bool \<Rightarrow> bool" where [tests]:
  "test_mmu_page_fault ck \<longleftrightarrow>
     (let m = (mmu_new 4)\<lparr>current_asid := 1\<rparr> in
      yields (translate ck m 0x999) (\<lambda>(r, m). r = None))"

definition test_mmu_asid_switch :: "bool \<Rightarrow> bool" where [tests]:
  "test_mmu_asid_switch ck \<longleftrightarrow>
     (let m = add_mapping (add_mapping (mmu_new 4) 1 0x100 0x200 7) 2 0x100 0x300 7 in
      (let m = switch_asid m 1 in
      yields (translate ck m 0x100) (\<lambda>(r, m). r = Some 0x200 \<and>
      (let m = switch_asid m 2 in
      yields (translate ck m 0x100) (\<lambda>(r, m). r = Some 0x300)))))"

definition test_mmu_flush_on_asid_switch :: "bool \<Rightarrow> bool" where [tests]:
  "test_mmu_flush_on_asid_switch ck \<longleftrightarrow>
     (let m = add_mapping (add_mapping (mmu_new 4) 1 0x100 0x200 7) 2 0x100 0x300 7 in
      (let m = switch_asid m 1 in
      yields (translate ck m 0x100) (\<lambda>(r, m). r = Some 0x200 \<and>
      (let m = switch_asid m 2 in
      (let m = m\<lparr>tlb := flush_by_asid (tlb m) 1\<rparr> in
      (let old_misses = misses (stats (tlb m)) in
      yields (translate ck m 0x100) (\<lambda>(r, m). r = Some 0x300 \<and>
      misses (stats (tlb m)) = old_misses + 1)))))))"

text \<open>The two tests that translate in a loop and ignore the answers.\<close>

fun translate_each :: "bool \<Rightarrow> Mmu \<Rightarrow> u64 list \<Rightarrow> Mmu res" where
  "translate_each ck m [] = Inr m"
| "translate_each ck m (v # vs) = bind_res (translate ck m v) (\<lambda>(_, m). translate_each ck m vs)"

text \<open>Floats are compared by their values, whose difference is not rounded here as it is in the code.\<close>

definition test_mmu_hit_rate :: "bool \<Rightarrow> bool" where
  "test_mmu_hit_rate ck \<longleftrightarrow>
     (let m = add_mapping ((mmu_new 4)\<lparr>current_asid := 0\<rparr>) 0 1 0x10 7 in
      yields (translate ck m 1) (\<lambda>(_, m).
      yields (translate_each ck m (replicate 9 1)) (\<lambda>m.
      hits (stats (tlb m)) = 9 \<and>
      misses (stats (tlb m)) = 1 \<and>
      yields (hit_rate ck (stats (tlb m))) (\<lambda>rate.
        \<exists>r q. rate = Finite r \<and> f64_round 0.9 = Finite q \<and> \<bar>r - q\<bar> < 1 / 10 ^ 9))))"

definition test_mmu_thrashing :: "bool \<Rightarrow> bool" where [tests]:
  "test_mmu_thrashing ck \<longleftrightarrow>
     (let m = add_mapping (add_mapping (add_mapping ((mmu_new 2)\<lparr>current_asid := 0\<rparr>) 0 1 0x10 7) 0 2 0x20 7) 0 3 0x30 7 in
      yields (translate_each ck m [1, 2, 3, 1, 2, 3]) (\<lambda>m.
      misses (stats (tlb m)) = 6 \<and>
      hits (stats (tlb m)) = 0))"

section \<open>All of them pass\<close>

lemmas tlb_defs = tlb_new_def empty_def lookup_def matches_def tlb_insert_def flush_all_def flush_by_vpn_def
  flush_by_asid_def valid_count_def mmu_new_def add_mapping_def switch_asid_def translate_def add_ck_def

lemma replicate_slots: "replicate 2 x = [x, x]" "replicate 4 x = [x, x, x, x]" "replicate 9 x = [x, x, x, x, x, x, x, x, x]"
  by (simp_all add: eval_nat_numeral)

lemma tlb_tests:
  "test_tlb_empty_lookup ck" "test_tlb_insert_and_lookup ck" "test_tlb_asid_isolation ck"
  "test_tlb_miss_wrong_asid ck" "test_tlb_fifo_eviction ck" "test_tlb_update_existing ck"
  "test_tlb_valid_count ck" "test_flush_all ck" "test_flush_by_vpn ck"
  "test_flush_by_asid ck" "test_flush_by_vpn_then_reinsert ck" "test_mmu_basic_translate ck"
  "test_mmu_page_fault ck" "test_mmu_asid_switch ck" "test_mmu_flush_on_asid_switch ck"
  "test_mmu_thrashing ck"
  by (simp_all add: tests tlb_defs replicate_slots)

lemma hit_rate_test: "test_mmu_hit_rate ck"
proof -
  have "hit_rate ck \<lparr>hits = 9, misses = 1\<rparr> \<noteq> Inl e" for e
    using hit_rate_bounds [of "\<lparr>hits = 9, misses = 1\<rparr>" ck] by auto
  moreover have "\<exists>r. hit_rate ck \<lparr>hits = 9, misses = 1\<rparr> = Inr (Finite r) \<and> \<bar>r - 9 / 10\<bar> \<le> 1 / 2 ^ 51"
    using hit_rate_bounds [of "\<lparr>hits = 9, misses = 1\<rparr>" ck] by auto
  moreover have "(2 :: rat) powi (- 1022) \<le> 0.9" using powi_mono [of "- 1022" "- 1"] by simp
  moreover have "(0.9 :: rat) < 2 powi 1023" using powi_mono [of 0 1023] by simp
  ultimately obtain r q where "hit_rate ck \<lparr>hits = 9, misses = 1\<rparr> = Inr (Finite r)" "f64_round 0.9 = Finite q"
    "\<bar>r - 9 / 10\<bar> \<le> 1 / 2 ^ 51" "\<bar>q - 0.9\<bar> \<le> 0.9 / 2 ^ 53"
    by (metis f64_round_near)
  moreover from this have "\<bar>r - q\<bar> < 1 / 10 ^ 9" unfolding abs_le_iff abs_less_iff by simp
  ultimately show ?thesis by (simp add: test_mmu_hit_rate_def tlb_defs replicate_slots)
qed

end
