(* ===== verification/MemPrimitivesTests.thy ===== *)
theory MemPrimitivesTests
  imports MemPrimitives
begin

text \<open>
  The unit tests of \<^verbatim>\<open>exercises/02_no_std_dev/01_mem_primitives/src/lib.rs\<close> on the model. The arrays of a
  test are at the addresses 0x1000 and 0x2000, in a memory that has nothing else.
\<close>

fun place :: "usize \<Rightarrow> u8 list \<Rightarrow> mem \<Rightarrow> mem" where
  "place p [] m = m"
| "place p (b # bs) m = (place (p + 1) bs m)(p \<mapsto> b)"

fun contents :: "mem \<Rightarrow> usize \<Rightarrow> nat \<Rightarrow> u8 option list" where
  "contents m p 0 = []"
| "contents m p (Suc n) = m p # contents m (p + 1) n"

abbreviation two_arrays :: "u8 list \<Rightarrow> u8 list \<Rightarrow> mem" where
  "two_arrays src dst \<equiv> place 0x1000 src (place 0x2000 dst Map.empty)"

section \<open>Copying and filling\<close>

definition test_memcpy_basic :: bool where [tests]:
  "test_memcpy_basic \<longleftrightarrow>
     yields (my_memcpy (two_arrays [1, 2, 3, 4, 5] [0, 0, 0, 0, 0]) 0x2000 0x1000 5) (\<lambda>(_, m).
       contents m 0x2000 5 = contents m 0x1000 5)"

definition test_memcpy_zero_len :: bool where [tests]:
  "test_memcpy_zero_len \<longleftrightarrow>
     yields (my_memcpy (two_arrays [0xFF, 0xFF, 0xFF, 0xFF] [0, 0, 0, 0]) 0x2000 0x1000 0) (\<lambda>(_, m).
       contents m 0x2000 4 = [Some 0, Some 0, Some 0, Some 0])"

definition test_memset_basic :: bool where [tests]:
  "test_memset_basic \<longleftrightarrow>
     yields (my_memset (place 0x1000 [0, 0, 0, 0, 0, 0, 0, 0] Map.empty) 0x1000 0xAB 8) (\<lambda>(_, m).
       list_all (\<lambda>b. b = Some 0xAB) (contents m 0x1000 8))"

definition test_memset_partial :: bool where [tests]:
  "test_memset_partial \<longleftrightarrow>
     yields (my_memset (place 0x1000 [0, 0, 0, 0, 0, 0, 0, 0] Map.empty) 0x1000 0xFF 4) (\<lambda>(_, m).
       take 4 (contents m 0x1000 8) = [Some 0xFF, Some 0xFF, Some 0xFF, Some 0xFF] \<and>
       drop 4 (contents m 0x1000 8) = [Some 0, Some 0, Some 0, Some 0])"

definition test_memmove_no_overlap :: "bool \<Rightarrow> bool" where [tests]:
  "test_memmove_no_overlap ck \<longleftrightarrow>
     yields (my_memmove ck (two_arrays [1, 2, 3, 4] [0, 0, 0, 0]) 0x2000 0x1000 4) (\<lambda>(_, m).
       contents m 0x2000 4 = contents m 0x1000 4)"

definition test_memmove_overlap_forward :: "bool \<Rightarrow> bool" where [tests]:
  "test_memmove_overlap_forward ck \<longleftrightarrow>
     yields (my_memmove ck (place 0x1000 [1, 2, 3, 4, 5] Map.empty) (0x1000 + 1) 0x1000 4) (\<lambda>(_, m).
       contents m 0x1000 5 = [Some 1, Some 1, Some 2, Some 3, Some 4])"

section \<open>Strings\<close>

text \<open>\<^verbatim>\<open>b"hello\0"\<close>, \<^verbatim>\<open>b"abc\0"\<close> and \<^verbatim>\<open>b"abd\0"\<close>. The result of \<^verbatim>\<open>my_strcmp\<close> is compared as a signed number.\<close>

abbreviation hello :: "u8 list" where "hello \<equiv> [0x68, 0x65, 0x6C, 0x6C, 0x6F, 0]"
abbreviation abc :: "u8 list" where "abc \<equiv> [0x61, 0x62, 0x63, 0]"
abbreviation abd :: "u8 list" where "abd \<equiv> [0x61, 0x62, 0x64, 0]"

definition test_strlen_basic :: bool where [tests]:
  "test_strlen_basic \<longleftrightarrow> yields (my_strlen (place 0x1000 hello Map.empty) 0x1000) (\<lambda>n. n = 5)"

definition test_strlen_empty :: bool where [tests]:
  "test_strlen_empty \<longleftrightarrow> yields (my_strlen (place 0x1000 [0] Map.empty) 0x1000) (\<lambda>n. n = 0)"

definition test_strcmp_equal :: bool where [tests]:
  "test_strcmp_equal \<longleftrightarrow> yields (my_strcmp (two_arrays hello hello) 0x1000 0x2000) (\<lambda>r. r = 0)"

definition test_strcmp_less :: bool where [tests]:
  "test_strcmp_less \<longleftrightarrow> yields (my_strcmp (two_arrays abc abd) 0x1000 0x2000) (\<lambda>r. sint r < 0)"

definition test_strcmp_greater :: bool where [tests]:
  "test_strcmp_greater \<longleftrightarrow> yields (my_strcmp (two_arrays abd abc) 0x1000 0x2000) (\<lambda>r. sint r > 0)"

section \<open>All of them pass\<close>

lemma loops_numeral:
  "copy_up m d s i (numeral k) = bind_res (copy_byte m d s i) (\<lambda>m'. copy_up m' d s (Suc i) (pred_numeral k))"
  "copy_down m d s (numeral k) =
     bind_res (copy_byte m d s (pred_numeral k)) (\<lambda>m'. copy_down m' d s (pred_numeral k))"
  "fill_up m d c i (numeral k) = bind_res (store m d i c) (\<lambda>m'. fill_up m' d c (Suc i) (pred_numeral k))"
  "contents m p (numeral k) = m p # contents m (p + 1) (pred_numeral k)"
  by (simp_all add: numeral_eq_Suc)

text \<open>The rest of a computation is left alone until its first part has been evaluated.\<close>

lemma bind_res_weak_cong: "m = m' \<Longrightarrow> bind_res m f = bind_res m' f"
  by simp

lemma mem_primitives_tests:
  "test_memcpy_basic" "test_memcpy_zero_len" "test_memset_basic" "test_memset_partial"
  "test_memmove_no_overlap ck" "test_memmove_overlap_forward ck" "test_strlen_basic" "test_strlen_empty"
  "test_strcmp_equal" "test_strcmp_less" "test_strcmp_greater"
  by (simp_all add: tests my_memcpy_def my_memset_def my_memmove_def my_strlen_def my_strcmp_def strlen_from.simps
      strcmp_from.simps copy_byte_def load_def store_def loops_numeral add_ck_def cong: bind_res_weak_cong)

end
