(* ===== verification/BumpTests.thy ===== *)
theory BumpTests
  imports BumpAllocator
begin

text \<open>
  The unit tests of \<^verbatim>\<open>exercises/02_no_std_dev/02_bump_allocator/src/lib.rs\<close> on the model. Where the
  vector that is the heap lies, and how often the weak exchange fails, is not up to the test: \<open>start\<close>
  and \<open>spurious\<close>. The tests pass wherever it lies and however often that is, with overflow checks and
  without.
\<close>

definition HEAP_SIZE :: usize where "HEAP_SIZE = 4096"

definition make_allocator :: "usize \<Rightarrow> BumpAllocator" where
  "make_allocator start = new start (start + HEAP_SIZE)"

text \<open>\<^verbatim>\<open>Layout::from_size_align(..).unwrap()\<close>, for the valid layouts of the tests.\<close>

definition layout :: "usize \<Rightarrow> usize \<Rightarrow> Layout" where
  "layout s al = \<lparr>size = s, align = al\<rparr>"

section \<open>The tests\<close>

definition test_alloc_basic :: "bool \<Rightarrow> nat \<Rightarrow> usize \<Rightarrow> bool" where [tests]:
  "test_alloc_basic ck spurious start \<longleftrightarrow>
     yields (alloc ck spurious (make_allocator start) (layout 16 8)) (\<lambda>(p, _). p \<noteq> 0)"

fun each_aligned :: "bool \<Rightarrow> nat \<Rightarrow> BumpAllocator \<Rightarrow> usize list \<Rightarrow> bool" where
  "each_aligned ck spurious a [] = True"
| "each_aligned ck spurious a (al # als) =
     yields (alloc ck spurious a (layout 1 al)) (\<lambda>(p, a).
       p \<noteq> 0 \<and> p mod al = 0 \<and> each_aligned ck spurious a als)"

definition test_alloc_alignment :: "bool \<Rightarrow> nat \<Rightarrow> usize \<Rightarrow> bool" where [tests]:
  "test_alloc_alignment ck spurious start \<longleftrightarrow>
     each_aligned ck spurious (make_allocator start) [1, 2, 4, 8, 16, 64]"

definition test_alloc_no_overlap :: "bool \<Rightarrow> nat \<Rightarrow> usize \<Rightarrow> bool" where [tests]:
  "test_alloc_no_overlap ck spurious start \<longleftrightarrow>
     yields (alloc ck spurious (make_allocator start) (layout 64 8)) (\<lambda>(p1, a).
     yields (alloc ck spurious a (layout 64 8)) (\<lambda>(p2, _). p1 + 64 \<le> p2 \<or> p2 + 64 \<le> p1))"

definition test_alloc_oom :: "bool \<Rightarrow> nat \<Rightarrow> usize \<Rightarrow> bool" where [tests]:
  "test_alloc_oom ck spurious start \<longleftrightarrow>
     yields (alloc ck spurious (make_allocator start) (layout (HEAP_SIZE + 1) 1)) (\<lambda>(p, _). p = 0)"

fun fill_heap :: "bool \<Rightarrow> nat \<Rightarrow> BumpAllocator \<Rightarrow> nat \<Rightarrow> bool" where
  "fill_heap ck spurious a 0 = yields (alloc ck spurious a (layout 256 1)) (\<lambda>(p, _). p = 0)"
| "fill_heap ck spurious a (Suc n) =
     yields (alloc ck spurious a (layout 256 1)) (\<lambda>(p, a). p \<noteq> 0 \<and> fill_heap ck spurious a n)"

definition test_alloc_fill_heap :: "bool \<Rightarrow> nat \<Rightarrow> usize \<Rightarrow> bool" where [tests]:
  "test_alloc_fill_heap ck spurious start \<longleftrightarrow> fill_heap ck spurious (make_allocator start) 16"

definition test_reset :: "bool \<Rightarrow> nat \<Rightarrow> usize \<Rightarrow> bool" where [tests]:
  "test_reset ck spurious start \<longleftrightarrow>
     yields (alloc ck spurious (make_allocator start) (layout HEAP_SIZE 1)) (\<lambda>(p1, a).
       p1 \<noteq> 0 \<and>
       yields (alloc ck spurious (reset a) (layout HEAP_SIZE 1)) (\<lambda>(p2, _). p2 \<noteq> 0 \<and> p1 = p2))"

section \<open>All of them pass\<close>

text \<open>An allocation with room for the worst alignment, and one that needs no alignment.\<close>

lemma layout_simps [simp]: "size (layout s al) = s" "align (layout s al) = al"
  by (simp_all add: layout_def)

lemma alloc_room:
  assumes "bump_ok a" "layout_ok l" "unat (next_free a) + unat (align l) + unat (size l) \<le> unat (heap_end a) + 1"
  shows "\<exists>r. alloc ck spurious a l = Inr (r, a\<lparr>next_free := r + size l\<rparr>) \<and> r \<noteq> 0 \<and> r mod align l = 0 \<and>
    next_free a \<le> r \<and> unat r < unat (next_free a) + unat (align l) \<and>
    unat (r + size l) = unat r + unat (size l) \<and> bump_ok (a\<lparr>next_free := r + size l\<rparr>)"
proof -
  have h: "unat (heap_end a) < 2 ^ 63" "next_free a \<le> heap_end a" "0 < next_free a" "0 < heap_start a"
    "heap_start a \<le> next_free a"
    using assms(1) by (auto simp: bump_ok_def)
  obtain r where r: "unat (next_free a) \<le> unat r" "unat (align l) dvd unat r"
    "unat r < unat (next_free a) + unat (align l)"
    "attempt ck a l (next_free a) =
      Inr (if unat r + unat (size l) \<le> unat (heap_end a) then Some (r, r + size l) else None)"
    by (rule attempt_spec [OF assms(2) h(1,2)])
  have fit: "unat r + unat (size l) \<le> unat (heap_end a)" using r(3) assms(3) by simp
  then have "alloc ck spurious a l = Inr (r, a\<lparr>next_free := r + size l\<rparr>)"
    unfolding alloc_def alloc_loop_spurious [of ck a l spurious] by (subst alloc_loop.simps) (simp add: r(4))
  moreover have e: "unat (r + size l) = unat r + unat (size l)" using fit h(1) by (simp add: unat_add_in_range)
  moreover have "r mod align l = 0" using r(2) by (simp add: word_arith_nat_mod)
  moreover have "r \<noteq> 0" "next_free a \<le> r" using r(1) h(3) by (auto simp: word_le_nat_alt word_less_nat_alt)
  moreover have "bump_ok (a\<lparr>next_free := r + size l\<rparr>)"
    using h e fit r(1) by (simp add: bump_ok_def word_le_nat_alt)
  ultimately show ?thesis using r(3) by (intro exI [of _ r] conjI)
qed

lemma alloc_unaligned:
  assumes "bump_ok a" "0 < unat s" "unat s < 2 ^ 63"
  shows "alloc ck spurious a (layout s 1) = Inr
    (if unat (next_free a) + unat s \<le> unat (heap_end a)
     then (next_free a, a\<lparr>next_free := next_free a + s\<rparr>) else (0, a))"
proof -
  have l: "layout_ok (layout s 1)"
    using assms(2,3) by (simp add: layout_ok_def pow2_def) (rule exI [of _ 0], simp)
  obtain r where r: "next_free a \<le> r" "\<forall>q. next_free a \<le> q \<longrightarrow> r \<le> q"
    "alloc ck spurious a (layout s 1) = Inr
      (if unat r + unat s \<le> unat (heap_end a) then (r, a\<lparr>next_free := r + s\<rparr>) else (0, a))"
    using alloc_least [OF assms(1) l, of ck spurious] by auto
  then have "r = next_free a" by (meson order_refl order_antisym)
  then show ?thesis using r(3) by simp
qed

lemma aligns: "pow2 1" "pow2 2" "pow2 4" "pow2 8" "pow2 16" "pow2 64"
  unfolding pow2_def
  by (rule exI [of _ 0], simp, rule exI [of _ 1], simp, rule exI [of _ 2], simp, rule exI [of _ 3], simp,
      rule exI [of _ 4], simp, rule exI [of _ 6], simp)

lemma each_aligned_passes:
  "bump_ok a \<Longrightarrow> list_all pow2 als \<Longrightarrow> unat (next_free a) + sum_list (map unat als) \<le> unat (heap_end a) \<Longrightarrow>
   each_aligned ck spurious a als"
proof (induction als arbitrary: a)
  case (Cons al als)
  then have l: "layout_ok (layout 1 al)" by (simp add: layout_ok_def)
  have fit: "unat (next_free a) + unat (align (layout 1 al)) + unat (size (layout 1 al)) \<le> unat (heap_end a) + 1"
    using Cons.prems(3) by simp
  from alloc_room [OF Cons.prems(1) l fit, of ck spurious, unfolded layout_simps unsigned_1] obtain r where
    "alloc ck spurious a (layout 1 al) = Inr (r, a\<lparr>next_free := r + 1\<rparr>)" "r \<noteq> 0" "r mod al = 0"
    "unat r < unat (next_free a) + unat al" "unat (r + 1) = unat r + 1" "bump_ok (a\<lparr>next_free := r + 1\<rparr>)"
    by (elim exE conjE) (rule that, assumption+)
  moreover from this have "each_aligned ck spurious (a\<lparr>next_free := r + 1\<rparr>) als"
    using Cons.prems(2,3) by (intro Cons.IH) simp_all
  ultimately show ?case by simp
qed simp

lemma fill_heap_passes:
  "bump_ok a \<Longrightarrow> unat (next_free a) + 256 * n = unat (heap_end a) \<Longrightarrow> fill_heap ck spurious a n"
proof (induction n arbitrary: a)
  case (Suc n)
  then have e: "unat (next_free a + 256) = unat (next_free a) + 256"
    by (auto simp: bump_ok_def unat_add_in_range)
  then have "fill_heap ck spurious (a\<lparr>next_free := next_free a + 256\<rparr>) n"
    using Suc.prems by (intro Suc.IH) (auto simp: bump_ok_def word_le_nat_alt)
  then show ?case using Suc.prems by (auto simp: alloc_unaligned bump_ok_def)
qed (simp add: alloc_unaligned)

text \<open>Where a vector can lie: not at the null address, and in the lower half of the address space.\<close>

definition vec_at :: "usize \<Rightarrow> bool" where
  "vec_at start \<longleftrightarrow> 0 < start \<and> unat start + 4096 < 2 ^ 63"

lemma heap_made:
  assumes "vec_at start"
  shows "bump_ok (make_allocator start)" "next_free (make_allocator start) = start"
    "unat (heap_end (make_allocator start)) = unat start + 4096" "heap_start (make_allocator start) = start"
proof -
  from assms have start: "0 < start" "unat start + 4096 < 2 ^ 63" by (simp_all add: vec_at_def)
  then have "unat (start + 4096) = unat start + 4096" by (simp add: unat_add_in_range)
  then show "bump_ok (make_allocator start)" "next_free (make_allocator start) = start"
    "unat (heap_end (make_allocator start)) = unat start + 4096" "heap_start (make_allocator start) = start"
    using start by (simp_all add: bump_ok_def make_allocator_def new_def HEAP_SIZE_def word_le_nat_alt)
qed

lemma layouts: "layout_ok (layout 16 8)" "layout_ok (layout 64 8)"
  using aligns by (simp_all add: layout_ok_def)

lemma bump_test_basic:
  assumes "vec_at start"
  shows "test_alloc_basic ck spurious start"
  using alloc_room [OF heap_made(1) [OF assms] layouts(1), of ck spurious] heap_made [OF assms]
  by (auto simp: test_alloc_basic_def)

lemma bump_test_alignment:
  assumes "vec_at start"
  shows "test_alloc_alignment ck spurious start"
  unfolding test_alloc_alignment_def
  by (rule each_aligned_passes) (simp_all add: heap_made [OF assms] aligns)

lemma bump_test_no_overlap:
  assumes "vec_at start"
  shows "test_alloc_no_overlap ck spurious start"
proof -
  let ?a = "make_allocator start"
  note made = heap_made [OF assms]
  obtain r where r: "alloc ck spurious ?a (layout 64 8) = Inr (r, ?a\<lparr>next_free := r + 64\<rparr>)"
    "unat r < unat start + 8" "unat (r + 64) = unat r + 64" "bump_ok (?a\<lparr>next_free := r + 64\<rparr>)"
    using alloc_room [OF made(1) layouts(2), of ck spurious] made by auto
  obtain q where "alloc ck spurious (?a\<lparr>next_free := r + 64\<rparr>) (layout 64 8) = Inr (q, ?a\<lparr>next_free := q + 64\<rparr>)"
    "r + 64 \<le> q"
    using alloc_room [OF r(4) layouts(2), of ck spurious] r made by auto
  then show ?thesis using r(1) by (simp add: test_alloc_no_overlap_def)
qed

lemma bump_test_oom:
  assumes "vec_at start"
  shows "test_alloc_oom ck spurious start"
  using heap_made [OF assms] by (simp add: test_alloc_oom_def HEAP_SIZE_def alloc_unaligned)

lemma bump_test_fill_heap:
  assumes "vec_at start"
  shows "test_alloc_fill_heap ck spurious start"
  unfolding test_alloc_fill_heap_def
  by (rule fill_heap_passes) (simp_all add: heap_made [OF assms])

lemma bump_test_reset:
  assumes "vec_at start"
  shows "test_reset ck spurious start"
proof -
  note made = heap_made [OF assms]
  have "reset ((make_allocator start)\<lparr>next_free := n\<rparr>) = make_allocator start" for n
    by (simp add: reset_def make_allocator_def new_def)
  moreover have "start \<noteq> 0" using assms by (auto simp: vec_at_def)
  ultimately show ?thesis using made by (simp add: test_reset_def HEAP_SIZE_def alloc_unaligned)
qed

end
