(* ===== verification/FreeListTests.thy ===== *)
theory FreeListTests
  imports FreeListAllocator
begin

text \<open>
  The unit tests of \<^verbatim>\<open>exercises/02_no_std_dev/03_free_list_allocator/src/lib.rs\<close> on the model. They pass
  wherever the vector that is the heap lies (\<open>start\<close>), and whatever is in it (\<open>m\<close>), with overflow checks
  and without.
\<close>

definition HEAP_SIZE :: usize where "HEAP_SIZE = 4096"

definition make_allocator :: "(usize \<Rightarrow> usize) \<Rightarrow> usize \<Rightarrow> FreeListAllocator" where
  "make_allocator m start = new start (start + HEAP_SIZE) m"

text \<open>\<^verbatim>\<open>Layout::from_size_align(..).unwrap()\<close>, for the valid layouts of the tests.\<close>

definition layout :: "usize \<Rightarrow> usize \<Rightarrow> Layout" where
  "layout s al = \<lparr>size = s, align = al\<rparr>"

section \<open>The tests\<close>

definition test_alloc_basic :: "bool \<Rightarrow> (usize \<Rightarrow> usize) \<Rightarrow> usize \<Rightarrow> bool" where [tests]:
  "test_alloc_basic ck m start \<longleftrightarrow>
     yields (alloc ck (make_allocator m start) (layout 32 8)) (\<lambda>(p, _). p \<noteq> 0)"

fun each_aligned :: "bool \<Rightarrow> FreeListAllocator \<Rightarrow> usize list \<Rightarrow> bool" where
  "each_aligned ck a [] = True"
| "each_aligned ck a (al # als) =
     yields (alloc ck a (layout 8 al)) (\<lambda>(p, a). p \<noteq> 0 \<and> p mod al = 0 \<and> each_aligned ck a als)"

definition test_alloc_alignment :: "bool \<Rightarrow> (usize \<Rightarrow> usize) \<Rightarrow> usize \<Rightarrow> bool" where [tests]:
  "test_alloc_alignment ck m start \<longleftrightarrow> each_aligned ck (make_allocator m start) [1, 2, 4, 8, 16]"

definition test_dealloc_and_reuse :: "bool \<Rightarrow> (usize \<Rightarrow> usize) \<Rightarrow> usize \<Rightarrow> bool" where [tests]:
  "test_dealloc_and_reuse ck m start \<longleftrightarrow>
     yields (alloc ck (make_allocator m start) (layout 64 8)) (\<lambda>(p1, a).
       p1 \<noteq> 0 \<and>
       yields (dealloc a p1 (layout 64 8)) (\<lambda>a.
       yields (alloc ck a (layout 64 8)) (\<lambda>(p2, _). p2 \<noteq> 0 \<and> p1 = p2)))"

definition test_multiple_alloc_dealloc :: "bool \<Rightarrow> (usize \<Rightarrow> usize) \<Rightarrow> usize \<Rightarrow> bool" where [tests]:
  "test_multiple_alloc_dealloc ck m start \<longleftrightarrow>
     (let l = layout 128 8 in
      yields (alloc ck (make_allocator m start) l) (\<lambda>(p1, a).
      yields (alloc ck a l) (\<lambda>(p2, a).
      yields (alloc ck a l) (\<lambda>(p3, a).
        p1 \<noteq> 0 \<and> p2 \<noteq> 0 \<and> p3 \<noteq> 0 \<and>
        yields (dealloc a p2 l) (\<lambda>a.
        yields (dealloc a p1 l) (\<lambda>a.
        yields (alloc ck a l) (\<lambda>(q1, a).
        yields (alloc ck a l) (\<lambda>(q2, _). q1 \<noteq> 0 \<and> q2 \<noteq> 0))))))))"

definition test_oom :: "bool \<Rightarrow> (usize \<Rightarrow> usize) \<Rightarrow> usize \<Rightarrow> bool" where [tests]:
  "test_oom ck m start \<longleftrightarrow>
     yields (alloc ck (make_allocator m start) (layout (HEAP_SIZE + 1) 1)) (\<lambda>(p, _). p = 0)"

section \<open>All of them pass\<close>

text \<open>While the free list is empty, blocks come from the bump region.\<close>

lemma alloc_empty:
  assumes "free_list a = 0"
  shows "alloc ck a l = bump_alloc ck a (block_size l) (block_align l)"
  using assms find_fit.simps [of "heap_words a" "block_size l" "block_align l" 0 0]
  by (simp add: alloc_def free_list_head_def)

lemma alloc_fresh:
  assumes "fl_heap a" "free_list a = 0" "block_align l = al" "block_size l = s" "pow2 al"
    "unat (bump_next a) + unat al + unat s \<le> unat (heap_end a) + 1"
  shows "\<exists>r. alloc ck a l = Inr (r, a\<lparr>bump_next := r + s\<rparr>) \<and> r \<noteq> 0 \<and> unat al dvd unat r \<and>
    unat (bump_next a) \<le> unat r \<and> unat r < unat (bump_next a) + unat al \<and>
    unat (r + s) = unat r + unat s \<and> fl_heap (a\<lparr>bump_next := r + s\<rparr>)"
proof -
  have h: "0 < unat (heap_start a)" "unat (heap_start a) \<le> unat (bump_next a)" "unat (heap_end a) < 2 ^ 63"
    "unat (bump_next a) \<le> unat (heap_end a)"
    using assms(1) by (simp_all add: fl_heap_def)
  have "unat (bump_next a) + unat al < 2 ^ 64" using assms(6) h(3) by simp
  then obtain r where r: "align_up ck (bump_next a) al = Inr r" "unat (bump_next a) \<le> unat r"
    "unat r < unat (bump_next a) + unat al" "unat al dvd unat r"
    by (rule align_up_spec [OF assms(5)])
  have fit: "unat r + unat s \<le> unat (heap_end a)" using r(3) assms(6) by simp
  then have e: "unat (r + s) = unat r + unat s" using h(3) by (simp add: unat_add_in_range)
  then have "alloc ck a l = Inr (r, a\<lparr>bump_next := r + s\<rparr>)"
    using r(1) fit h(3) by (simp add: alloc_empty [OF assms(2)] assms(3,4) bump_alloc_def checked_add_in_range word_le_nat_alt)
  moreover have "fl_heap (a\<lparr>bump_next := r + s\<rparr>)" using assms(1) e fit r(2) by (simp add: fl_heap_def)
  moreover have "r \<noteq> 0" using r(2) h(1,2) by auto
  ultimately show ?thesis using r e by (intro exI [of _ r] conjI)
qed

lemma fl_aligns: "pow2 8" "pow2 16"
  unfolding pow2_def by (rule exI [of _ 3], simp, rule exI [of _ 4], simp)

lemma blocks [simp]:
  "block_size (layout s al) = max s 16" "block_align (layout s al) = max al 8"
  by (simp_all add: layout_def block_size_def block_align_def)

text \<open>A block that was freed last is found first.\<close>

lemma alloc_head:
  assumes "free_list a = p" "p \<noteq> 0" "fits (heap_words a) (block_size l) (block_align l) p"
  shows "alloc ck a l = Inr (p, set_free_list_head (heap_words a (p + 8)) a)"
  using assms find_fit.simps [of "heap_words a" "block_size l" "block_align l" 0 p]
  by (simp add: alloc_def free_list_head_def unlink_def fb_next_def)

text \<open>Where a vector can lie: not at the null address, and in the lower half of the address space.\<close>

definition vec_at :: "usize \<Rightarrow> bool" where
  "vec_at start \<longleftrightarrow> 0 < start \<and> unat start + 4096 < 2 ^ 63"

lemma fl_heap_made:
  assumes "vec_at start"
  shows "fl_heap (make_allocator m start)" "bump_next (make_allocator m start) = start"
    "free_list (make_allocator m start) = 0" "unat (heap_end (make_allocator m start)) = unat start + 4096"
proof -
  from assms have start: "0 < start" "unat start + 4096 < 2 ^ 63" by (simp_all add: vec_at_def)
  then have "unat (start + 4096) = unat start + 4096" by (simp add: unat_add_in_range)
  then show "fl_heap (make_allocator m start)" "bump_next (make_allocator m start) = start"
    "free_list (make_allocator m start) = 0" "unat (heap_end (make_allocator m start)) = unat start + 4096"
    using start by (simp_all add: fl_heap_def make_allocator_def new_def HEAP_SIZE_def word_less_nat_alt)
qed

lemma free_list_test_basic:
  assumes "vec_at start"
  shows "test_alloc_basic ck m start"
proof -
  let ?a = "make_allocator m start"
  have "\<exists>r. alloc ck ?a (layout 32 8) = Inr (r, ?a\<lparr>bump_next := r + 32\<rparr>) \<and> r \<noteq> 0 \<and> unat (8 :: usize) dvd unat r \<and>
      unat (bump_next ?a) \<le> unat r \<and> unat r < unat (bump_next ?a) + unat (8 :: usize) \<and>
      unat (r + 32) = unat r + unat (32 :: usize) \<and> fl_heap (?a\<lparr>bump_next := r + 32\<rparr>)"
    using fl_heap_made [OF assms, of m] fl_aligns by (intro alloc_fresh) (simp_all add: max_def)
  then show ?thesis by (auto simp: test_alloc_basic_def)
qed

lemma fl_each_aligned_passes:
  "fl_heap a \<Longrightarrow> free_list a = 0 \<Longrightarrow> list_all (\<lambda>al. al \<in> {1, 2, 4, 8, 16}) als \<Longrightarrow>
   unat (bump_next a) + 32 * length als \<le> unat (heap_end a) \<Longrightarrow> each_aligned ck a als"
proof (induction als arbitrary: a)
  case (Cons al als)
  then have al: "al \<in> {1, 2, 4, 8, 16}" by simp
  then have "pow2 (max al 8)" "unat (max al 8) \<le> 16" using fl_aligns by (auto simp: max_def)
  then have "\<exists>r. alloc ck a (layout 8 al) = Inr (r, a\<lparr>bump_next := r + 16\<rparr>) \<and> r \<noteq> 0 \<and>
      unat (max al 8) dvd unat r \<and>
      unat (bump_next a) \<le> unat r \<and> unat r < unat (bump_next a) + unat (max al 8) \<and>
      unat (r + 16) = unat r + unat (16 :: usize) \<and> fl_heap (a\<lparr>bump_next := r + 16\<rparr>)"
    using Cons.prems by (intro alloc_fresh) auto
  then obtain r where r: "alloc ck a (layout 8 al) = Inr (r, a\<lparr>bump_next := r + 16\<rparr>)" "r \<noteq> 0"
    "unat (max al 8) dvd unat r" "unat r < unat (bump_next a) + unat (max al 8)"
    "unat (r + 16) = unat r + 16" "fl_heap (a\<lparr>bump_next := r + 16\<rparr>)"
    by (elim exE conjE) (rule that, simp_all)
  have "unat al dvd unat (max al 8)" using al by (auto simp: max_def)
  then have "unat r mod unat al = 0" using r(3) by (meson dvd_imp_mod_0 dvd_trans)
  then have "r mod al = 0" by (simp add: word_unat_eq_iff unat_mod)
  moreover have "each_aligned ck (a\<lparr>bump_next := r + 16\<rparr>) als"
    using Cons.prems r(4-6) \<open>unat (max al 8) \<le> 16\<close> by (intro Cons.IH) simp_all
  ultimately show ?case using r(1,2) by simp
qed simp

lemma free_list_test_alignment:
  assumes "vec_at start"
  shows "test_alloc_alignment ck m start"
  unfolding test_alloc_alignment_def
  by (rule fl_each_aligned_passes) (simp_all add: fl_heap_made [OF assms])

lemma free_list_test_reuse:
  assumes "vec_at start"
  shows "test_dealloc_and_reuse ck m start"
proof -
  let ?a = "make_allocator m start"
  have "\<exists>r. alloc ck ?a (layout 64 8) = Inr (r, ?a\<lparr>bump_next := r + 64\<rparr>) \<and> r \<noteq> 0 \<and> unat (8 :: usize) dvd unat r \<and>
      unat (bump_next ?a) \<le> unat r \<and> unat r < unat (bump_next ?a) + unat (8 :: usize) \<and>
      unat (r + 64) = unat r + unat (64 :: usize) \<and> fl_heap (?a\<lparr>bump_next := r + 64\<rparr>)"
    using fl_heap_made [OF assms, of m] fl_aligns by (intro alloc_fresh) (simp_all add: max_def)
  then obtain r where r: "alloc ck ?a (layout 64 8) = Inr (r, ?a\<lparr>bump_next := r + 64\<rparr>)" "r \<noteq> 0"
    "unat (8 :: usize) dvd unat r"
    by (elim exE conjE) (rule that)
  then have "r mod 8 = 0" by (simp add: word_unat_eq_iff unat_mod)
  let ?b = "set_free_list_head r (?a\<lparr>bump_next := r + 64, heap_words := (heap_words ?a)(r := 64, r + 8 := 0)\<rparr>)"
  have "dealloc (?a\<lparr>bump_next := r + 64\<rparr>) r (layout 64 8) = Inr ?b"
    using r(2) fl_heap_made(3) [OF assms, of m] by (simp add: dealloc_def max_def free_list_head_def)
  moreover have "alloc ck ?b (layout 64 8) = Inr (r, set_free_list_head 0 ?b)"
    using r(2) \<open>r mod 8 = 0\<close> alloc_head [of ?b r "layout 64 8" ck]
    by (simp add: set_free_list_head_def fits_def fb_size_def max_def)
  ultimately show ?thesis using r(1,2) by (simp add: test_dealloc_and_reuse_def)
qed

lemma free_list_test_multiple:
  assumes "vec_at start"
  shows "test_multiple_alloc_dealloc ck m start"
proof -
  let ?a = "make_allocator m start" and ?l = "layout 128 8"
  have fresh: "\<exists>r. alloc ck (?a\<lparr>bump_next := n\<rparr>) ?l = Inr (r, ?a\<lparr>bump_next := r + 128\<rparr>) \<and> r \<noteq> 0 \<and>
      8 dvd unat r \<and> unat n \<le> unat r \<and> unat (r + 128) = unat r + 128 \<and> unat (r + 128) \<le> unat n + 136 \<and>
      fl_heap (?a\<lparr>bump_next := r + 128\<rparr>)"
    if "fl_heap (?a\<lparr>bump_next := n\<rparr>)" "unat n \<le> unat start + 1000" for n
  proof -
    have "\<exists>r. alloc ck (?a\<lparr>bump_next := n\<rparr>) ?l = Inr (r, ?a\<lparr>bump_next := n\<rparr>\<lparr>bump_next := r + 128\<rparr>) \<and> r \<noteq> 0 \<and>
        unat (8 :: usize) dvd unat r \<and>
        unat (bump_next (?a\<lparr>bump_next := n\<rparr>)) \<le> unat r \<and>
        unat r < unat (bump_next (?a\<lparr>bump_next := n\<rparr>)) + unat (8 :: usize) \<and>
        unat (r + 128) = unat r + unat (128 :: usize) \<and>
        fl_heap (?a\<lparr>bump_next := n\<rparr>\<lparr>bump_next := r + 128\<rparr>)"
      using that fl_heap_made [OF assms, of m] fl_aligns by (intro alloc_fresh) (simp_all add: max_def)
    then show ?thesis by (elim exE conjE, intro exI conjI) simp_all
  qed
  have start: "?a = ?a\<lparr>bump_next := start\<rparr>" using fl_heap_made(2) [OF assms, of m] by simp
  obtain p where p: "alloc ck ?a ?l = Inr (p, ?a\<lparr>bump_next := p + 128\<rparr>)" "p \<noteq> 0" "8 dvd unat p"
    "unat (p + 128) = unat p + 128" "unat (p + 128) \<le> unat start + 136" "fl_heap (?a\<lparr>bump_next := p + 128\<rparr>)"
    using fresh [of start] fl_heap_made [OF assms, of m] start by auto
  obtain q where q: "alloc ck (?a\<lparr>bump_next := p + 128\<rparr>) ?l = Inr (q, ?a\<lparr>bump_next := q + 128\<rparr>)" "q \<noteq> 0" "8 dvd unat q"
    "unat p + 128 \<le> unat q" "unat (q + 128) \<le> unat start + 272" "fl_heap (?a\<lparr>bump_next := q + 128\<rparr>)"
    using fresh [of "p + 128"] p(4-6) by auto
  obtain r where r: "alloc ck (?a\<lparr>bump_next := q + 128\<rparr>) ?l = Inr (r, ?a\<lparr>bump_next := r + 128\<rparr>)" "r \<noteq> 0"
    using fresh [of "q + 128"] q(5,6) by auto
  have "unat (p + 8) = unat p + 8"
    using q(4) unsigned_less [of q, where 'a = nat] by (simp add: unat_add_in_range)
  then have apart: "p \<noteq> q" "p + 8 \<noteq> q" using q(4) by auto
  have "p mod 8 = 0" "q mod 8 = 0" using p(3) q(3) by (simp_all add: word_unat_eq_iff unat_mod)
  show ?thesis
    using p(1,2) q(1,2) r apart \<open>p mod 8 = 0\<close> \<open>q mod 8 = 0\<close> fl_heap_made(3) [OF assms, of m]
    by (simp add: test_multiple_alloc_dealloc_def Let_def dealloc_def free_list_head_def set_free_list_head_def
        alloc_head fits_def fb_size_def max_def)
qed

lemma free_list_test_oom:
  assumes "vec_at start"
  shows "test_oom ck m start"
proof -
  let ?a = "make_allocator m start"
  note made = fl_heap_made [OF assms, of m]
  have "unat start + unat (8 :: usize) < 2 ^ 64" using assms by (simp add: vec_at_def)
  then obtain r where r: "align_up ck start 8 = Inr r" "unat start \<le> unat r" "unat r < unat start + unat (8 :: usize)"
    by (rule align_up_spec [OF fl_aligns(1)])
  then have "\<not> unat (r + 4097) \<le> unat start + 4096" "unat r + 4097 < 2 ^ 64"
    using assms by (simp_all add: vec_at_def unat_add_in_range)
  then have "alloc ck ?a (layout (HEAP_SIZE + 1) 1) = Inr (0, ?a)"
    using made r(1) by (simp add: alloc_empty HEAP_SIZE_def max_def bump_alloc_def checked_add_in_range word_le_nat_alt)
  then show ?thesis by (simp add: test_oom_def)
qed

end
