(* ===== verification/SyscallTests.thy ===== *)
theory SyscallTests
  imports SyscallWrapper
begin

text \<open>
  The unit tests of \<^verbatim>\<open>exercises/02_no_std_dev/04_syscall_wrapper/src/lib.rs\<close> on the model. What the real
  calls answer is up to the operating system: a parameter, with the answers the tests rely on as
  hypotheses.
\<close>

section \<open>Tests of the tables\<close>

definition test_x86_64_instruction :: bool where [tests]:
  "test_x86_64_instruction \<longleftrightarrow> arch x86_64_abi = ''x86_64'' \<and> instruction x86_64_abi = ''syscall''"

definition test_x86_64_registers :: bool where [tests]:
  "test_x86_64_registers \<longleftrightarrow> 
     id_reg x86_64_abi = ''rax'' \<and> ret_reg x86_64_abi = ''rax'' \<and>
     arg_regs x86_64_abi = [''rdi'', ''rsi'', ''rdx'', ''r10'', ''r8'', ''r9'']"

definition test_x86_64_clobbered :: bool where [tests]:
  "test_x86_64_clobbered \<longleftrightarrow> 
     ''rcx'' \<in> set (clobbered x86_64_abi) \<and> ''r11'' \<in> set (clobbered x86_64_abi)"

definition test_x86_64_syscall_numbers :: bool where [tests]:
  "test_x86_64_syscall_numbers \<longleftrightarrow> 
     nr_write x86_64_abi = 1 \<and> nr_read x86_64_abi = 0 \<and> nr_close x86_64_abi = 3 \<and> nr_exit x86_64_abi = 60"

definition test_aarch64_instruction :: bool where [tests]:
  "test_aarch64_instruction \<longleftrightarrow> arch aarch64_abi = ''aarch64'' \<and> instruction aarch64_abi = ''svc #0''"

definition test_aarch64_registers :: bool where [tests]:
  "test_aarch64_registers \<longleftrightarrow> 
     id_reg aarch64_abi = ''x8'' \<and> ret_reg aarch64_abi = ''x0'' \<and>
     arg_regs aarch64_abi = [''x0'', ''x1'', ''x2'', ''x3'', ''x4'', ''x5'']"

definition test_aarch64_clobbered :: bool where [tests]:
  "test_aarch64_clobbered \<longleftrightarrow> clobbered aarch64_abi = []"

definition test_aarch64_syscall_numbers :: bool where [tests]:
  "test_aarch64_syscall_numbers \<longleftrightarrow> 
     nr_write aarch64_abi = 64 \<and> nr_read aarch64_abi = 63 \<and> nr_close aarch64_abi = 57 \<and> nr_exit aarch64_abi = 93"

definition test_riscv64_instruction :: bool where [tests]:
  "test_riscv64_instruction \<longleftrightarrow> arch riscv64_abi = ''riscv64'' \<and> instruction riscv64_abi = ''ecall''"

definition test_riscv64_registers :: bool where [tests]:
  "test_riscv64_registers \<longleftrightarrow> 
     id_reg riscv64_abi = ''a7'' \<and> ret_reg riscv64_abi = ''a0'' \<and>
     arg_regs riscv64_abi = [''a0'', ''a1'', ''a2'', ''a3'', ''a4'', ''a5'']"

definition test_riscv64_clobbered :: bool where [tests]:
  "test_riscv64_clobbered \<longleftrightarrow> clobbered riscv64_abi = []"

definition test_riscv64_syscall_numbers :: bool where [tests]:
  "test_riscv64_syscall_numbers \<longleftrightarrow> 
     nr_write riscv64_abi = 64 \<and> nr_read riscv64_abi = 63 \<and> nr_close riscv64_abi = 57 \<and> nr_exit riscv64_abi = 93"

definition test_aarch64_riscv64_share_numbers :: bool where [tests]:
  "test_aarch64_riscv64_share_numbers \<longleftrightarrow> 
     nr_write aarch64_abi = nr_write riscv64_abi \<and> nr_read aarch64_abi = nr_read riscv64_abi \<and>
     nr_close aarch64_abi = nr_close riscv64_abi \<and> nr_exit aarch64_abi = nr_exit riscv64_abi"

lemma abi_tests:
  "test_x86_64_instruction" "test_x86_64_registers" "test_x86_64_clobbered"
  "test_x86_64_syscall_numbers" "test_aarch64_instruction" "test_aarch64_registers"
  "test_aarch64_clobbered" "test_aarch64_syscall_numbers" "test_riscv64_instruction"
  "test_riscv64_registers" "test_riscv64_clobbered" "test_riscv64_syscall_numbers"
  "test_aarch64_riscv64_share_numbers"
  by (simp_all add: tests abi_defs riscv64_abi_def)

section \<open>Tests of the calls\<close>

text \<open>The result of a call, as the signed number it is returned as.\<close>

definition ret_of :: "(u64 option \<times> regs \<times> 'w) res option \<Rightarrow> int option" where
  "ret_of c = (case c of Some (Inr (Some r, _, _)) \<Rightarrow> Some (sint r) | _ \<Rightarrow> None)"

definition test_sys_write_stdout :: "target \<Rightarrow> 'w trap \<Rightarrow> slice \<Rightarrow> regs \<times> 'w \<Rightarrow> bool" where
  "test_sys_write_stdout t trap msg s \<longleftrightarrow> ret_of (sys_write t trap 1 msg s) = Some (sint (len msg))"

definition test_sys_write_stderr :: "target \<Rightarrow> 'w trap \<Rightarrow> slice \<Rightarrow> regs \<times> 'w \<Rightarrow> bool" where
  "test_sys_write_stderr t trap msg s \<longleftrightarrow> ret_of (sys_write t trap 2 msg s) = Some (sint (len msg))"

definition test_sys_write_invalid_fd :: "target \<Rightarrow> 'w trap \<Rightarrow> slice \<Rightarrow> regs \<times> 'w \<Rightarrow> bool" where
  "test_sys_write_invalid_fd t trap hello s \<longleftrightarrow>
     (case ret_of (sys_write t trap 999 hello s) of None \<Rightarrow> False | Some ret \<Rightarrow> ret < 0)"

definition test_sys_close_invalid_fd :: "target \<Rightarrow> 'w trap \<Rightarrow> regs \<times> 'w \<Rightarrow> bool" where
  "test_sys_close_invalid_fd t trap s \<longleftrightarrow>
     (case ret_of (sys_close t trap 999 s) of None \<Rightarrow> False | Some ret \<Rightarrow> ret < 0)"

text \<open>On both supported machines the call that the operating system sees is the one the test means, so that
  the test passes when the system writes all bytes to the standard streams, and refuses 999 as a
  descriptor with a negative number, whatever the registers hold and it leaves in the clobbered ones.\<close>

lemma wrapper_ret:
  assumes "abi \<in> {x86_64_abi, aarch64_abi}"
    and "kern nr ([a, b, c] @ map rs (drop 3 (arg_regs abi))) w = (r, w')"
  shows "ret_of (syscall3 \<lparr>target_arch = arch abi, linux = True\<rparr> (kernel_entry abi kern junk) nr a b c (rs, w)) =
    Some (sint r)"
proof -
  obtain rs' where "syscall3 \<lparr>target_arch = arch abi, linux = True\<rparr> (kernel_entry abi kern junk) nr a b c (rs, w) =
      Some (Inr (Some r, rs', w'))"
    using syscall3_kernel [of abi kern nr a b c rs w r w' junk] assms by auto
  then show ?thesis by (simp add: ret_of_def)
qed

lemma native_numbers:
  assumes "abi \<in> {x86_64_abi, aarch64_abi}"
  shows "NATIVE_SYS_WRITE \<lparr>target_arch = arch abi, linux = True\<rparr> = nr_write abi"
    "NATIVE_SYS_CLOSE \<lparr>target_arch = arch abi, linux = True\<rparr> = nr_close abi"
  using assms by (auto simp: abi_defs NATIVE_SYS_WRITE_def NATIVE_SYS_CLOSE_def)

lemma linux_tests:
  assumes abi: "abi \<in> {x86_64_abi, aarch64_abi}"
    and writes: "\<And>fd p n more w. fd \<in> {1, 2} \<Longrightarrow> fst (kern (nr_write abi) (fd # p # n # more) w) = n"
    and bad_fd: "\<And>nr args w. nr \<in> {nr_write abi, nr_close abi} \<Longrightarrow> sint (fst (kern nr (999 # args) w)) < 0"
  shows "let t = \<lparr>target_arch = arch abi, linux = True\<rparr>; trap = kernel_entry abi kern junk in
    test_sys_write_stdout t trap msg s \<and> test_sys_write_stderr t trap msg s \<and>
    test_sys_write_invalid_fd t trap msg s \<and> test_sys_close_invalid_fd t trap s"
proof -
  obtain rs w where s: "s = (rs, w)" by (cases s)
  let ?t = "\<lparr>target_arch = arch abi, linux = True\<rparr>" and ?trap = "kernel_entry abi kern junk"
  let ?k = "\<lambda>nr a b c. fst (kern nr ([a, b, c] @ map rs (drop 3 (arg_regs abi))) w)"
  have ret: "ret_of (syscall3 ?t ?trap nr a b c s) = Some (sint (?k nr a b c))" for nr a b c
    unfolding s by (rule wrapper_ret [OF abi, where w' = "snd (kern nr ([a, b, c] @ map rs (drop 3 (arg_regs abi))) w)"]) simp
  show ?thesis
    using writes bad_fd
    by (simp add: test_sys_write_stdout_def test_sys_write_stderr_def test_sys_write_invalid_fd_def
        test_sys_close_invalid_fd_def sys_write_def sys_close_def native_numbers [OF abi] ret)
qed

end
