(* ===== verification/FdTableTests.thy ===== *)
theory FdTableTests
  imports FdTable
begin

text \<open>
  The unit tests of \<^verbatim>\<open>exercises/02_no_std_dev/05_fd_table/src/lib.rs\<close> on the model, with their mock file.
\<close>

section \<open>The mock file\<close>

record MockFile =
  id :: nat
  write_log :: "u8 list list"

definition mock_new :: "nat \<Rightarrow> MockFile" where
  "mock_new i = \<lparr>id = i, write_log = []\<rparr>"

definition mock_read :: "MockFile \<Rightarrow> u8 list \<Rightarrow> (isize \<times> u8 list) res" where
  "mock_read f buf = bind_res (vec_set buf 0 (of_nat (id f))) (\<lambda>buf. Inr (1, buf))"

definition mock_write :: "MockFile \<Rightarrow> u8 list \<Rightarrow> isize \<times> MockFile" where
  "mock_write f buf = (of_nat (length buf), f\<lparr>write_log := write_log f @ [buf]\<rparr>)"

section \<open>The tests\<close>

definition test_alloc_basic :: bool where [tests]:
  "test_alloc_basic \<longleftrightarrow>
     (let (fd, table) = fd_alloc new (mock_new 0); (fd2, table) = fd_alloc table (mock_new 1) in
      fd = 0 \<and> fd2 = 1)"

definition test_get :: bool where [tests]:
  "test_get \<longleftrightarrow>
     (let (fd, table) = fd_alloc new (mock_new 42); got = fd_get table fd in
      got \<noteq> None \<and>
      yields (bind_res (unwrap got) (\<lambda>f. mock_read f [0])) (\<lambda>(_, buf). buf ! 0 = 42))"

definition test_get_invalid :: bool where [tests]:
  "test_get_invalid \<longleftrightarrow> fd_get (new :: MockFile FdTable) 0 = None \<and> fd_get (new :: MockFile FdTable) 999 = None"

definition test_close_and_reuse :: bool where [tests]:
  "test_close_and_reuse \<longleftrightarrow>
     (let (fd0, table) = fd_alloc new (mock_new 0);
          (fd1, table) = fd_alloc table (mock_new 1);
          (fd2, table) = fd_alloc table (mock_new 2);
          (closed, table) = fd_close table fd1 in
      closed \<and>
      fd_get table fd1 = None \<and>
      (let (fd_new, table) = fd_alloc table (mock_new 99) in fd_new = fd1))"

definition test_close_invalid :: bool where [tests]:
  "test_close_invalid \<longleftrightarrow> \<not> fst (fd_close (new :: MockFile FdTable) 0)"

definition test_count :: bool where [tests]:
  "test_count \<longleftrightarrow>
     fd_count (new :: MockFile FdTable) = 0 \<and>
     (let (fd0, table) = fd_alloc new (mock_new 0);
          (fd1, table) = fd_alloc table (mock_new 1) in
      fd_count table = 2 \<and>
      (let (_, table) = fd_close table fd0 in
       fd_count table = 1 \<and>
       (let (_, table) = fd_close table fd1 in fd_count table = 0)))"

definition test_write_through_fd :: bool where [tests]:
  "test_write_through_fd \<longleftrightarrow>
     (let (fd, table) = fd_alloc new (mock_new 0) in
      yields (unwrap (fd_get table fd)) (\<lambda>f.
        fst (mock_write f [0x68, 0x65, 0x6C, 0x6C, 0x6F]) = 5))"

lemma fd_table_tests:
  "test_alloc_basic" "test_get" "test_get_invalid" "test_close_and_reuse" "test_close_invalid"
  "test_count" "test_write_through_fd"
  by (simp_all add: tests new_def fd_alloc_def fd_get_def fd_close_def fd_count_def mock_new_def mock_read_def
      mock_write_def)

end
