(* ===== verification/TestRuns.thy ===== *)
theory TestRuns
  imports Prelude
begin

text \<open>
  What it means for a test to pass when it calls a function with several threads. Such a function is
  modelled as the states it can get to; the call returns in a state that is over, with a result that
  the test then looks at.
\<close>

text \<open>\<open>reach\<close>: the states the call can get to; \<open>run\<close>: how it can go on. Whatever happens, the call can still
  return, and when it returns \<open>P\<close> holds.\<close>

definition returns :: "('s \<Rightarrow> bool) \<Rightarrow> ('s \<Rightarrow> 's \<Rightarrow> bool) \<Rightarrow> ('s \<Rightarrow> bool) \<Rightarrow> ('s \<Rightarrow> bool) \<Rightarrow> bool" where
  "returns reach run over P \<longleftrightarrow>
     (\<forall>s. reach s \<longrightarrow> (over s \<longrightarrow> P s) \<and> (\<exists>s'. run s s' \<and> over s'))"

lemma returnsI:
  assumes "\<And>s. reach s \<Longrightarrow> over s \<Longrightarrow> P s" "\<And>s. reach s \<Longrightarrow> \<exists>s'. run s s' \<and> over s'"
  shows "returns reach run over P"
  using assms by (simp add: returns_def)

lemma returns_mono: "returns reach run over P \<Longrightarrow> (\<And>s. P s \<Longrightarrow> Q s) \<Longrightarrow> returns reach run over Q"
  by (auto simp: returns_def)

end
