(* ===== verification/AtomicCounterTests.thy ===== *)
theory AtomicCounterTests
  imports AtomicCounter MutexCounter TestRuns
begin

text \<open>
  The unit tests of \<^verbatim>\<open>exercises/03_os_concurrency/01_atomic_counter/src/lib.rs\<close> on the model. The last one
  passes in every interleaving of its threads.
\<close>

section \<open>One thread\<close>

definition test_basic_ops :: bool where [tests]:
  "test_basic_ops \<longleftrightarrow>
     (let c = new 0; (r1, c) = increment c; (r2, c) = increment c in
      r1 = 0 \<and> r2 = 1 \<and> get c = 2 \<and> (let (r3, c) = decrement c in r3 = 2 \<and> get c = 1))"

definition test_cas_success :: bool where [tests]:
  "test_cas_success \<longleftrightarrow> (let (r, c) = compare_and_swap (new 10) 10 20 in r = Inr 10 \<and> get c = 20)"

definition test_cas_failure :: bool where [tests]:
  "test_cas_failure \<longleftrightarrow> (let (r, c) = compare_and_swap (new 10) 5 20 in r = Inl 10 \<and> get c = 10)"

definition test_fetch_multiply :: "bool \<Rightarrow> bool" where [tests]:
  "test_fetch_multiply ck \<longleftrightarrow> yields (fetch_multiply ck 4 (new 3)) (\<lambda>(old, c). old = 3 \<and> get c = 12)"

lemma atomic_counter_tests:
  "test_basic_ops" "test_cas_success" "test_cas_failure" "test_fetch_multiply ck"
  by (simp_all add: tests new_def increment_def decrement_def get_def compare_and_swap_def compare_exchange_def
      fetch_multiply_seq)

section \<open>Threads that increment\<close>

text \<open>A thread is the number of increments it has to make.\<close>

inductive increment_step :: "(u64, nat, unit) task_step" where
  "increment v = (r, v') \<Longrightarrow> increment_step i v (Suc k) v' (Alive k)"
| "increment_step i v 0 v (Ended (Inr ()))"

definition test_concurrent_increment :: bool where [tests]:
  "test_concurrent_increment \<longleftrightarrow>
     returns ((fj_step increment_step (\<lambda>_. 1000) 10)\<^sup>*\<^sup>* (fj_init (new 0)))
       ((fj_step increment_step (\<lambda>_. 1000) 10)\<^sup>*\<^sup>*)
       (\<lambda>s. \<exists>rs. main s = Joined rs) (\<lambda>s. get (mem s) = 10000)"

fun counted :: "(nat, unit) task \<Rightarrow> nat" where
  "counted Absent = 0"
| "counted (Alive k) = 1000 - k"
| "counted (Ended x) = 1000"

definition sum_inv :: "u64 \<Rightarrow> (nat \<Rightarrow> (nat, unit) task) \<Rightarrow> bool" where
  "sum_inv v ts \<longleftrightarrow> v = of_nat (\<Sum>i<10. counted (ts i)) \<and> (\<forall>i k. ts i = Alive k \<longrightarrow> i < 10 \<and> k \<le> 1000)"

lemma counted_upd: "(\<Sum>j<(10 :: nat). counted ((ts(i := t)) j)) = (\<Sum>j<10. ((\<lambda>j. counted (ts j))(i := counted t)) j)"
  by (rule sum.cong) auto

interpretation increments: fork_join increment_step "\<lambda>_. 1000" 10 sum_inv "\<lambda>_ _. True" "\<lambda>k. k"
proof
  show "sum_inv v (ts(i := Alive 1000))" if "sum_inv v ts" "i < 10" "ts i = Absent" for v ts i
  proof -
    have "(\<lambda>j. counted (ts j))(i := counted (Alive 1000)) = (\<lambda>j. counted (ts j))" using that(3) by auto
    then show ?thesis using that counted_upd [of ts i "Alive 1000"] by (auto simp: sum_inv_def)
  qed
next
  fix v v' :: u64 and ts :: "nat \<Rightarrow> (nat, unit) task" and i t t'
  assume inv: "sum_inv v ts" and i: "ts i = Alive t" and st: "increment_step i v t v' t'"
  have i10: "i < 10" "t \<le> 1000" using inv i by (auto simp: sum_inv_def)
  show "sum_inv v' (ts(i := t'))"
    using st
  proof cases
    case (1 r k)
    have "counted (Alive k) = Suc (counted (ts i))" using i 1 i10 by simp
    then have "(\<Sum>j<10. counted ((ts(i := t')) j)) = Suc (\<Sum>j<10. counted (ts j))"
      using sum_upd [OF i10(1), of "\<lambda>j. counted (ts j)"] counted_upd [of ts i t'] 1 by simp
    then show ?thesis using inv 1 i10 i by (auto simp: sum_inv_def increment_def)
  next
    case 2
    have "(\<lambda>j. counted (ts j))(i := counted t') = (\<lambda>j. counted (ts j))" using i 2 by auto
    then show ?thesis using inv 2 counted_upd [of ts i t'] by (auto simp: sum_inv_def)
  qed
  show "(\<exists>l'. t' = Alive l' \<and> l' < t) \<or> (\<exists>r. t' = Ended (Inr r) \<and> True)"
    using st by cases auto
next
  show "\<exists>j lj g' t'. ts j = Alive lj \<and> increment_step j v lj g' t'" if "sum_inv v ts" "ts i = Alive l" for v ts i l
    using that increment_step.intros by (metis increment_def not0_implies_Suc)
qed

lemma atomic_increment_test: "test_concurrent_increment"
  unfolding test_concurrent_increment_def
proof (rule returnsI; (elim exE)?)
  fix s
  assume r: "(fj_step increment_step (\<lambda>_. 1000) 10)\<^sup>*\<^sup>* (fj_init (new 0)) s"
  have "sum_inv (new 0) (\<lambda>_. Absent)" by (simp add: sum_inv_def new_def)
  from increments.fj_inv_steps [OF r increments.fj_inv_init [OF this]]
  have inv: "increments.fj_inv s" .
  show "\<exists>s'. (fj_step increment_step (\<lambda>_. 1000) 10)\<^sup>*\<^sup>* s s' \<and> (\<exists>rs. main s' = Joined rs)"
    using increments.fj_finishes [OF inv] by blast
  fix rs
  assume "main s = Joined rs"
  note j = increments.joined_results [OF inv this]
  have "(\<Sum>i<10. counted (tasks s i)) = (\<Sum>i<(10 :: nat). 1000)" using j(2) by (intro sum.cong) auto
  then show "get (mem s) = 10000" using j(3) by (simp add: sum_inv_def get_def)
qed

end
