(* ===== verification/MemoryOrderingTests.thy ===== *)
theory MemoryOrderingTests
  imports MemoryOrdering ForkJoin TestRuns
begin

text \<open>
  The unit tests of \<^verbatim>\<open>exercises/03_os_concurrency/02_atomic_ordering/src/lib.rs\<close> on the model: with the weak
  memory of the flag channel, and in every interleaving.
\<close>

section \<open>The flag channel\<close>

text \<open>Thread 0 produces and thread 1 consumes; the test waits for both.\<close>

definition consumed :: "u32 \<Rightarrow> u32 \<Rightarrow> bool" where
  "consumed x y =
     returns (reachable (flag_step produce_ordering consume_ordering) (flag_init x))
       ((pool_step (flag_step produce_ordering consume_ordering))\<^sup>*\<^sup>*)
       (\<lambda>s. fst (locals s 0) = Produced \<and> (\<exists>v. fst (locals s 1) = Got v))
       (\<lambda>s. fst (locals s 1) = Got y)"

definition test_flag_channel :: bool where [tests]:
  "test_flag_channel = consumed 42 42"

definition test_flag_channel_large_value :: bool where [tests]:
  "test_flag_channel_large_value = consumed 0xDEADBEEF 0xDEADBEEF"

text \<open>Views stay inside the histories, so that a load can always return the latest write.\<close>

definition view_ok :: "FlagChannel \<Rightarrow> view \<Rightarrow> bool" where
  "view_ok c w \<longleftrightarrow> v_data w < length (data c) \<and> v_ready w < length (ready c)"

definition views_ok :: "FlagChannel \<Rightarrow> (nat \<Rightarrow> flag_thread) \<Rightarrow> bool" where
  "views_ok c ls \<longleftrightarrow>
     (\<forall>t. view_ok c (snd (ls t))) \<and> (\<forall>m \<in> set (data c). view_ok c (snd m)) \<and>
     (\<forall>m \<in> set (ready c). view_ok c (snd m))"

lemma view0_ok: "data c \<noteq> [] \<Longrightarrow> ready c \<noteq> [] \<Longrightarrow> view_ok c view0"
  by (simp add: view_ok_def view0_def)

lemma join_ok: "view_ok c v \<Longrightarrow> view_ok c w \<Longrightarrow> view_ok c (join v w)"
  by (simp add: view_ok_def join_def)

lemma views_ok_grow:
  assumes "views_ok c ls" "\<And>v. view_ok c v \<Longrightarrow> view_ok c' v" "view_ok c' (snd l)"
    and "\<And>m. m \<in> set (data c') \<Longrightarrow> m \<in> set (data c) \<or> view_ok c' (snd m)"
    and "\<And>m. m \<in> set (ready c') \<Longrightarrow> m \<in> set (ready c) \<or> view_ok c' (snd m)"
  shows "views_ok c' (ls(t := l))"
  unfolding views_ok_def
proof (intro conjI allI ballI)
  show "view_ok c' (snd ((ls(t := l)) u))" for u using assms(1-3) by (simp add: views_ok_def)
  show "view_ok c' (snd m)" if "m \<in> set (data c')" for m
    using assms(1,2) assms(4) [OF that] by (auto simp: views_ok_def)
  show "view_ok c' (snd m)" if "m \<in> set (ready c')" for m
    using assms(1,2) assms(5) [OF that] by (auto simp: views_ok_def)
qed

lemma views_ok_step:
  assumes "views_ok c ls" "flag_step wo ro t c (ls t) c' l'"
  shows "views_ok c' (ls(t := l'))"
proof -
  have ne: "data c \<noteq> []" "ready c \<noteq> []" using assms(1) by (auto simp: views_ok_def view_ok_def)
  from assms(2) show ?thesis
  proof (cases rule: flag_step.cases)
    case (consume_spin w b w')
    then obtain i where i: "i < length (ready c)"
      "w' = (if acquires ro then join else (\<lambda>a b. a)) (w\<lparr>v_ready := i\<rparr>) (snd (ready c ! i))"
      by (auto simp: load_ready_def)
    have "view_ok c w" "view_ok c (snd (ready c ! i))"
      using assms(1) consume_spin i(1) by (auto simp: views_ok_def dest: spec [of _ t])
    then have "view_ok c (w\<lparr>v_ready := i\<rparr>)" "view_ok c (snd (ready c ! i))"
      using i(1) by (auto simp: view_ok_def)
    then have "view_ok c w'" using i(2) by (simp add: join_ok)
    then show ?thesis using assms(1) consume_spin by (simp add: views_ok_def)
  next
    case (consume_data w x w')
    then obtain i where "i < length (data c)" "w' = w\<lparr>v_data := i\<rparr>"
      by (auto simp: load_data_def acquires_def)
    moreover have "view_ok c w" using assms(1) consume_data by (auto simp: views_ok_def dest: spec [of _ t])
    ultimately have "view_ok c w'" by (simp add: view_ok_def)
    then show ?thesis using assms(1) consume_data by (simp add: views_ok_def)
  next
    case (produce_data x w w')
    have old: "view_ok c' v" if "view_ok c v" for v
      using that produce_data by (auto simp: view_ok_def store_data_def Let_def)
    have "view_ok c w" using assms(1) produce_data by (auto simp: views_ok_def dest: spec [of _ t])
    then have "view_ok c' w'" using produce_data ne by (auto simp: view_ok_def store_data_def Let_def)
    with old view0_ok [OF ne] produce_data show ?thesis
      by (intro views_ok_grow [OF assms(1)]) (auto simp: store_data_def Let_def split: if_splits)
  next
    case (produce_ready w w')
    have old: "view_ok c' v" if "view_ok c v" for v
      using that produce_ready by (auto simp: view_ok_def store_ready_def Let_def)
    have "view_ok c w" using assms(1) produce_ready by (auto simp: views_ok_def dest: spec [of _ t])
    then have "view_ok c' w'" using produce_ready ne by (auto simp: view_ok_def store_ready_def Let_def)
    with old view0_ok [OF ne] produce_ready show ?thesis
      by (intro views_ok_grow [OF assms(1)]) (auto simp: store_ready_def Let_def split: if_splits)
  qed
qed

abbreviation channel_run :: "u32 \<Rightarrow> (FlagChannel, flag_thread) pool \<Rightarrow> bool" where
  "channel_run x \<equiv> reachable (flag_step produce_ordering consume_ordering) (flag_init x)"

lemma channel_run_inv:
  assumes "channel_run x s"
  shows "flag_inv x (shared s) (locals s)" "views_ok (shared s) (locals s)"
proof -
  have "flag_inv x (shared (flag_init x)) (locals (flag_init x))"
    by (simp add: flag_inv_def flag_init_def producer_ok_def consumer_ok_def)
  with assms show "flag_inv x (shared s) (locals s)"
    unfolding produce_ordering_def consume_ordering_def
    by (rule reachable_invariant [where I = "flag_inv x"]) (rule flag_inv_step)
  have "views_ok (shared (flag_init x)) (locals (flag_init x))"
    by (simp add: views_ok_def view_ok_def flag_init_def channel_new_def view0_def)
  with assms show "views_ok (shared s) (locals s)"
    by (rule reachable_invariant [where I = views_ok]) (rule views_ok_step)
qed

text \<open>Until both threads are done, one of them can get on.\<close>

fun steps_left :: "flag_pc \<Rightarrow> nat" where
  "steps_left (Produce x) = 2"
| "steps_left Stored = 1"
| "steps_left Spin = 2"
| "steps_left Seen = 1"
| "steps_left l = 0"

abbreviation flag_rank :: "(FlagChannel, flag_thread) pool \<Rightarrow> nat" where
  "flag_rank s \<equiv> steps_left (fst (locals s 0)) + steps_left (fst (locals s 1))"

lemma flag_get_on:
  assumes run: "channel_run x s" and left: "0 < flag_rank s"
  shows "\<exists>s'. pool_step (flag_step produce_ordering consume_ordering) s s' \<and> flag_rank s' < flag_rank s"
proof -
  obtain p v q w where l: "locals s 0 = (p, v)" "locals s 1 = (q, w)" by (cases "locals s 0"; cases "locals s 1")
  have ok: "producer_ok x (shared s) (p, v)" "consumer_ok x (shared s) (q, w)" "view_ok (shared s) w"
    using channel_run_inv [OF run] l unfolding flag_inv_def views_ok_def by (metis snd_conv zero_neq_one)+
  have move: "\<exists>s'. pool_step (flag_step produce_ordering consume_ordering) s s' \<and> flag_rank s' < flag_rank s"
    if "flag_step produce_ordering consume_ordering t (shared s) (locals s t) c l'"
      "t = 0 \<and> steps_left (fst l') < steps_left p \<or> t = 1 \<and> steps_left (fst l') < steps_left q" for t c l'
    using pool_step.step [of "flag_step produce_ordering consume_ordering" t s c l'] that l by auto
  show ?thesis
  proof (cases "steps_left p = 0")
    case False
    then consider y where "p = Produce y" | "p = Stored" using ok(1) by (cases p) (auto simp: producer_ok_def)
    then show ?thesis
    proof cases
      case 1
      have "flag_step produce_ordering consume_ordering 0 (shared s) (locals s 0)
          (fst (store_data Relaxed y (shared s) v)) (Stored, snd (store_data Relaxed y (shared s) v))"
        unfolding l 1 by (rule flag_step.produce_data) simp
      from move [OF this] 1 show ?thesis by simp
    next
      case 2
      have "flag_step produce_ordering consume_ordering 0 (shared s) (locals s 0)
          (fst (store_ready produce_ordering True (shared s) v)) (Produced, snd (store_ready produce_ordering True (shared s) v))"
        unfolding l 2 by (rule flag_step.produce_ready) simp
      from move [OF this] 2 show ?thesis by simp
    qed
  next
    case True
    then have "p = Produced" using ok(1) by (cases p) (auto simp: producer_ok_def)
    then obtain m where r: "ready (shared s) = [(False, view0), (True, m)]" using ok(1) by (auto simp: producer_ok_def)
    have "steps_left q \<noteq> 0" using left True l by simp
    then consider "q = Spin" | "q = Seen" using ok(2) by (cases q) (auto simp: consumer_ok_def)
    then show ?thesis
    proof cases
      case 1
      have "\<exists>w'. load_ready consume_ordering (shared s) w True w'"
        unfolding load_ready_def using ok(3) r by (intro exI exI [of _ 1] conjI) (auto simp: view_ok_def)
      then obtain w' where "load_ready consume_ordering (shared s) w True w'" ..
      from flag_step.consume_spin [OF this, of produce_ordering 1]
      have "flag_step produce_ordering consume_ordering 1 (shared s) (locals s 1) (shared s) (Seen, w')"
        unfolding l 1 by simp
      from move [OF this] 1 show ?thesis by simp
    next
      case 2
      obtain y w' where "load_data Relaxed (shared s) w y w'"
        using ok(3) unfolding load_data_def view_ok_def by blast
      from flag_step.consume_data [OF this, of produce_ordering consume_ordering 1]
      have "flag_step produce_ordering consume_ordering 1 (shared s) (locals s 1) (shared s) (Got y, w')"
        unfolding l 2 by simp
      from move [OF this] 2 show ?thesis by simp
    qed
  qed
qed

lemma flag_over: "channel_run x s \<Longrightarrow> flag_rank s = 0 \<Longrightarrow> fst (locals s 0) = Produced \<and> fst (locals s 1) = Got x"
proof -
  assume run: "channel_run x s" and zero: "flag_rank s = 0"
  have "producer_ok x (shared s) (locals s 0)" "consumer_ok x (shared s) (locals s 1)"
    using channel_run_inv(1) [OF run] unfolding flag_inv_def by (metis zero_neq_one)+
  with zero show ?thesis
    by (cases "fst (locals s 0)"; cases "fst (locals s 1)") (auto simp: producer_ok_def consumer_ok_def)
qed

lemma flag_finishes:
  "channel_run x s \<Longrightarrow>
   \<exists>s'. (pool_step (flag_step produce_ordering consume_ordering))\<^sup>*\<^sup>* s s' \<and> channel_run x s' \<and> flag_rank s' = 0"
proof (induction "flag_rank s" arbitrary: s rule: less_induct)
  case less
  show ?case
  proof (cases "flag_rank s = 0")
    case False
    with flag_get_on [OF less.prems] obtain s1 where
      s1: "pool_step (flag_step produce_ordering consume_ordering) s s1" "flag_rank s1 < flag_rank s" by auto
    have "channel_run x s1" using less.prems s1(1) by (rule reachable.step)
    from less.hyps [OF s1(2) this] s1(1) show ?thesis by (meson converse_rtranclp_into_rtranclp)
  qed (use less.prems in blast)
qed

lemma consumed_produced: "consumed x x"
  unfolding consumed_def
proof (rule returnsI)
  fix s
  assume run: "channel_run x s"
  obtain s' where s': "(pool_step (flag_step produce_ordering consume_ordering))\<^sup>*\<^sup>* s s'" "channel_run x s'"
    "flag_rank s' = 0"
    using flag_finishes [OF run] by auto
  with flag_over [OF s'(2,3)]
  show "\<exists>s'. (pool_step (flag_step produce_ordering consume_ordering))\<^sup>*\<^sup>* s s' \<and>
      fst (locals s' 0) = Produced \<and> (\<exists>v. fst (locals s' 1) = Got v)" by metis
  assume "fst (locals s 0) = Produced \<and> (\<exists>v. fst (locals s 1) = Got v)"
  then have "flag_rank s = 0" by auto
  then show "fst (locals s 1) = Got x" using flag_over [OF run] by simp
qed

lemma flag_channel_tests: "test_flag_channel" "test_flag_channel_large_value"
  by (simp_all add: tests consumed_produced)

section \<open>The once-cell\<close>

definition test_once_cell_init_once :: bool where [tests]:
  "test_once_cell_init_once \<longleftrightarrow>
     (let (a, cell) = init once_new 42; (b, cell) = init cell 100 in a \<and> \<not> b \<and> once_get cell = Some 42)"

definition test_once_cell_not_initialized :: bool where [tests]:
  "test_once_cell_not_initialized \<longleftrightarrow> once_get once_new = None"

text \<open>Thread \<open>i\<close> calls \<^verbatim>\<open>init(i)\<close>: its exchange, and its store when it has won.\<close>

inductive init_step :: "(OnceCell, once_pc, bool) task_step" where
  win: "init_exchange (initialized g) = (Inr old, b) \<Longrightarrow>
    init_step i g Outside (g\<lparr>initialized := b, winners := of_nat i # winners g\<rparr>) (Alive (Won (of_nat i)))"
| lose: "init_exchange (initialized g) = (Inl actual, b) \<Longrightarrow>
    init_step i g Outside (g\<lparr>initialized := b\<rparr>) (Ended (Inr False))"
| store: "init_step i g (Won v) (g\<lparr>cell_value := v\<rparr>) (Ended (Inr True))"

definition test_once_cell_concurrent :: bool where [tests]:
  "test_once_cell_concurrent \<longleftrightarrow>
     returns ((fj_step init_step (\<lambda>_. Outside) 10)\<^sup>*\<^sup>* (fj_init once_new))
       ((fj_step init_step (\<lambda>_. Outside) 10)\<^sup>*\<^sup>*)
       (\<lambda>s. \<exists>results. main s = Joined results)
       (\<lambda>s. \<forall>results. main s = Joined results \<longrightarrow>
          length (filter (\<lambda>r. r) results) = 1 \<and> once_get (mem s) \<noteq> None)"

definition won :: "(once_pc, bool) task \<Rightarrow> bool" where
  "won t \<longleftrightarrow> (\<exists>v. t = Alive (Won v)) \<or> t = Ended (Inr True)"

lemma won_simps [simp]:
  "\<not> won Absent" "\<not> won (Alive Outside)" "won (Alive (Won v))" "won (Ended (Inr b)) \<longleftrightarrow> b"
  by (auto simp: won_def)

definition one_winner :: "OnceCell \<Rightarrow> (nat \<Rightarrow> (once_pc, bool) task) \<Rightarrow> bool" where
  "one_winner g ts \<longleftrightarrow>
     (\<forall>i j. won (ts i) \<longrightarrow> won (ts j) \<longrightarrow> i = j) \<and> (initialized g \<longleftrightarrow> (\<exists>i. won (ts i))) \<and>
     (\<forall>i. ts i = Ended (Inr False) \<longrightarrow> initialized g) \<and> (\<forall>i l. ts i = Alive l \<longrightarrow> l = Outside \<or> (\<exists>v. l = Won v))"

fun init_rank :: "once_pc \<Rightarrow> nat" where
  "init_rank Outside = 2"
| "init_rank l = 1"

lemma init_exchange_simps [simp]:
  "init_exchange False = (Inr False, True)" "init_exchange True = (Inl True, True)"
  by (simp_all add: init_exchange_def compare_exchange_def)

interpretation once: fork_join init_step "\<lambda>_. Outside" 10 one_winner "\<lambda>_ _. True" init_rank
proof
  show "one_winner g (ts(i := Alive Outside))" if "one_winner g ts" "i < 10" "ts i = Absent" for g ts i
  proof -
    have "won ((ts(i := Alive Outside)) j) = won (ts j)" for j using that(3) by simp
    then show ?thesis using that(1) unfolding one_winner_def by auto
  qed
next
  fix g g' ts i l t'
  assume inv: "one_winner g ts" and i: "ts i = Alive l" and st: "init_step i g l g' t'"
  show "one_winner g' (ts(i := t'))"
    using st
  proof cases
    case (win old b)
    then have "\<not> initialized g" by (cases "initialized g") auto
    then show ?thesis using inv win by (auto simp: one_winner_def)
  next
    case (lose actual b)
    then have "initialized g" by (cases "initialized g") auto
    moreover have "won ((ts(i := t')) j) = won (ts j)" for j using i lose by simp
    ultimately show ?thesis using inv lose unfolding one_winner_def by auto
  next
    case (store v)
    have "won ((ts(i := t')) j) = won (ts j)" for j using i store by simp
    then show ?thesis using inv store unfolding one_winner_def by auto
  qed
  show "(\<exists>l'. t' = Alive l' \<and> init_rank l' < init_rank l) \<or> (\<exists>r. t' = Ended (Inr r) \<and> True)"
    using st by cases auto
next
  fix g ts i l
  assume "one_winner g ts" and i: "ts i = Alive l"
  then have "l = Outside \<or> (\<exists>v. l = Won v)" unfolding one_winner_def by blast
  then consider "l = Outside" | v where "l = Won v" by blast
  then show "\<exists>j lj g' t'. ts j = Alive lj \<and> init_step j g lj g' t'"
  proof cases
    case 1
    then show ?thesis using i init_step.win init_step.lose
      by (cases "initialized g") (metis init_exchange_simps)+
  next
    case 2
    then show ?thesis using i init_step.store by metis
  qed
qed

lemma once_cell_tests:
  "test_once_cell_init_once" "test_once_cell_not_initialized" "test_once_cell_concurrent"
proof -
  show "test_once_cell_init_once" "test_once_cell_not_initialized"
    by (simp_all add: tests init_def once_get_def once_new_def)
  show "test_once_cell_concurrent"
    unfolding test_once_cell_concurrent_def
  proof (rule returnsI; (elim exE)?; (intro allI impI)?)
    fix s
    assume r: "(fj_step init_step (\<lambda>_. Outside) 10)\<^sup>*\<^sup>* (fj_init once_new) s"
    have "one_winner once_new (\<lambda>_. Absent)" by (simp add: one_winner_def once_new_def)
    from once.fj_inv_steps [OF r once.fj_inv_init [OF this]]
    have inv: "once.fj_inv s" .
    show "\<exists>s'. (fj_step init_step (\<lambda>_. Outside) 10)\<^sup>*\<^sup>* s s' \<and> (\<exists>results. main s' = Joined results)"
      using once.fj_finishes [OF inv] by blast
    fix results
    assume "main s = Joined results"
    note j = once.joined_results [OF inv this]
    have "won (tasks s i) \<longleftrightarrow> i < 10 \<and> results ! i" for i
      using j(2,4) by (cases "i < 10") (auto simp: not_less)
    moreover have "initialized (mem s)"
      using j(2) [of 0] j(3) unfolding one_winner_def by (cases "results ! 0") (auto intro: exI [of _ 0])
    ultimately obtain w where w: "\<And>i. i < 10 \<and> results ! i \<longleftrightarrow> i = w" using j(3) unfolding one_winner_def by metis
    then have "length (filter (\<lambda>r. r) results) = 1" by (simp add: length_filter_conv_card j(1))
    then show "length (filter (\<lambda>r. r) results) = 1 \<and> once_get (mem s) \<noteq> None"
      using \<open>initialized (mem s)\<close> by (simp add: once_get_def)
  qed
qed

end
