(* ===== verification/LockWorkload.thy ===== *)
theory LockWorkload
  imports LockClient MutexCounter
begin

text \<open>
  Threads that update shared data under a spinning lock, each for a number of rounds, and a main thread
  that joins them: what the tests of the locks do. Where the client of theory LockClient runs on for
  ever and may stop anywhere, here the work is done, once, from the contract of the lock and that of the
  updates.
\<close>

record ('w, 'd) locked_data =
  word :: 'w
  data_in :: 'd

text \<open>An attempt to take the lock that fails changes nothing, and is not a step here.\<close>

inductive round_step ::
  "('w \<Rightarrow> 'w option) \<Rightarrow> ('w \<Rightarrow> 'w) \<Rightarrow> ('w \<Rightarrow> 'w) \<Rightarrow> (nat \<Rightarrow> 'd \<Rightarrow> 'd res) \<Rightarrow>
   (('w, 'd) locked_data, worker, unit) task_step" for acq rel unwind op where
  take: "acq (word g) = Some w \<Longrightarrow>
    round_step acq rel unwind op i g (Looping (Suc k)) (g\<lparr>word := w\<rparr>) (Alive (Holding k))"
| update: "op i (data_in g) = Inr d \<Longrightarrow>
    round_step acq rel unwind op i g (Holding k) (g\<lparr>data_in := d\<rparr>) (Alive (Updated k))"
| update_panic: "op i (data_in g) = Inl e \<Longrightarrow>
    round_step acq rel unwind op i g (Holding k) (g\<lparr>word := unwind (word g)\<rparr>) (Ended (Inl e))"
| release: "round_step acq rel unwind op i g (Updated k) (g\<lparr>word := rel (word g)\<rparr>) (Alive (Looping k))"
| finish: "round_step acq rel unwind op i g (Looping 0) g (Ended (Inr ()))"

definition run_workload ::
  "('w \<Rightarrow> 'w option) \<Rightarrow> ('w \<Rightarrow> 'w) \<Rightarrow> ('w \<Rightarrow> 'w) \<Rightarrow> (nat \<Rightarrow> 'd \<Rightarrow> 'd res) \<Rightarrow> nat \<Rightarrow> nat \<Rightarrow>
   (('w, 'd) locked_data, worker, unit) fj \<Rightarrow> (('w, 'd) locked_data, worker, unit) fj \<Rightarrow> bool" where
  "run_workload acq rel unwind op n rounds =
     (fj_step (round_step acq rel unwind op) (\<lambda>_. Looping rounds) n)\<^sup>*\<^sup>*"

locale lock_workload = lock_contract held acq rel unwind + updates op R n rounds
  for held :: "'w \<Rightarrow> bool" and acq rel unwind
    and op :: "nat \<Rightarrow> 'd \<Rightarrow> 'd res" and R n rounds +
  assumes rel_free: "\<not> held (rel w)"
begin

definition work_inv :: "('w, 'd) locked_data \<Rightarrow> (nat \<Rightarrow> (worker, unit) task) \<Rightarrow> bool" where
  "work_inv g ts \<longleftrightarrow>
     (\<forall>i j. holds (ts i) \<longrightarrow> holds (ts j) \<longrightarrow> i = j) \<and> (held (word g) \<longleftrightarrow> (\<exists>i. holds (ts i))) \<and>
     (\<forall>i. sane (ts i)) \<and> (\<forall>i. ts i \<noteq> Absent \<longrightarrow> i < n) \<and> R (\<lambda>i. made (ts i)) (data_in g)"

lemma round_step_inv:
  assumes inv: "work_inv g ts" and i: "ts i = Alive l" and st: "round_step acq rel unwind op i g l g' t'"
  shows "work_inv g' (ts(i := t')) \<and>
    ((\<exists>l'. t' = Alive l' \<and> worker_rank l' < worker_rank l) \<or> t' = Ended (Inr ()))"
proof -
  have sane: "sane (Alive l)" and n: "i < n" using inv i by (auto simp: work_inv_def dest: spec [of _ i])
  show ?thesis
    using st
  proof (cases rule: round_step.cases)
    case (take w k)
    with inv i acq_free [OF take(4)] made_same [of "Alive (Holding k)" ts i] sane show ?thesis
      by (auto simp: work_inv_def)
  next
    case (update d k)
    have m: "made (ts i) < rounds" "Suc (made (ts i)) = made (Alive (Updated k))"
      using i update sane by auto
    have "R (\<lambda>j. made (ts j)) (data_in g)" using inv by (simp add: work_inv_def)
    then have "R ((\<lambda>j. made (ts j))(i := Suc (made (ts i)))) d"
      using op_ok [of "\<lambda>j. made (ts j)" "data_in g" i] made_le n m update(4) by auto
    moreover have "holds ((ts(i := t')) j) = holds (ts j)" for j using i update by simp
    ultimately show ?thesis using inv i update sane m made_upd [of ts i "Alive (Updated k)"]
      unfolding work_inv_def by auto
  next
    case (update_panic e k)
    have "made (ts i) < rounds" "R (\<lambda>j. made (ts j)) (data_in g)"
      using inv i update_panic sane by (auto simp: work_inv_def)
    then show ?thesis using op_ok [of "\<lambda>j. made (ts j)" "data_in g" i] made_le n update_panic by auto
  next
    case (release k)
    with inv i have "\<not> holds (ts j)" if "j \<noteq> i" for j using that by (auto simp: work_inv_def)
    then show ?thesis using release inv i sane made_same [of "Alive (Looping k)" ts i] rel_free
      by (auto simp: work_inv_def)
  next
    case finish
    with i have "holds ((ts(i := t')) j) = holds (ts j)" for j by simp
    then show ?thesis using finish inv i made_same [of "Ended (Inr ())" ts i]
      unfolding work_inv_def by auto
  qed
qed

lemma round_possible:
  assumes "work_inv g ts" "ts i = Alive l"
  shows "\<exists>j lj g' t'. ts j = Alive lj \<and> round_step acq rel unwind op j g lj g' t'"
proof (cases "held (word g)")
  case True
  then obtain j where "holds (ts j)" using assms(1) by (auto simp: work_inv_def)
  then consider k where "ts j = Alive (Holding k)" | k where "ts j = Alive (Updated k)"
    by (cases "ts j" rule: holds.cases) auto
  then show ?thesis
  proof cases
    case 1
    then show ?thesis using round_step.update round_step.update_panic by (metis sum.exhaust)
  next
    case 2
    then show ?thesis using round_step.release by blast
  qed
next
  case False
  then have "\<not> holds (ts i)" using assms(1) by (auto simp: work_inv_def)
  then obtain k where "l = Looping k" using assms(2) by (cases l) auto
  moreover obtain w where "acq (word g) = Some w" using acq_avail [OF False] by blast
  ultimately show ?thesis using assms(2) round_step.take round_step.finish by (metis not0_implies_Suc)
qed

end

sublocale lock_workload \<subseteq>
  tasks: fork_join "round_step acq rel unwind op" "\<lambda>_. Looping rounds" n work_inv "\<lambda>_ _. True" worker_rank
proof
  show "work_inv g (ts(i := Alive (Looping rounds)))" if "work_inv g ts" "i < n" "ts i = Absent" for g ts i
  proof -
    have "holds ((ts(i := Alive (Looping rounds))) j) = holds (ts j)" for j using that(3) by simp
    then show ?thesis using that made_same [of "Alive (Looping rounds)" ts i]
      unfolding work_inv_def by auto
  qed
qed (use round_step_inv round_possible in blast)+

context lock_workload begin

text \<open>The work gets done, and the lock is free then.\<close>

lemma work_done:
  assumes "run_workload acq rel unwind op n rounds (fj_init \<lparr>word = w, data_in = d\<rparr>) s" "R (\<lambda>_. 0) d" "\<not> held w"
  shows "main s = Joined rs \<Longrightarrow> R (\<lambda>i. if i < n then rounds else 0) (data_in (mem s)) \<and> \<not> held (word (mem s))"
    and "\<exists>s' rs. run_workload acq rel unwind op n rounds s s' \<and> main s' = Joined rs"
proof -
  have "work_inv \<lparr>word = w, data_in = d\<rparr> (\<lambda>_. Absent)" using assms(2,3) by (simp add: work_inv_def)
  from tasks.fj_inv_steps [OF assms(1) [unfolded run_workload_def] tasks.fj_inv_init [OF this]]
  have inv: "tasks.fj_inv s" .
  show "\<exists>s' rs. run_workload acq rel unwind op n rounds s s' \<and> main s' = Joined rs"
    using tasks.fj_finishes [OF inv] by (simp add: run_workload_def)
  show "R (\<lambda>i. if i < n then rounds else 0) (data_in (mem s)) \<and> \<not> held (word (mem s))" if "main s = Joined rs"
  proof -
    note j = tasks.joined_results [OF inv that]
    have "(\<lambda>i. made (tasks s i)) = (\<lambda>i. if i < n then rounds else 0)"
      using j(2,4) by (intro ext) (auto simp: not_less)
    moreover have "\<not> holds (tasks s i)" for i using j(2,4) by (cases "i < n") (auto simp: not_less)
    ultimately show ?thesis using j(3) by (simp add: work_inv_def)
  qed
qed

end

end
