(* ===== verification/SpinLockTests.thy ===== *)
theory SpinLockTests
  imports SpinLock LockWorkload TestRuns
begin

text \<open>
  The unit tests of \<^verbatim>\<open>exercises/03_os_concurrency/03_spinlock/src/lib.rs\<close> on the model. The threads of the
  last two take the lock in any interleaving; a test passes in all of them.
\<close>

section \<open>One thread\<close>

text \<open>A call of \<^verbatim>\<open>lock\<close> that does not return is \<open>None\<close>.\<close>

definition test_basic_lock_unlock :: bool where [tests]:
  "test_basic_lock_unlock \<longleftrightarrow>
     (case lock (new (0 :: u32)) of
        None \<Rightarrow> False
      | Some (_, l) \<Rightarrow>
          (case lock (unlock (l\<lparr>sl_data := 42\<rparr>)) of None \<Rightarrow> False | Some (x, _) \<Rightarrow> x = 42))"

definition test_try_lock :: bool where [tests]:
  "test_try_lock \<longleftrightarrow> fst (try_lock (new (0 :: u32))) \<noteq> None"

lemma spinlock_tests: "test_basic_lock_unlock" "test_try_lock"
  using spinlock_calls [of "new (0 :: u32)"] spinlock_calls [of "unlock \<lparr>locked = True, sl_data = 42 :: u32\<rparr>"]
  by (simp_all add: tests new_def unlock_def)

section \<open>Threads that update the data\<close>

text \<open>\<open>n\<close> threads make \<open>rounds\<close> updates each, between \<^verbatim>\<open>lock\<close> and \<^verbatim>\<open>unlock\<close>; the main thread joins them, and
  takes the lock for the last look.\<close>

definition workload_returns :: "(nat \<Rightarrow> 'd \<Rightarrow> 'd res) \<Rightarrow> nat \<Rightarrow> nat \<Rightarrow> 'd \<Rightarrow> ('d \<Rightarrow> bool) \<Rightarrow> bool" where
  "workload_returns op n rounds d P =
     returns (run_workload acquire release (\<lambda>b. b) op n rounds (fj_init \<lparr>word = locked (new d), data_in = d\<rparr>))
       (run_workload acquire release (\<lambda>b. b) op n rounds)
       (\<lambda>s. \<exists>rs. main s = Joined rs)
       (\<lambda>s. case lock \<lparr>locked = word (mem s), sl_data = data_in (mem s)\<rparr> of
          None \<Rightarrow> False
        | Some (x, _) \<Rightarrow> P x)"

definition test_concurrent_counter :: "bool \<Rightarrow> bool" where [tests]:
  "test_concurrent_counter ck = workload_returns (count_op ck) 10 1000 0 (\<lambda>x. x = 10000)"

definition test_lock_protects_data :: bool where [tests]:
  "test_lock_protects_data = workload_returns push_op 5 1 [] (\<lambda>x. sort x = [0, 1, 2, 3, 4])"

lemma spin_lock_workload:
  assumes "updates op R n rounds"
  shows "lock_workload (\<lambda>b. b) acquire release op R n rounds"
  by (intro lock_workload.intro spin.lock_contract_axioms assms lock_workload_axioms.intro)
    (simp add: release_def unlock_def)

interpretation spin_collect: lock_workload "\<lambda>b. b" acquire release "\<lambda>b. b" push_op
    "\<lambda>f d. \<forall>i. count_list d i = f i" n rounds
  for n rounds
  by (rule spin_lock_workload [OF collect.updates_axioms])

lemma spin_workload:
  assumes "updates op R n rounds" "R (\<lambda>_. 0) d" "\<And>x. R (\<lambda>i. if i < n then rounds else 0) x \<Longrightarrow> P x"
  shows "workload_returns op n rounds d P"
  unfolding workload_returns_def
proof (rule returnsI; (elim exE)?)
  fix s
  assume "run_workload acquire release (\<lambda>b. b) op n rounds (fj_init \<lparr>word = locked (new d), data_in = d\<rparr>) s"
  note work = lock_workload.work_done [OF spin_lock_workload [OF assms(1)] this assms(2)]
  show "\<exists>s'. run_workload acquire release (\<lambda>b. b) op n rounds s s' \<and> (\<exists>rs. main s' = Joined rs)"
    using work(2) by (auto simp: new_def)
  fix rs
  assume "main s = Joined rs"
  with work(1) have "P (data_in (mem s))" "\<not> word (mem s)" using assms(3) by (auto simp: new_def)
  then show "case lock \<lparr>locked = word (mem s), sl_data = data_in (mem s)\<rparr> of None \<Rightarrow> False | Some (x, _) \<Rightarrow> P x"
    using spinlock_calls [of "\<lparr>locked = word (mem s), sl_data = data_in (mem s)\<rparr>"] by simp
qed

lemma spin_counter_test: "test_concurrent_counter ck"
  unfolding test_concurrent_counter_def
  by (rule spin_workload [OF counter_updates [of ck 10 1000]]) simp_all

lemma spin_collect_test: "test_lock_protects_data"
  unfolding test_lock_protects_data_def
proof (rule spin_workload [OF collect.updates_axioms])
  fix x :: "nat list"
  assume c: "\<forall>i. count_list x i = (if i < 5 then 1 else 0)"
  have "sort x = [0..<5]" by (rule sort_upt) (use c in simp)
  moreover have "[0..<5] = [0, 1, 2, 3, 4 :: nat]" by (simp add: upt_rec)
  ultimately show "sort x = [0, 1, 2, 3, 4]" by simp
qed simp

end
