(* ===== verification/SpinGuardTests.thy ===== *)
theory SpinGuardTests
  imports SpinGuard LockWorkload TestRuns
begin

text \<open>
  The unit tests of \<^verbatim>\<open>exercises/03_os_concurrency/04_spinlock_guard/src/lib.rs\<close> on the model. The list
  \<open>ss\<close> says which attempts of a weak exchange fail spuriously; the tests pass as long as one of them
  does not, and in every interleaving of their threads.
\<close>

section \<open>One thread\<close>

text \<open>What is left of a scope, and what a new guard then shows; \<open>None\<close> does not return.\<close>

definition locks_and_sees :: "bool list \<Rightarrow> ('r res \<times> 'd SpinLock) option \<Rightarrow> ('d \<Rightarrow> bool) \<Rightarrow> bool" where
  "locks_and_sees ss left P \<longleftrightarrow>
     (case left of
        None \<Rightarrow> False
      | Some (_, l) \<Rightarrow> (case lock ss l of None \<Rightarrow> False | Some g \<Rightarrow> P (deref g)))"

definition test_guard_auto_release :: "bool list \<Rightarrow> bool" where [tests]:
  "test_guard_auto_release ss \<longleftrightarrow>
     locks_and_sees ss (scope ss (\<lambda>_. (Inr (), 42)) (new (0 :: u32))) (\<lambda>x. x = 42)"

definition test_guard_deref :: "bool list \<Rightarrow> bool" where [tests]:
  "test_guard_deref ss \<longleftrightarrow>
     (case lock ss (new ''hello'') of
        None \<Rightarrow> False
      | Some guard \<Rightarrow> length (deref guard) = 5 \<and> deref guard = ''hello'')"

definition test_guard_deref_mut :: "bool list \<Rightarrow> bool" where [tests]:
  "test_guard_deref_mut ss \<longleftrightarrow>
     locks_and_sees ss
       (scope ss (\<lambda>v. let v = v @ [1]; v = v @ [2]; v = v @ [3] in (Inr (), v)) (new ([] :: i32 list)))
       (\<lambda>v. v = [1, 2, 3])"

text \<open>\<^verbatim>\<open>join\<close> returns the error of the thread, whose panic is the result of the scope.\<close>

definition test_panic_safety :: "bool list \<Rightarrow> bool" where [tests]:
  "test_panic_safety ss \<longleftrightarrow>
     (case scope ss (\<lambda>_. (Inl ExplicitPanic :: unit res, 42)) (new (0 :: u32)) of
        None \<Rightarrow> False
      | Some (result, _) \<Rightarrow> (case result of Inl _ \<Rightarrow> True | Inr _ \<Rightarrow> False))"

lemma guard_tests:
  assumes "False \<in> set ss"
  shows "test_guard_auto_release ss" "test_guard_deref ss" "test_guard_deref_mut ss" "test_panic_safety ss"
proof -
  have "\<not> (\<forall>s \<in> set ss. s)" using assms by blast
  then show "test_guard_auto_release ss" "test_guard_deref ss" "test_guard_deref_mut ss" "test_panic_safety ss"
    by (simp_all add: tests locks_and_sees_def guard_scope lock_spins new_def deref_def Let_def)
qed

section \<open>Threads that update the data\<close>

definition test_concurrent_with_guard :: "bool \<Rightarrow> bool list \<Rightarrow> bool" where [tests]:
  "test_concurrent_with_guard ck ss =
     returns
       (run_workload acquire release release (count_op ck) 10 1000
         (fj_init \<lparr>word = locked (new (0 :: u64)), data_in = sl_data (new 0)\<rparr>))
       (run_workload acquire release release (count_op ck) 10 1000)
       (\<lambda>s. \<exists>rs. main s = Joined rs)
       (\<lambda>s. case lock ss \<lparr>locked = word (mem s), sl_data = data_in (mem s)\<rparr> of
          None \<Rightarrow> False
        | Some g \<Rightarrow> deref g = 10000)"

lemma guard_lock_workload:
  assumes "updates op R n rounds"
  shows "lock_workload (\<lambda>b. b) acquire release op R n rounds"
  by (intro lock_workload.intro guard.lock_contract_axioms assms lock_workload_axioms.intro)
    (simp_all add: release_def drop_guard_def)

interpretation guard_count: lock_workload "\<lambda>b. b" acquire release release "count_op False"
    "\<lambda>f d. d = of_nat (\<Sum>i<n. f i)" n rounds
  for n rounds
  by (rule guard_lock_workload [OF counter.updates_axioms])

lemma guard_counter_test:
  assumes "False \<in> set ss"
  shows "test_concurrent_with_guard ck ss"
  unfolding test_concurrent_with_guard_def
proof (rule returnsI; (elim exE)?)
  have ss: "\<not> (\<forall>s \<in> set ss. s)" using assms by blast
  have upd: "updates (count_op ck) (\<lambda>f d. d = of_nat (\<Sum>i<10. f i)) 10 1000" by (rule counter_updates) simp
  fix s
  assume "run_workload acquire release release (count_op ck) 10 1000
    (fj_init \<lparr>word = locked (new (0 :: u64)), data_in = sl_data (new 0)\<rparr>) s"
  note work = lock_workload.work_done [OF guard_lock_workload [OF upd] this]
  show "\<exists>s'. run_workload acquire release release (count_op ck) 10 1000 s s' \<and> (\<exists>rs. main s' = Joined rs)"
    using work(2) by (auto simp: new_def)
  fix rs
  assume "main s = Joined rs"
  with work(1) have "data_in (mem s) = 10000" "\<not> word (mem s)" by (auto simp: new_def)
  then show "case lock ss \<lparr>locked = word (mem s), sl_data = data_in (mem s)\<rparr> of
      None \<Rightarrow> False | Some g \<Rightarrow> deref g = 10000"
    using ss by (simp add: lock_spins deref_def)
qed

end
