(* ===== verification/RwLockTests.thy ===== *)
theory RwLockTests
  imports RwWorkload TestRuns
begin

text \<open>
  The unit tests of \<^verbatim>\<open>exercises/03_os_concurrency/05_rwlock/src/lib.rs\<close> on the model: they pass in every
  interleaving of the threads.
\<close>

section \<open>The tests\<close>

text \<open>A guard that the main thread takes while no other thread runs. \<open>None\<close>: it spins for ever.\<close>

definition write_scope :: "('d \<Rightarrow> 'd) \<Rightarrow> 'd rw_data \<Rightarrow> 'd rw_data option" where
  "write_scope f g =
     (case acquire_write (write_announce (word g)) of
        None \<Rightarrow> None
      | Some w \<Rightarrow> (let g' = write_deref_mut f (g\<lparr>word := w\<rparr>) in Some (g'\<lparr>word := write_drop (word g')\<rparr>)))"

definition read_scope :: "'d rw_data \<Rightarrow> 'd option" where
  "read_scope g = (case acquire_read (word g) of None \<Rightarrow> None | Some w \<Rightarrow> Some (read_deref (g\<lparr>word := w\<rparr>)))"

definition asserts :: "bool \<Rightarrow> unit res" where
  "asserts b = (if b then Inr () else Inl AssertFailed)"

definition rw_returns ::
  "nat set \<Rightarrow> ('d \<Rightarrow> unit res) \<Rightarrow> ('d \<Rightarrow> 'd res) \<Rightarrow> nat \<Rightarrow> nat \<Rightarrow> 'd rw_data \<Rightarrow> ('d rw_data \<Rightarrow> bool) \<Rightarrow> bool" where
  "rw_returns writers check upd n rounds g P =
     returns (run_rw writers check upd n rounds (fj_init g)) (run_rw writers check upd n rounds)
       (\<lambda>s. \<exists>rs. main s = Joined rs) (\<lambda>s. P (mem s))"

definition test_multiple_readers :: bool where [tests]:
  "test_multiple_readers =
     rw_returns {} (\<lambda>d. asserts (d = 0)) Inr 10 1 (new_lock (0 :: u32)) (\<lambda>_. True)"

definition test_writer_excludes_readers :: bool where [tests]:
  "test_writer_excludes_readers =
     rw_returns {0} (\<lambda>_. Inr ()) (\<lambda>_. Inr 42) 1 1 (new_lock (0 :: u32)) (\<lambda>g. read_scope g = Some 42)"

definition test_concurrent_reads_after_write :: bool where [tests]:
  "test_concurrent_reads_after_write \<longleftrightarrow>
     (case write_scope (\<lambda>v. v @ [1] @ [2]) (new_lock ([] :: i32 list)) of
        None \<Rightarrow> False
      | Some g \<Rightarrow>
          rw_returns {} (\<lambda>v. bind_res (asserts (length v = 2)) (\<lambda>_. asserts (v = [1, 2]))) Inr 5 1 g (\<lambda>_. True))"

definition test_concurrent_writes_serialized :: "bool \<Rightarrow> bool" where [tests]:
  "test_concurrent_writes_serialized ck =
     rw_returns {..<10} (\<lambda>_. Inr ()) (\<lambda>d. add_ck ck d 1) 10 100 (new_lock (0 :: u64))
       (\<lambda>g. read_scope g = Some 1000)"

section \<open>They pass\<close>

lemma read_scope_new [simp]: "read_scope (new_lock d) = Some d"
  by (simp add: read_scope_def new_lock_def new_def acquire_read_def word_facts_rw guard_defs)

lemma write_scope_new [simp]: "write_scope f (new_lock d) = Some (new_lock (f d))"
  by (simp add: write_scope_def new_lock_def new_def acquire_write_def word_facts_rw guard_defs)

lemma rw_workload_returns:
  assumes "rw_workload writers check upd R n rounds" "R (\<lambda>_. 0) d"
    and "\<And>x. R (\<lambda>i. if i < n then rounds else 0) x \<Longrightarrow> P (new_lock x)"
  shows "rw_returns writers check upd n rounds (new_lock d) P"
  unfolding rw_returns_def
proof (rule returnsI; (elim exE)?)
  fix s
  assume "run_rw writers check upd n rounds (fj_init (new_lock d)) s"
  note work = rw_workload.work_done [OF assms(1) this assms(2)]
  show "\<exists>s'. run_rw writers check upd n rounds s s' \<and> (\<exists>rs. main s' = Joined rs)" using work(2) by blast
  show "P (mem s)" if "main s = Joined rs" for rs using work(1) [OF that] assms(3) by metis
qed

lemma readers_pass:
  assumes "check d = Inr ()"
  shows "rw_returns {} check Inr n rounds (new_lock d) (\<lambda>_. True)"
proof (rule rw_workload_returns [where R = "\<lambda>_ x. x = d"])
  show "rw_workload {} check Inr (\<lambda>_ x. x = d) n rounds"
    by unfold_locales (use assms in \<open>simp add: rw_op_def\<close>)
qed simp_all

lemma rw_lock_tests:
  "test_multiple_readers" "test_writer_excludes_readers" "test_concurrent_reads_after_write"
  "test_concurrent_writes_serialized ck"
proof -
  show "test_multiple_readers" "test_concurrent_reads_after_write"
    by (simp_all add: tests readers_pass asserts_def)
  show "test_writer_excludes_readers"
    unfolding test_writer_excludes_readers_def
  proof (rule rw_workload_returns [where R = "\<lambda>f x. f 0 = 1 \<longrightarrow> x = 42"])
    show "rw_workload {0} (\<lambda>_. Inr ()) (\<lambda>_. Inr 42) (\<lambda>f x :: u32. f 0 = 1 \<longrightarrow> x = 42) 1 1"
      by unfold_locales (simp add: rw_op_def)
  qed simp_all
  show "test_concurrent_writes_serialized ck"
    unfolding test_concurrent_writes_serialized_def
  proof (rule rw_workload_returns [OF rw_counters])
    have "{..<10} \<inter> {..<10} = {..<10 :: nat}" by auto
    then show "x = count_writes {..<10} 10 (\<lambda>i. if i < 10 then 100 else 0) \<Longrightarrow> read_scope (new_lock x) = Some 1000" for x
      by (simp add: count_writes_def)
  qed (simp_all add: count_writes_def)
qed

end
