(* ===== verification/CoroutineTests.thy ===== *)
theory CoroutineTests
  imports StackCoroutine
begin

text \<open>
  The unit tests of \<^verbatim>\<open>exercises/04_context_switch/01_stack_coroutine/src/lib.rs\<close> on the model. The
  addresses of the stack, the contexts, the counter and the entry are up to the compiler and the
  allocator: parameters.
\<close>

section \<open>Stacks and contexts\<close>

definition test_alloc_stack :: "bool \<Rightarrow> usize \<Rightarrow> bool" where [tests]:
  "test_alloc_stack ck buf \<longleftrightarrow>
     yields (alloc_stack ck buf) (\<lambda>top. top = buf + STACK_SIZE \<and> unat top mod 16 = 0)"

definition test_context_init :: "bool \<Rightarrow> usize \<Rightarrow> usize \<Rightarrow> bool" where [tests]:
  "test_context_init ck buf task_entry \<longleftrightarrow>
     yields (alloc_stack ck buf) (\<lambda>top.
       let c = init empty top task_entry in ra c = task_entry \<and> sp c \<noteq> 0)"

text \<open>A vector of bytes, as far as Rust promises, may lie at any address. \<^verbatim>\<open>alloc_stack\<close> rounds the end of the
  buffer down, so that the first test passes exactly when the allocator has given an aligned buffer.\<close>

lemma stack_tests:
  assumes "unat buf + unat STACK_SIZE < 2 ^ 64"
  shows "test_alloc_stack ck buf \<longleftrightarrow> 16 dvd unat buf" "test_context_init ck buf task_entry"
proof -
  let ?top = "buf + STACK_SIZE"
  have u: "unat ?top = unat buf + 65536" using assms by (simp add: unat_add_in_range STACK_SIZE_def)
  have alloc: "alloc_stack ck buf = Inr (?top AND NOT 0xF)" using assms by (simp add: alloc_stack_def add_ck_in_range)
  have r: "unat (?top AND NOT 0xF) = unat ?top div 16 * 16"
    unfolding and_not_15 and_not_mask_unat by simp
  have "?top AND NOT 0xF = ?top \<longleftrightarrow> unat ?top div 16 * 16 = unat ?top" unfolding word_unat_eq_iff r ..
  also have "\<dots> \<longleftrightarrow> 16 dvd unat buf" unfolding u by presburger
  finally have eq: "?top AND NOT 0xF = ?top \<longleftrightarrow> 16 dvd unat buf" .
  show "test_alloc_stack ck buf \<longleftrightarrow> 16 dvd unat buf" unfolding test_alloc_stack_def alloc
    using eq r by (simp del: and_not_numerals)
  have "unat ((?top AND NOT 0xF) AND NOT 0xF) \<noteq> 0"
    unfolding and_not_15 and_not_mask_unat u by simp
  then have "(?top AND NOT 0xF) AND NOT 0xF \<noteq> 0" by (metis unat_0)
  then show "test_context_init ck buf task_entry" by (simp add: test_context_init_def alloc init_def Let_def)
qed

section \<open>Switching to a task and back\<close>

text \<open>The test as it runs: \<open>m\<close> is the machine at the first switch, with the counter at 0 and the task's
  context in memory; the task stores 99, and does with the registers what it likes, before it switches
  back.\<close>

definition test_switch_to_task ::
  "u64 \<Rightarrow> u64 \<Rightarrow> u64 \<Rightarrow> usize \<Rightarrow> machine \<Rightarrow> (machine \<Rightarrow> machine) \<Rightarrow> bool" where
  "test_switch_to_task main_ctx task_ctx counter cooperative_task m body =
     (let m1 = run_switch main_ctx task_ctx m;
          m2 = run_switch task_ctx main_ctx (body m1) in
      pc m1 = cooperative_task \<and> pc m2 = regs m Ra AND NOT 1 \<and> words m2 counter = 99)"

lemma switch_test:
  assumes apart: "separate main_ctx task_ctx" "separate task_ctx main_ctx" "counter \<notin> ctx_words task_ctx"
    and prepared: "ctx_in (words m) task_ctx (init empty stack_top cooperative_task)" "\<not> bit cooperative_task 0"
    and body: "words (body (run_switch main_ctx task_ctx m)) counter = 99"
      "\<forall>w \<in> ctx_words main_ctx. words (body (run_switch main_ctx task_ctx m)) w = words (run_switch main_ctx task_ctx m) w"
  shows "test_switch_to_task main_ctx task_ctx counter cooperative_task m body"
proof -
  let ?m1 = "run_switch main_ctx task_ctx m"
  have ra: "(Ra, 8) \<in> set slots" by (simp add: slots_def)
  then have "main_ctx + 8 \<in> ctx_words main_ctx" by (force simp: ctx_words_def)
  then have "words (body ?m1) (main_ctx + 8) = regs m Ra"
    using body(2) run_switch_facts(1) [OF apart(1) ra, of m] by simp
  then have "pc (run_switch task_ctx main_ctx (body ?m1)) = regs m Ra AND NOT 1"
    by (simp add: run_switch_facts(4) [OF apart(2)])
  moreover have "words (run_switch task_ctx main_ctx (body ?m1)) counter = 99"
    using run_switch_facts(3) [OF apart(2,3)] body(1) by simp
  moreover have "pc ?m1 = cooperative_task" using coroutine_starts [OF apart(1) prepared] by simp
  ultimately show ?thesis by (simp add: test_switch_to_task_def Let_def)
qed

end
