(* ===== verification/GreenThreadsTests.thy ===== *)
theory GreenThreadsTests
  imports GreenThreads
begin

text \<open>
  The unit tests of \<^verbatim>\<open>exercises/04_context_switch/02_green_threads/src/lib.rs\<close> on the model. The actions
  of the threads are their accesses of an atomic number: what they add to it, or store in it.
\<close>

definition task_a :: "u32 act list" where
  "task_a = [Emit 1, Yield_now, Emit 10, Yield_now, Emit 100]"

definition task_b :: "u32 act list" where
  "task_b = [Emit 1, Yield_now, Emit 10]"

definition simple_task :: "u32 act list" where
  "simple_task = [Emit 42]"

text \<open>\<^verbatim>\<open>run\<close> returns, and then \<open>P\<close> holds of the actions.\<close>

definition run_returns :: "u32 act list list \<Rightarrow> (u32 list \<Rightarrow> bool) \<Rightarrow> bool" where
  "run_returns entries P \<longleftrightarrow>
     (\<exists>n. let s = (step ^^ n) (boot entries) in code s = Returned \<and> P (map snd (trace s)))"

definition test_scheduler_runs_all :: bool where [tests]:
  "test_scheduler_runs_all = run_returns [task_a, task_b] (\<lambda>added. fold (+) added 0 = 122)"

definition test_single_thread :: bool where [tests]:
  "test_single_thread = run_returns [simple_task] (\<lambda>stored. last (0 # stored) = 42)"

lemma run_returns_round_robin:
  assumes "P (map snd (round_robin (rows entries)))"
  shows "run_returns entries P"
proof -
  have "trace (boot entries) = []" by (simp add: boot_def)
  with run_rounds [OF boot_main_turn, of entries] obtain n where
    "code ((step ^^ n) (boot entries)) = Returned" "trace ((step ^^ n) (boot entries)) = round_robin (rows entries)"
    unfolding leads_def by auto
  with assms show ?thesis by (auto simp: run_returns_def Let_def)
qed

lemma green_threads_tests: "test_scheduler_runs_all" "test_single_thread"
proof -
  have "map snd (round_robin (rows [task_a, task_b])) = [1, 1, 10, 10, 100]"
    by (simp add: rows_def task_a_def task_b_def round_robin.simps)
  then show "test_scheduler_runs_all"
    unfolding test_scheduler_runs_all_def by (intro run_returns_round_robin) simp
  have "map snd (round_robin (rows [simple_task])) = [42]"
    by (simp add: rows_def simple_task_def round_robin.simps)
  then show "test_single_thread" unfolding test_single_thread_def by (intro run_returns_round_robin) simp
qed

end
