(* ===== verification/ThreadSpawnTests.thy ===== *)
theory ThreadSpawnTests
  imports ThreadSpawn TestRuns
begin

text \<open>
  The unit tests of \<^verbatim>\<open>exercises/01_concurrency_sync/01_thread_spawn/src/lib.rs\<close> on the model. The test
  of the thread local counter starts threads itself: it passes in every interleaving of them.
\<close>

section \<open>Tests of single calls\<close>

definition test_double_basic :: "bool \<Rightarrow> bool" where [tests]:
  "test_double_basic ck \<longleftrightarrow> yields (double_in_thread ck [1, 2, 3, 4, 5]) (\<lambda>r. r = [2, 4, 6, 8, 10])"

definition test_double_empty :: "bool \<Rightarrow> bool" where [tests]:
  "test_double_empty ck \<longleftrightarrow> yields (double_in_thread ck []) (\<lambda>r. r = [])"

definition test_double_negative :: "bool \<Rightarrow> bool" where [tests]:
  "test_double_negative ck \<longleftrightarrow> yields (double_in_thread ck [- 1, 0, 1]) (\<lambda>r. r = [- 2, 0, 2])"

definition test_parallel_sum :: "bool \<Rightarrow> bool" where [tests]:
  "test_parallel_sum ck \<longleftrightarrow> yields (parallel_sum ck [1, 2, 3] [10, 20, 30]) (\<lambda>r. r = (6, 60))"

definition test_parallel_sum_empty :: "bool \<Rightarrow> bool" where [tests]:
  "test_parallel_sum_empty ck \<longleftrightarrow> yields (parallel_sum ck [] []) (\<lambda>r. r = (0, 0))"

definition test_named_sleeper :: bool where [tests]:
  "test_named_sleeper \<longleftrightarrow> (case named_sleeper 42 10 of (_, _, r) \<Rightarrow> yields r (\<lambda>result. result = 42))"

definition test_scoped_slice_sum :: "bool \<Rightarrow> bool" where [tests]:
  "test_scoped_slice_sum ck \<longleftrightarrow>
     (let a = [1, 2, 3]; b = [10, 20, 30] in
      yields (scoped_slice_sum ck a b) (\<lambda>(sum_a, sum_b).
        sum_a = 6 \<and> sum_b = 60 \<and> length a = 3 \<and> length b = 3))"

definition test_handle_panic_ok :: bool where [tests]:
  "test_handle_panic_ok \<longleftrightarrow> handle_panic 100 False = Inr 100"

definition test_handle_panic_error :: bool where [tests]:
  "test_handle_panic_error \<longleftrightarrow> handle_panic 100 True = Inl ()"

lemma thread_spawn_tests:
  "test_double_basic ck" "test_double_empty ck" "test_double_negative ck" "test_parallel_sum ck"
  "test_parallel_sum_empty ck" "test_named_sleeper" "test_scoped_slice_sum ck" "test_handle_panic_ok"
  "test_handle_panic_error"
  by (simp_all add: tests double_in_thread_def parallel_sum_def scoped_slice_sum_def sum_i32_def named_sleeper_def
      handle_panic_def sadd_ck_def smul_ck_def in_i32_def)

section \<open>The thread-local counter\<close>

text \<open>What the threads of the test share: the thread-local cells, which are one for each thread, and the
  vector behind the mutex, whose lock is taken for a single push. A thread has called the counter
  not at all, once or twice.\<close>

record shared_data =
  cells :: "nat \<Rightarrow> usize"
  counters :: "(usize \<times> usize) list"

datatype local_thread = Begin | Called usize | Called_twice usize usize

inductive local_step :: "bool \<Rightarrow> (shared_data, local_thread, unit) task_step" for ck where
  first: "increment_thread_local ck i (cells g) = Inr (c, v1) \<Longrightarrow>
    local_step ck i g Begin (g\<lparr>cells := c\<rparr>) (Alive (Called v1))"
| second: "increment_thread_local ck i (cells g) = Inr (c, v2) \<Longrightarrow>
    local_step ck i g (Called v1) (g\<lparr>cells := c\<rparr>) (Alive (Called_twice v1 v2))"
| push: "local_step ck i g (Called_twice v1 v2) (g\<lparr>counters := counters g @ [(v1, v2)]\<rparr>) (Ended (Inr ()))"
| panic: "increment_thread_local ck i (cells g) = Inl e \<Longrightarrow> t = Begin \<or> t = Called v1 \<Longrightarrow>
    local_step ck i g t g (Ended (Inl e))"

definition test_thread_local :: "bool \<Rightarrow> bool" where [tests]:
  "test_thread_local ck \<longleftrightarrow>
     returns ((fj_step (local_step ck) (\<lambda>_. Begin) 2)\<^sup>*\<^sup>* (fj_init \<lparr>cells = THREAD_COUNT, counters = []\<rparr>))
       ((fj_step (local_step ck) (\<lambda>_. Begin) 2)\<^sup>*\<^sup>*)
       (\<lambda>s. \<exists>rs. main s = Joined rs)
       (\<lambda>s. length (counters (mem s)) = 2 \<and> (1, 2) \<in> set (counters (mem s)))"

text \<open>The cell of a thread is the number of its calls, and every pair in the vector is of a thread that has
  ended.\<close>

fun calls_made :: "(local_thread, unit) task \<Rightarrow> usize" where
  "calls_made Absent = 0"
| "calls_made (Alive Begin) = 0"
| "calls_made (Alive (Called v)) = 1"
| "calls_made (Alive (Called_twice v w)) = 2"
| "calls_made (Ended x) = 2"

fun counted_right :: "(local_thread, unit) task \<Rightarrow> bool" where
  "counted_right (Alive (Called v)) \<longleftrightarrow> v = 1"
| "counted_right (Alive (Called_twice v w)) \<longleftrightarrow> v = 1 \<and> w = 2"
| "counted_right t \<longleftrightarrow> True"

fun ended :: "(local_thread, unit) task \<Rightarrow> nat" where
  "ended (Ended x) = 1"
| "ended t = 0"

definition local_inv :: "shared_data \<Rightarrow> (nat \<Rightarrow> (local_thread, unit) task) \<Rightarrow> bool" where
  "local_inv g ts \<longleftrightarrow>
     (\<forall>i. cells g i = calls_made (ts i) \<and> counted_right (ts i)) \<and> (\<forall>i. ts i \<noteq> Absent \<longrightarrow> i < 2) \<and>
     counters g = replicate (ended (ts 0) + ended (ts 1)) (1, 2)"

fun local_rank :: "local_thread \<Rightarrow> nat" where
  "local_rank Begin = 2"
| "local_rank (Called v) = 1"
| "local_rank (Called_twice v w) = 0"

lemma increment_few:
  "cells g i \<in> {0, 1} \<Longrightarrow>
   increment_thread_local ck i (cells g) = Inr ((cells g)(i := cells g i + 1), cells g i + 1)"
  by (auto simp: increment_thread_local_def add_ck_def)

lemma local_step_inv:
  assumes "local_inv g ts" "ts i = Alive t" "local_step ck i g t g' t'"
  shows "local_inv g' (ts(i := t')) \<and>
    ((\<exists>u. t' = Alive u \<and> local_rank u < local_rank t) \<or> t' = Ended (Inr ()))"
proof -
  have i: "i < 2" "cells g i = calls_made (Alive t)" "counted_right (Alive t)"
    using assms(1,2) by (auto simp: local_inv_def dest: spec [of _ i])
  have "i = 0 \<or> i = 1" using i(1) by auto
  with assms(3) show ?thesis
    by (cases rule: local_step.cases; elim disjE)
      (use assms(1,2) i increment_few [of g i ck] in \<open>auto simp: local_inv_def replicate_append_same\<close>)
qed

lemma local_step_possible:
  assumes "local_inv g ts" "ts i = Alive t"
  shows "\<exists>g' t'. local_step ck i g t g' t'"
proof (cases t)
  case Begin
  then show ?thesis using local_step.first local_step.panic by (metis old.prod.exhaust sum.exhaust)
next
  case (Called v)
  then show ?thesis using local_step.second local_step.panic by (metis old.prod.exhaust sum.exhaust)
next
  case (Called_twice v w)
  then show ?thesis using local_step.push by metis
qed

interpretation counting: fork_join "local_step ck" "\<lambda>_. Begin" 2 local_inv "\<lambda>_ _. True" local_rank for ck
proof
  show "local_inv g (ts(i := Alive Begin))" if "local_inv g ts" "i < 2" "ts i = Absent" for g ts i
    using that by (auto simp: local_inv_def less_2_cases_iff)
qed (use local_step_inv local_step_possible in blast)+

lemma thread_local_test: "test_thread_local ck"
  unfolding test_thread_local_def
proof (rule returnsI; (elim exE)?)
  fix s
  assume r: "(fj_step (local_step ck) (\<lambda>_. Begin) 2)\<^sup>*\<^sup>* (fj_init \<lparr>cells = THREAD_COUNT, counters = []\<rparr>) s"
  have "local_inv \<lparr>cells = THREAD_COUNT, counters = []\<rparr> (\<lambda>_. Absent)"
    by (simp add: local_inv_def THREAD_COUNT_def)
  from counting.fj_inv_steps [OF r counting.fj_inv_init [OF this]]
  have inv: "counting.fj_inv s" .
  show "\<exists>s'. (fj_step (local_step ck) (\<lambda>_. Begin) 2)\<^sup>*\<^sup>* s s' \<and> (\<exists>rs. main s' = Joined rs)"
    using counting.fj_finishes [OF inv] by blast
  fix rs
  assume j: "main s = Joined rs"
  have "ended (tasks s 0) = 1" "ended (tasks s 1) = 1"
    using counting.joined_results(2) [OF inv j, of 0] counting.joined_results(2) [OF inv j, of 1] by simp_all
  then have "counters (mem s) = replicate 2 (1, 2)"
    using counting.joined_results(3) [OF inv j] by (simp add: local_inv_def numeral_2_eq_2)
  then show "length (counters (mem s)) = 2 \<and> (1, 2) \<in> set (counters (mem s))" by simp
qed

end
