(* ===== verification/MutexCounterTests.thy ===== *)
theory MutexCounterTests
  imports MutexCounter TestRuns
begin

text \<open>
  The unit tests of \<^verbatim>\<open>exercises/01_concurrency_sync/02_mutex_counter/src/lib.rs\<close> on the model: they pass in
  every interleaving of the threads.
\<close>

definition counter_returns :: "bool \<Rightarrow> nat \<Rightarrow> nat \<Rightarrow> usize \<Rightarrow> bool" where
  "counter_returns ck n_threads count_per_thread r =
     returns (concurrent_counter ck n_threads count_per_thread) (run_threads (count_op ck) n_threads count_per_thread)
       (\<lambda>s. \<exists>rs. main s = Joined rs) (\<lambda>s. lock_unwrap (mem s) = Inr r)"

definition collect_returns :: "nat \<Rightarrow> nat list \<Rightarrow> bool" where
  "collect_returns n_threads r =
     returns (concurrent_collect n_threads) (run_threads push_op n_threads 1)
       (\<lambda>s. \<exists>rs. main s = Joined rs) (\<lambda>s. collect_result (mem s) = Inr r)"

definition test_counter_single_thread :: "bool \<Rightarrow> bool" where [tests]:
  "test_counter_single_thread ck = counter_returns ck 1 100 100"

definition test_counter_multi_thread :: "bool \<Rightarrow> bool" where [tests]:
  "test_counter_multi_thread ck = counter_returns ck 10 100 1000"

definition test_counter_zero :: "bool \<Rightarrow> bool" where [tests]:
  "test_counter_zero ck = counter_returns ck 5 0 0"

definition test_collect :: bool where [tests]:
  "test_collect = collect_returns 5 [0, 1, 2, 3, 4]"

definition test_collect_single :: bool where [tests]:
  "test_collect_single = collect_returns 1 [0]"

lemma counter_returns_product:
  assumes "n_threads * count_per_thread < 2 ^ 64"
  shows "counter_returns ck n_threads count_per_thread (of_nat (n_threads * count_per_thread))"
  unfolding counter_returns_def
proof (rule returnsI; (elim exE)?)
  fix s
  assume "concurrent_counter ck n_threads count_per_thread s"
  note upd = updates.all_updates [OF counter_updates this [unfolded concurrent_counter_def]]
  show "\<exists>s'. run_threads (count_op ck) n_threads count_per_thread s s' \<and> (\<exists>rs. main s' = Joined rs)"
    using upd(2) assms by auto
  fix rs
  assume "main s = Joined rs"
  from upd(1) [OF _ _ this] assms show "lock_unwrap (mem s) = Inr (of_nat (n_threads * count_per_thread))"
    by (simp add: lock_unwrap_def)
qed

lemma mutex_counter_tests:
  "test_counter_single_thread ck" "test_counter_multi_thread ck" "test_counter_zero ck"
  "test_collect" "test_collect_single"
proof -
  have collect: "collect_returns n [0..<n]" for n
    using concurrent_collect_all unfolding collect_returns_def returns_def by blast
  have "[0..<5] = [0, 1, 2, 3, 4 :: nat]" "[0..<1] = [0 :: nat]" by (simp_all add: upt_rec)
  then show "test_collect" "test_collect_single"
    using collect [of 5] collect [of 1] by (simp_all add: tests)
  show "test_counter_single_thread ck" "test_counter_multi_thread ck" "test_counter_zero ck"
    using counter_returns_product [of 1 100 ck] counter_returns_product [of 10 100 ck]
      counter_returns_product [of 5 0 ck] by (simp_all add: tests)
qed

end
