(* ===== verification/ChannelTests.thy ===== *)
theory ChannelTests
  imports Channel TestRuns
begin

text \<open>
  The unit tests of \<^verbatim>\<open>exercises/01_concurrency_sync/03_channel/src/lib.rs\<close> on the model: they pass in
  every interleaving of the threads.
\<close>

definition send_recv_returns :: "string list \<Rightarrow> string list \<Rightarrow> bool" where
  "send_recv_returns items r =
     returns (simple_send_recv items) ((net_step mpsc_send mpsc_recv [items])\<^sup>*\<^sup>*)
       (\<lambda>s. main s = Finished) (\<lambda>s. received s = r)"

definition producer_returns :: "nat \<Rightarrow> string list \<Rightarrow> bool" where
  "producer_returns n r =
     returns (multi_producer n) ((net_step mpsc_send mpsc_recv (map (\<lambda>i. [producer_message i]) [0..<n]))\<^sup>*\<^sup>*)
       (\<lambda>s. main s = Finished) (\<lambda>s. multi_producer_result s = r)"

definition test_simple_send_recv :: bool where [tests]:
  "test_simple_send_recv =
     (let items = [''hello'', ''world'', ''rust''] in send_recv_returns items items)"

definition test_simple_empty :: bool where [tests]:
  "test_simple_empty = send_recv_returns [] []"

definition test_multi_producer :: bool where [tests]:
  "test_multi_producer = producer_returns 3 [''msg from 0'', ''msg from 1'', ''msg from 2'']"

definition test_multi_producer_single :: bool where [tests]:
  "test_multi_producer_single = producer_returns 1 [''msg from 0'']"

lemma producer_returns_sorted: "producer_returns n (sort (map producer_message [0..<n]))"
  unfolding producer_returns_def
proof (rule returnsI)
  fix s
  assume r: "multi_producer n s"
  note d = mpsc.delivers [OF r [unfolded multi_producer_def]]
  show "\<exists>s'. (net_step mpsc_send mpsc_recv (map (\<lambda>i. [producer_message i]) [0..<n]))\<^sup>*\<^sup>* s s' \<and> main s' = Finished"
    using d(3) by simp
  assume "main s = Finished"
  then have "merged (map (\<lambda>i. [producer_message i]) [0..<n]) (received s)" using d(1) by simp
  from merged_singletons [OF this] show "multi_producer_result s = sort (map producer_message [0..<n])"
    unfolding multi_producer_result_def by (metis mset_sort properties_for_sort sorted_sort)
qed

lemma channel_tests:
  "test_simple_send_recv" "test_simple_empty" "test_multi_producer" "test_multi_producer_single"
proof -
  have "send_recv_returns items items" for items
    using simple_send_recv_all unfolding send_recv_returns_def returns_def by blast
  then show "test_simple_send_recv" "test_simple_empty" by (simp_all add: tests)
  have "map producer_message [0..<3] = [''msg from 0'', ''msg from 1'', ''msg from 2'']"
    "map producer_message [0..<1] = [''msg from 0'']"
    by code_simp+
  moreover have "sort [''msg from 0'', ''msg from 1'', ''msg from 2''] = [''msg from 0'', ''msg from 1'', ''msg from 2'']"
    by (simp add: less_eq_char_def)
  ultimately show "test_multi_producer" "test_multi_producer_single"
    using producer_returns_sorted [of 3] producer_returns_sorted [of 1] by (simp_all only: tests) simp_all
qed

end
