(* ===== verification/ProcessPipeTests.thy ===== *)
theory ProcessPipeTests
  imports ProcessPipe TestRuns "HOL-Library.Sublist"
begin

text \<open>
  The unit tests of \<^verbatim>\<open>exercises/01_concurrency_sync/04_process_pipe/src/lib.rs\<close> on the model. What the
  programs \<^verbatim>\<open>echo\<close>, \<^verbatim>\<open>sh\<close> and \<^verbatim>\<open>grep\<close> do is a parameter, with the behaviour that the tests rely on as
  hypotheses; the inputs fit into a pipe.
\<close>

section \<open>The tests\<close>

text \<open>\<^verbatim>\<open>str::trim\<close>, for ASCII text.\<close>

definition white :: "char \<Rightarrow> bool" where
  "white c \<longleftrightarrow> c \<in> {CHR '' '', CHR 0x09, LF, CHR 0x0B, CHR 0x0C, CR}"

definition trim :: "string \<Rightarrow> string" where
  "trim s = rev (dropWhile white (rev (dropWhile white s)))"

definition test_run_echo :: "programs \<Rightarrow> bool" where [tests]:
  "test_run_echo run \<longleftrightarrow>
     yields (run_command run ''echo'' [''hello'']) (\<lambda>output. trim output = ''hello'')"

definition test_run_with_args :: "programs \<Rightarrow> bool" where [tests]:
  "test_run_with_args run \<longleftrightarrow>
     yields (run_command run ''echo'' [''-n'', ''no newline'']) (\<lambda>output. output = ''no newline'')"

definition cat_returns :: "nat \<Rightarrow> nat \<Rightarrow> string \<Rightarrow> string \<Rightarrow> bool" where
  "cat_returns cap room input output =
     returns (pipe_through_cat cap room input) ((pipe_step cat_react (\<lambda>_. []) cap room)\<^sup>*\<^sup>*)
       (\<lambda>s. phase s = Waited) (\<lambda>s. pipe_result s = Inr output)"

definition test_pipe_cat :: "nat \<Rightarrow> nat \<Rightarrow> bool" where [tests]:
  "test_pipe_cat cap room = cat_returns cap room ''hello pipe!'' ''hello pipe!''"

definition test_pipe_multiline :: "nat \<Rightarrow> nat \<Rightarrow> bool" where [tests]:
  "test_pipe_multiline cap room =
     (let input = ''line1'' @ [LF] @ ''line2'' @ [LF] @ ''line3'' in cat_returns cap room input input)"

definition test_exit_code_success :: "programs \<Rightarrow> bool" where [tests]:
  "test_exit_code_success run \<longleftrightarrow> yields (get_exit_code run ''true'') (\<lambda>c. c = 0)"

definition test_exit_code_failure :: "programs \<Rightarrow> bool" where [tests]:
  "test_exit_code_failure run \<longleftrightarrow> yields (get_exit_code run ''false'') (\<lambda>c. c = 1)"

definition test_run_command_with_result_success :: "programs \<Rightarrow> bool" where [tests]:
  "test_run_command_with_result_success run \<longleftrightarrow>
     (case run_command_with_result run ''echo'' [''hello''] of
        Inl _ \<Rightarrow> False
      | Inr output \<Rightarrow> trim output = ''hello'')"

definition test_run_command_with_result_nonexistent :: "programs \<Rightarrow> bool" where [tests]:
  "test_run_command_with_result_nonexistent run \<longleftrightarrow>
     (case run_command_with_result run ''nonexistent_command_xyz'' [] of Inl _ \<Rightarrow> True | Inr _ \<Rightarrow> False)"

text \<open>The program \<^verbatim>\<open>grep\<close> as a machine behind the pipes.\<close>

record 'q grep_program =
  react :: "'q \<Rightarrow> char \<Rightarrow> 'q \<times> string"
  last_words :: "'q \<Rightarrow> string"
  started :: "string \<Rightarrow> 'q"

definition grep_returns :: "'q grep_program \<Rightarrow> nat \<Rightarrow> nat \<Rightarrow> string \<Rightarrow> string \<Rightarrow> string \<Rightarrow> bool" where
  "grep_returns g cap room pattern input output =
     returns (pipe_through_grep (react g) (last_words g) (started g) cap room pattern input)
       ((pipe_step (react g) (last_words g) cap room)\<^sup>*\<^sup>*)
       (\<lambda>s. phase s = Waited) (\<lambda>s. grep_result s = Inr output)"

definition test_pipe_through_grep_basic :: "'q grep_program \<Rightarrow> nat \<Rightarrow> nat \<Rightarrow> bool" where [tests]:
  "test_pipe_through_grep_basic g cap room =
     grep_returns g cap room ''a'' (''apple'' @ [LF] @ ''banana'' @ [LF] @ ''cherry'' @ [LF])
       (''apple'' @ [LF] @ ''banana'' @ [LF])"

definition test_pipe_through_grep_no_match :: "'q grep_program \<Rightarrow> nat \<Rightarrow> nat \<Rightarrow> bool" where [tests]:
  "test_pipe_through_grep_no_match g cap room =
     grep_returns g cap room ''z'' (''apple'' @ [LF] @ ''banana'' @ [LF] @ ''cherry'' @ [LF]) []"

definition test_pipe_through_grep_multiline :: "'q grep_program \<Rightarrow> nat \<Rightarrow> nat \<Rightarrow> bool" where [tests]:
  "test_pipe_through_grep_multiline g cap room =
     grep_returns g cap room ''second'' (''first line'' @ [LF] @ ''second line'' @ [LF] @ ''third line'' @ [LF])
       (''second line'' @ [LF])"

section \<open>All of them pass\<close>

text \<open>\<^verbatim>\<open>echo\<close> prints its argument, with a line feed unless told otherwise; a shell exits with the status of
  its command; there is no program with the strange name.\<close>

lemma command_tests:
  assumes prints: "run ''echo'' [''hello''] = Some \<lparr>out_bytes = ''hello'' @ [LF], exit_code = Some 0\<rparr>"
      "run ''echo'' [''-n'', ''no newline''] = Some \<lparr>out_bytes = ''no newline'', exit_code = Some 0\<rparr>"
    and exits: "run ''sh'' [''-c'', ''true''] = Some \<lparr>out_bytes = [], exit_code = Some 0\<rparr>"
      "run ''sh'' [''-c'', ''false''] = Some \<lparr>out_bytes = [], exit_code = Some 1\<rparr>"
    and absent: "run ''nonexistent_command_xyz'' [] = None"
  shows "test_run_echo run" "test_run_with_args run" "test_exit_code_success run" "test_exit_code_failure run"
    "test_run_command_with_result_success run" "test_run_command_with_result_nonexistent run"
proof -
  have valid: "utf8_valid (''hello'' @ [LF])" "utf8_valid ''no newline''"
    by (simp_all add: utf8_valid_ascii)
  have trim: "trim (''hello'' @ [LF]) = ''hello''" by (simp add: trim_def white_def)
  show "test_run_echo run" "test_run_with_args run" "test_exit_code_success run" "test_exit_code_failure run"
    "test_run_command_with_result_success run" "test_run_command_with_result_nonexistent run"
    using trim valid prints exits absent
    by (simp_all add: tests run_command_def run_command_with_result_def get_exit_code_def from_utf8_lossy_id del: append_Cons)
qed

lemma cat_returns_input:
  assumes "0 < cap" "0 < room" "length input \<le> cap" "utf8_valid input"
  shows "cat_returns cap room input input"
  unfolding cat_returns_def
proof (rule returnsI)
  fix s
  assume "pipe_through_cat cap room input s"
  then have inv: "pipe_inv cat_react (\<lambda>_. []) () input s"
    unfolding pipe_through_cat_def by (rule pipe_inv_steps [OF _ pipe_inv_init])
  have "\<not> pipe_stuck cap room s'" if "pipe_inv cat_react (\<lambda>_. []) () input s'" for s'
    by (rule small_input_not_stuck [OF that assms(3)])
  from pipe_finishes [OF assms(1,2) this inv]
  show "\<exists>s'. (pipe_step cat_react (\<lambda>_. []) cap room)\<^sup>*\<^sup>* s s' \<and> phase s' = Waited" .
  show "pipe_result s = Inr input" if "phase s = Waited"
    using waited_answer [OF inv that] assms(4) by (simp add: answer_cat pipe_result_def)
qed

text \<open>\<^verbatim>\<open>grep\<close> prints the lines that contain the pattern.\<close>

definition contains :: "string \<Rightarrow> string \<Rightarrow> bool" where
  "contains p s \<longleftrightarrow> (\<exists>t \<in> set (suffixes s). prefix p t)"

definition grep_lines :: "string \<Rightarrow> string list \<Rightarrow> string" where
  "grep_lines p ls = concat (map (\<lambda>l. l @ [LF]) (filter (contains p) ls))"

lemma grep_returns_lines:
  assumes "0 < cap" "0 < room" "length (concat (map (\<lambda>l. l @ [LF]) ls)) \<le> cap" "utf8_valid (grep_lines p ls)"
    and "answer (react g) (last_words g) (started g p) (concat (map (\<lambda>l. l @ [LF]) ls)) = grep_lines p ls"
  shows "grep_returns g cap room p (concat (map (\<lambda>l. l @ [LF]) ls)) (grep_lines p ls)"
  using pipe_through_grep_answer [OF assms(1,2)] assms(3-5)
  unfolding grep_returns_def returns_def by metis

lemma pipe_tests:
  assumes "100 \<le> cap" "0 < room"
    and grep: "\<And>p ls. \<forall>l \<in> set ls. LF \<notin> set l \<Longrightarrow>
      answer (react g) (last_words g) (started g p) (concat (map (\<lambda>l. l @ [LF]) ls)) = grep_lines p ls"
  shows "test_pipe_cat cap room" "test_pipe_multiline cap room" "test_pipe_through_grep_basic g cap room"
    "test_pipe_through_grep_no_match g cap room" "test_pipe_through_grep_multiline g cap room"
proof -
  have cap: "0 < cap" using assms(1) by simp
  show "test_pipe_cat cap room" "test_pipe_multiline cap room"
    unfolding tests Let_def
    by (rule cat_returns_input [OF cap assms(2)], use assms(1) in \<open>simp_all add: utf8_valid_ascii\<close>)+
  note lines = grep_returns_lines [OF cap assms(2) _ _ grep]
  let ?fruit = "[''apple'', ''banana'', ''cherry'']" and ?ls = "[''first line'', ''second line'', ''third line'']"
  have "grep_lines ''a'' ?fruit = ''apple'' @ [LF] @ ''banana'' @ [LF]" "grep_lines ''z'' ?fruit = []"
    "grep_lines ''second'' ?ls = ''second line'' @ [LF]"
    by (simp_all add: grep_lines_def contains_def)
  then show "test_pipe_through_grep_basic g cap room"
    "test_pipe_through_grep_no_match g cap room" "test_pipe_through_grep_multiline g cap room"
    using lines [of ?fruit "''a''"] lines [of ?fruit "''z''"] lines [of ?ls "''second''"] assms(1)
    by (simp_all add: tests utf8_valid_ascii)
qed

text \<open>A machine that behaves like that.\<close>

definition line_filter :: "(string \<times> string) grep_program" where
  "line_filter = \<lparr>
     react = (\<lambda>(p, l) b. if b = LF then ((p, []), if contains p l then l @ [LF] else []) else ((p, l @ [b]), [])),
     last_words = (\<lambda>(p, l). if l \<noteq> [] \<and> contains p l then l @ [LF] else []),
     started = (\<lambda>p. (p, []))\<rparr>"

lemma line_filter_line:
  "LF \<notin> set l \<Longrightarrow>
   answer (react line_filter) (last_words line_filter) (p, k) (l @ LF # input) =
     (if contains p (k @ l) then k @ l @ [LF] else []) @
     answer (react line_filter) (last_words line_filter) (p, []) input"
  by (induction l arbitrary: k) (auto simp: line_filter_def)

lemma line_filter_greps:
  assumes "\<forall>l \<in> set ls. LF \<notin> set l"
  shows "answer (react line_filter) (last_words line_filter) (started line_filter p)
    (concat (map (\<lambda>l. l @ [LF]) ls)) = grep_lines p ls"
proof -
  have "started line_filter p = (p, [])" by (simp add: line_filter_def)
  moreover from assms have "answer (react line_filter) (last_words line_filter) (p, [])
      (concat (map (\<lambda>l. l @ [LF]) ls)) = grep_lines p ls"
  proof (induction ls)
    case Nil
    then show ?case by (simp add: grep_lines_def line_filter_def)
  next
    case (Cons l ls)
    then show ?case using line_filter_line [of l p "[]"] by (simp add: grep_lines_def)
  qed
  ultimately show ?thesis by simp
qed

end
