(* ===== verification/FuturesTests.thy ===== *)
theory FuturesTests
  imports Futures
begin

text \<open>
  The unit tests of \<^verbatim>\<open>exercises/05_async_programming/01_basic_future/src/lib.rs\<close> on the model: each
  awaits a future, which the executor has to bring to its output.
\<close>

text \<open>The executor comes back, without a panic, with an output that \<open>Q\<close> holds of.\<close>

definition awaits :: "('a \<times> 's) res option \<Rightarrow> ('a \<Rightarrow> bool) \<Rightarrow> bool" where
  "awaits r Q \<longleftrightarrow> (case r of None \<Rightarrow> False | Some x \<Rightarrow> yields x (\<lambda>(output, _). Q output))"

definition test_countdown_zero :: "bool \<Rightarrow> bool" where [tests]:
  "test_countdown_zero ck \<longleftrightarrow>
     awaits (block_on (poll_countdown ck) (countdown_new 0)) (\<lambda>result. result = ''liftoff!'')"

definition test_countdown_three :: "bool \<Rightarrow> bool" where [tests]:
  "test_countdown_three ck \<longleftrightarrow>
     awaits (block_on (poll_countdown ck) (countdown_new 3)) (\<lambda>result. result = ''liftoff!'')"

definition test_yield_once :: bool where [tests]:
  "test_yield_once \<longleftrightarrow> awaits (block_on poll_yield_once yield_once_new) (\<lambda>_. True)"

definition test_countdown_large :: "bool \<Rightarrow> bool" where [tests]:
  "test_countdown_large ck \<longleftrightarrow>
     awaits (block_on (poll_countdown ck) (countdown_new 100)) (\<lambda>result. result = ''liftoff!'')"

lemma futures_tests:
  "test_countdown_zero ck" "test_countdown_three ck" "test_yield_once" "test_countdown_large ck"
proof -
  have "awaits (block_on (poll_countdown ck) c) (\<lambda>result. result = ''liftoff!'')" for c
    using countdown.block_on_returns [of ck c] by (auto simp: awaits_def)
  moreover have "awaits (block_on poll_yield_once c) (\<lambda>_. True)" for c
    using yield_once.block_on_returns [of c] by (auto simp: awaits_def)
  ultimately show "test_countdown_zero ck" "test_countdown_three ck" "test_yield_once" "test_countdown_large ck"
    by (simp_all only: tests)
qed

end
