(* ===== verification/TokioTasksTests.thy ===== *)
theory TokioTasksTests
  imports TokioTasks TestRuns
begin

text \<open>
  The unit tests of \<^verbatim>\<open>exercises/05_async_programming/02_tokio_tasks/src/lib.rs\<close> on the model: they pass
  on every runtime that meets the contract of theory ForkJoin. How long the sleeping tasks take is not
  modelled.
\<close>

definition squares_return ::
  "bool \<Rightarrow> (u64 \<Rightarrow> usize res \<Rightarrow> 'l) \<Rightarrow> ('g, 'l, usize) task_step \<Rightarrow> 'g \<Rightarrow> nat \<Rightarrow> usize list \<Rightarrow> bool" where
  "squares_return ck submit tstep g n r =
     returns (concurrent_squares ck submit tstep n g) ((fj_step tstep (\<lambda>i. submit 10 (square ck i)) n)\<^sup>*\<^sup>*)
       (\<lambda>s. \<exists>rs. main s = Joined rs) (\<lambda>s. main s = Joined r)"

definition test_squares_basic ::
  "bool \<Rightarrow> (u64 \<Rightarrow> usize res \<Rightarrow> 'l) \<Rightarrow> ('g, 'l, usize) task_step \<Rightarrow> 'g \<Rightarrow> bool" where [tests]:
  "test_squares_basic ck submit tstep g = squares_return ck submit tstep g 5 [0, 1, 4, 9, 16]"

definition test_squares_zero ::
  "bool \<Rightarrow> (u64 \<Rightarrow> usize res \<Rightarrow> 'l) \<Rightarrow> ('g, 'l, usize) task_step \<Rightarrow> 'g \<Rightarrow> bool" where [tests]:
  "test_squares_zero ck submit tstep g = squares_return ck submit tstep g 0 []"

definition test_squares_one ::
  "bool \<Rightarrow> (u64 \<Rightarrow> usize res \<Rightarrow> 'l) \<Rightarrow> ('g, 'l, usize) task_step \<Rightarrow> 'g \<Rightarrow> bool" where [tests]:
  "test_squares_one ck submit tstep g = squares_return ck submit tstep g 1 [0]"

definition test_parallel_sleep ::
  "(u64 \<Rightarrow> usize res \<Rightarrow> 'l) \<Rightarrow> ('g, 'l, usize) task_step \<Rightarrow> 'g \<Rightarrow> bool" where [tests]:
  "test_parallel_sleep submit tstep g =
     returns (parallel_sleep_tasks submit tstep 5 100 g)
       ((fj_step tstep (\<lambda>i. submit 100 (Inr (of_nat i))) 5)\<^sup>*\<^sup>*)
       (\<lambda>s. \<exists>rs. main s = Joined rs)
       (\<lambda>s. \<forall>rs. main s = Joined rs \<longrightarrow> sleep_result rs = [0, 1, 2, 3, 4])"

lemma upt_small:
  "[0..<0] = ([] :: nat list)" "[0..<1] = [0 :: nat]" "[0..<5] = [0, 1, 2, 3, 4 :: nat]"
  by (simp_all add: upt_rec)

lemma squares_tests:
  assumes "task_runtime (submit 10) tstep computes rank"
  shows "test_squares_basic ck submit tstep g" "test_squares_zero ck submit tstep g"
    "test_squares_one ck submit tstep g"
proof -
  have "squares_return ck submit tstep g n (map (\<lambda>i. of_nat (i * i)) [0..<n])" if "n \<le> 2 ^ 32" for n
    unfolding squares_return_def
  proof (rule returnsI; (elim exE)?)
    fix s
    assume "concurrent_squares ck submit tstep n g s"
    note sq = concurrent_squares_ordered [where submit = submit, OF assms that this]
    show "\<exists>s'. (fj_step tstep (\<lambda>i. submit 10 (square ck i)) n)\<^sup>*\<^sup>* s s' \<and> (\<exists>rs. main s' = Joined rs)"
      using sq by blast
    show "main s = Joined (map (\<lambda>i. of_nat (i * i)) [0..<n])" if "main s = Joined rs" for rs
      using sq that by simp
  qed
  from this [of 5] this [of 0] this [of 1]
  show "test_squares_basic ck submit tstep g" "test_squares_zero ck submit tstep g"
    "test_squares_one ck submit tstep g" unfolding tests upt_small by simp_all
qed

lemma sleep_test:
  assumes "task_runtime (submit 100) tstep computes rank"
  shows "test_parallel_sleep submit tstep g"
  unfolding test_parallel_sleep_def
proof (rule returnsI; (intro allI impI)?)
  fix s
  assume r: "parallel_sleep_tasks submit tstep 5 100 g s"
  show "\<exists>s'. (fj_step tstep (\<lambda>i. submit 100 (Inr (of_nat i))) 5)\<^sup>*\<^sup>* s s' \<and> (\<exists>rs. main s' = Joined rs)"
    using task_runtime.group_results(2) [OF assms, of 5 "\<lambda>i. Inr (of_nat i)" of_nat,
        OF _ r [unfolded parallel_sleep_tasks_def]] by blast
  show "sleep_result rs = [0, 1, 2, 3, 4]" if "main s = Joined rs" for rs
    using parallel_sleep_sorted [OF assms _ r that] by (simp add: upt_small)
qed

end
