(* ===== verification/AsyncChannelTests.thy ===== *)
theory AsyncChannelTests
  imports AsyncChannel TestRuns
begin

text \<open>
  The unit tests of \<^verbatim>\<open>exercises/05_async_programming/03_async_channel/src/lib.rs\<close> on the model: they
  pass over every channel that meets tokio's contract, in every interleaving of the tasks.
\<close>

record 'c channel_ops =
  mk :: "nat \<Rightarrow> 'c"
  send :: "string \<Rightarrow> 'c \<Rightarrow> 'c option"
  recv :: "'c \<Rightarrow> (string \<times> 'c) option"

definition consumer_returns :: "'c channel_ops \<Rightarrow> string list \<Rightarrow> string list \<Rightarrow> bool" where
  "consumer_returns c items r =
     returns (producer_consumer (mk c) (send c) (recv c) items) ((net_step (send c) (recv c) [items])\<^sup>*\<^sup>*)
       (\<lambda>s. main s = Finished) (\<lambda>s. received s = r)"

definition fan_in_returns :: "'c channel_ops \<Rightarrow> nat \<Rightarrow> string list \<Rightarrow> bool" where
  "fan_in_returns c n r =
     returns (fan_in (mk c) (send c) (recv c) n)
       ((net_step (send c) (recv c) (map (\<lambda>i. [fan_in_message i]) [0..<n]))\<^sup>*\<^sup>*)
       (\<lambda>s. main s = Finished) (\<lambda>s. fan_in_result s = r)"

definition test_producer_consumer :: "'c channel_ops \<Rightarrow> bool" where [tests]:
  "test_producer_consumer c =
     (let items = [''hello'', ''async'', ''world''] in consumer_returns c items items)"

definition test_producer_consumer_empty :: "'c channel_ops \<Rightarrow> bool" where [tests]:
  "test_producer_consumer_empty c = consumer_returns c [] []"

definition test_fan_in :: "'c channel_ops \<Rightarrow> bool" where [tests]:
  "test_fan_in c =
     fan_in_returns c 3 [''producer 0: message'', ''producer 1: message'', ''producer 2: message'']"

definition test_fan_in_single :: "'c channel_ops \<Rightarrow> bool" where [tests]:
  "test_fan_in_single c = fan_in_returns c 1 [''producer 0: message'']"

lemma delivers_over:
  assumes "bounded_channel (mk c) (send c) (recv c) queued" "0 < cap"
    and "(net_step (send c) (recv c) ms)\<^sup>*\<^sup>* (net_init (mk c cap)) s"
  shows "main s = Finished \<Longrightarrow> merged ms (received s)"
    and "\<exists>s'. (net_step (send c) (recv c) ms)\<^sup>*\<^sup>* s s' \<and> main s' = Finished"
  using fifo_channel.delivers [of "send c" "recv c" queued ms "mk c cap" s] assms by (simp_all add: bounded_channel_def)

lemma async_channel_tests:
  assumes "bounded_channel (mk c) (send c) (recv c) queued"
  shows "test_producer_consumer c" "test_producer_consumer_empty c" "test_fan_in c" "test_fan_in_single c"
proof -
  have cap: "0 < max k 1" for k :: nat by simp
  note over = delivers_over [OF assms cap]
  have "consumer_returns c items items" for items
    unfolding consumer_returns_def
    by (rule returnsI)
      (use over(1) [where ms = "[items]", THEN merged_single, OF _ _ refl] over(2) [where ms = "[items]"] in
        \<open>auto simp: producer_consumer_def\<close>)
  then show "test_producer_consumer c" "test_producer_consumer_empty c" by (simp_all add: tests)
  have fan: "fan_in_returns c n (sort (map fan_in_message [0..<n]))" for n
    unfolding fan_in_returns_def
  proof (rule returnsI)
    fix s
    assume "fan_in (mk c) (send c) (recv c) n s"
    note d = over [OF this [unfolded fan_in_def]]
    show "\<exists>s'. (net_step (send c) (recv c) (map (\<lambda>i. [fan_in_message i]) [0..<n]))\<^sup>*\<^sup>* s s' \<and> main s' = Finished"
      using d(2) .
    assume "main s = Finished"
    from merged_singletons [OF d(1) [OF this]] show "fan_in_result s = sort (map fan_in_message [0..<n])"
      unfolding fan_in_result_def by (metis mset_sort properties_for_sort sorted_sort)
  qed
  have "map fan_in_message [0..<3] = [''producer 0: message'', ''producer 1: message'', ''producer 2: message'']"
    "map fan_in_message [0..<1] = [''producer 0: message'']"
    by code_simp+
  moreover have "sort [''producer 0: message'', ''producer 1: message'', ''producer 2: message''] =
      [''producer 0: message'', ''producer 1: message'', ''producer 2: message'']"
    by (simp add: less_eq_char_def)
  ultimately show "test_fan_in c" "test_fan_in_single c"
    using fan [of 3] fan [of 1] by (simp_all only: tests) simp_all
qed

end
