(* ===== verification/Spec2Isabelle.thy ===== *)
theory Spec2Isabelle
  imports PteFlags SingleLevelPageTable Sv39PageTable Sv39Types TlbSim HitRate MemPrimitives BumpAllocator
    FreeListAllocator FreeListRace FdTable SpinLock SpinGuard RwWorkload RwLockSpec AtomicCounter MemoryOrdering
    StackCoroutine GreenMachine SyscallWrapper WatchProgress WatchFailure CliModes ThreadSpawn MutexCounter
    TokioTasks AsyncChannel ProcessPipe Futures SelectTimeout
    PteFlagsTests SingleLevelTests Sv39Tests TlbTests MemPrimitivesTests BumpTests FreeListTests SyscallTests
    FdTableTests AtomicCounterTests MemoryOrderingTests SpinLockTests SpinGuardTests RwLockTests CoroutineTests
    GreenThreadsTests ThreadSpawnTests MutexCounterTests ChannelTests ProcessPipeTests FuturesTests
    TokioTasksTests AsyncChannelTests
begin

text \<open>
  A model of the operating system camp's base exercises: the crates under \<^verbatim>\<open>exercises\<close>, each one small
  library, and the exercise runner \<^verbatim>\<open>cli\<close>, which tests them with \<^verbatim>\<open>cargo\<close> and shows the progress. The
  crates do not call each other; what they share is the machine below (words, memory, threads),
  and the last section of this theory composes two of them.

  \<^bold>\<open>Conventions.\<close> \<^verbatim>\<open>usize\<close>, \<^verbatim>\<open>u64\<close> and the other integers are words of their width; a counter of
  iterations or an index that cannot get near \<open>2\<^sup>6\<^sup>4\<close> is a natural number. A function that may panic returns
  \<open>panic + 'a\<close>; the argument \<open>ck\<close> says whether the build checks overflow (a panic) or not (wrap
  around), and every property holds of both. Methods with \<^verbatim>\<open>&mut self\<close> take and return the
  record of the state. Threads are interleavings of atomic steps, given as \<open>inductive\<close> relations
  with their reachable states; where a program relies on weaker orderings than sequential consistency
  the memory has views (MemoryOrdering). Strings are lists of their UTF-8 bytes (Text). A name of the
  source is kept; where two crates use one name, the theory's name tells them apart.

  \<^bold>\<open>The theories and the code they model.\<close>

  \<^item> Prelude: words, panics, checked arithmetic, indexing a \<^verbatim>\<open>Vec\<close>, general lemmas. Memory: bytes behind
    raw pointers. Interleaving: pools of threads and the atomic operations of \<^verbatim>\<open>std\<close>. Text: strings,
    lines, decimal numbers, UTF-8.
  \<^item> PteFlags, SingleLevelPageTable, Sv39PageTable, TlbSim, HitRate, Sv39Types: \<^verbatim>\<open>exercises/06_page_table/01\<close> to \<^verbatim>\<open>04\<close>. The
    Vec and HashMap page tables are a list and a finite partial map of 512-entry nodes; \<^verbatim>\<open>map_page\<close>,
    \<^verbatim>\<open>map_superpage\<close>, \<^verbatim>\<open>translate\<close>, \<^verbatim>\<open>Tlb::insert\<close>, the flushes and \<^verbatim>\<open>Mmu::translate\<close> are translated with
    their panics. Shown: round trips of the entry layout, that mappings translate as the last mapping
    of a page says and disturb no other, which shape of tree every sequence of mappings keeps and which
    two panics it can run into, where \<^verbatim>\<open>map_superpage\<close> goes wrong, the FIFO invariant of
    the TLB, that the TLB is transparent (every run of the MMU answers as its page table would), and
    the accuracy of its hit rate in the \<^verbatim>\<open>f64\<close> arithmetic of Float64.
  \<^item> MemPrimitives, BumpAllocator, FreeListAllocator, FreeListRace, SyscallWrapper, FdTable:
    \<^verbatim>\<open>exercises/02_no_std_dev/01\<close> to \<^verbatim>\<open>05\<close>. Shown: what each memory routine does to every byte, overlap
    included; that live blocks stay aligned, inside the heap and disjoint, also under racing
    allocations and with owners that write their blocks; that the free list taken one memory access at
    a time keeps the heap sound at every access when calls do not overlap, and can give one block to two
    callers when they do; that \<^verbatim>\<open>syscall3\<close> agrees with the
    described ABI on both native targets; that the descriptor table refines a finite map.
  \<^item> AtomicCounter, MemoryOrdering, SpinLock, SpinGuard, RwLock, RwLockClient, RwWorkload, RwLockSpec: \<^verbatim>\<open>exercises/03_os_concurrency/01\<close> to \<^verbatim>\<open>05\<close>.
    Shown: linearizability of the counter, publication through the flag, mutual exclusion and no
    lost update for the locks, reader and writer exclusion, that the data does not change behind a guard, that
    readers and writers always get their work done, that the word and the loops of the read-write lock are exactly
    an abstract lock (every reachable state stands for one of its states, and every step it can take they can), and
    what is left of writer priority.
  \<^item> StackCoroutine, GreenThreads, GreenMachine: \<^verbatim>\<open>exercises/04_context_switch\<close>. The assembly of \<^verbatim>\<open>switch_context\<close> is a list of
    instructions run by an interpreter; the scheduler runs threads that are lists of actions and
    yields. Shown: that a task resumes where it left with its registers, that \<^verbatim>\<open>run\<close> returns after
    all threads have run round-robin, and, with the scheduler running on the machine of the coroutines, that every
    thread finds the registers it left with, whatever the other threads compute.
  \<^item> ThreadSpawn, MutexCounter, Channel, ProcessPipe: \<^verbatim>\<open>exercises/01_concurrency_sync/01\<close> to \<^verbatim>\<open>04\<close>; Futures,
    TokioTasks, AsyncChannel, SelectTimeout: \<^verbatim>\<open>exercises/05_async_programming/01\<close> to \<^verbatim>\<open>04\<close>. Shown: the results of each
    program in every interleaving, and that it always gets to its end; the exception are the pipes,
    which deadlock exactly when the input exceeds what the two pipes and the child's buffer hold.
  \<^item> Terminal, WatchMode, WatchScreen, WatchSafety, WatchProgress, WatchFailure, CliModes: \<^verbatim>\<open>cli/src/main.rs\<close>. What the program does
    to the terminal is a list of actions, kept also before a panic; the answers of \<^verbatim>\<open>cargo\<close>, the keys, the file
    events and every failure that the code unwraps (other than of printing) are inputs, one \<open>turn\<close> for each round
    of the loop. Shown: the loop's invariant and that it does not panic when nothing fails, that it congratulates
    exactly when all exercises are done, raw mode discipline, progress to the end, why it panics and in what state
    that leaves the terminal (WatchFailure), and the exit status and output of the modes.

  \<^item> The theories whose names end in \<open>Tests\<close>: the test modules of the crates. Each \<^verbatim>\<open>#[test]\<close> is a
    proposition over the model, declared in the collection \<open>tests\<close>, and proved: tests with threads (TestRuns)
    return, and pass, in every interleaving. LockWorkload proves it once for threads that work
    under a lock. The addresses of buffers are parameters, which shows on what a test depends.

  \<^bold>\<open>Interfaces.\<close> Each is a locale whose client lemmas are proved once: \<open>address_space\<close> (AddressSpace; both
  page tables), \<open>translation_cache\<close> (TranslationCache; the TLB), \<open>global_alloc\<close> (Allocator; both
  allocators), \<open>lock_contract\<close> and \<open>released_lock\<close> (LockClient; the two spin locks), \<open>lock_workload\<close>
  (LockWorkload; the tests of both), \<open>rw_workload\<close> (RwWorkload; the read-write lock), \<open>fork_join\<close> and
  \<open>task_runtime\<close> (ForkJoin; threads of \<^verbatim>\<open>std\<close>, the mutex programs through \<open>updates\<close>), \<open>fifo_channel\<close>
  (FifoChannel; \<^verbatim>\<open>mpsc\<close>), \<open>pool_refinement\<close> (PoolRefinement; the read-write lock), \<open>waking_future\<close> (Futures; both futures). Each is interpreted on the
  code's model in the theory of that component.

  \<^bold>\<open>Parameters.\<close> Code that is not in the repository is an argument: the processor's trap in
  SyscallWrapper, \<^verbatim>\<open>cargo\<close>, the files and the TOML parser in the runner, child processes and the
  capacity of pipes in ProcessPipe. tokio's tasks, channels, \<^verbatim>\<open>timeout\<close>, \<^verbatim>\<open>select!\<close> and
  \<^verbatim>\<open>sleep\<close> are arguments with the documented behaviour as hypothesis (\<open>task_runtime\<close>, \<open>bounded_channel\<close>,
  \<open>keeps_time\<close>, \<open>takes_first\<close>, \<open>sleeps\<close>), met by the instances of the witnesses.

  \<^bold>\<open>Termination.\<close> There is no fuel. Loops that may run for ever are \<open>partial_function (option)\<close> (the traversal
  of the free list, spinning on a lock, the executor of a future) or steps of a relation; that they
  end is proved: on the lists the allocator builds, for a free lock, for futures that wake
  their task, and for the programs with threads by a measure that every step decreases. The bounds
  in hypotheses are those of the machine: heaps end below \<open>2\<^sup>6\<^sup>3\<close> (an allocation is at most
  \<^verbatim>\<open>isize::MAX\<close> bytes), lists of exercises have fewer than \<open>2\<^sup>5\<^sup>6\<close> elements (no product in the
  progress bar overflows).

  \<^bold>\<open>What modelling showed.\<close> \<^verbatim>\<open>map_superpage\<close> links its nodes into the wrong parent; the bump allocator wraps
  around at the end of the address space; \<^verbatim>\<open>OnceCell::get\<close> can return a value nobody stored; the
  read-write lock forgets that a second writer waits; the watch mode congratulates although an
  exercise has been broken again; a panic of the watch mode leaves the terminal in raw mode; the pipe
  programs deadlock on large input; \<^verbatim>\<open>test_alloc_stack\<close> passes
  exactly when the vector of the stack happens to be aligned.

  \<^bold>\<open>Not modelled.\<close> The scripts, workflows and build files; failures of printing and of starting a
  thread; how long anything takes, other than the deadlines of SelectTimeout.
\<close>

section \<open>Heap blocks and the memory primitives\<close>

text \<open>Two live blocks that are not the same are apart.\<close>

lemma sound_apart:
  assumes "sound s e blocks" "x \<in> set blocks" "y \<in> set blocks" "x \<noteq> y"
  shows "apart (block_of x) (block_of y)"
proof -
  from assms(2,3) obtain i j where ij: "i < length blocks" "blocks ! i = x" "j < length blocks" "blocks ! j = y"
    by (auto simp: in_set_conv_nth)
  have *: "apart (block_of (blocks ! i)) (block_of (blocks ! j))" if "i < j" "j < length blocks" for i j
    using assms(1) that by (simp add: sound_def sorted_wrt_iff_nth_less)
  from assms(4) ij have "i < j \<or> j < i" by (metis linorder_neqE_nat)
  then show ?thesis using * ij apart_sym by blast
qed

text \<open>Bytes of a block that is apart from a region are not in it.\<close>

lemma apart_region:
  assumes "apart (block_of x) (block_of y)" "buffer m (fst x) (unat (Layout.size (snd x)))"
    and "buffer m (fst y) (unat (Layout.size (snd y)))" "n \<le> unat (Layout.size (snd y))"
    and "i < unat (Layout.size (snd x))"
  shows "fst x + of_nat i \<notin> region (fst y) n"
proof
  assume "fst x + of_nat i \<in> region (fst y) n"
  then obtain j where j: "j < n" "fst x + of_nat i = fst y + of_nat j" by (auto simp: region_def)
  have "unat (fst x + of_nat i) = unat (fst x) + i" "unat (fst y + of_nat j) = unat (fst y) + j"
    using assms j(1) by (auto simp: buffer_def intro!: unat_ptr_add)
  then show False using assms(1,4,5) j by (auto simp: apart_def block_of_def)
qed

lemma memcpy_apart:
  assumes "apart (unat p, l) (unat q, k)" "unat n \<le> l" "unat n \<le> k"
    and "buffer m p (unat n)" "buffer m q (unat n)"
  shows "\<exists>m'. my_memcpy m q p n = Inr (q, m') \<and> MemPrimitives.writes m q (unat n) (byte m p) m'"
proof -
  have "up_index q p j = j" if "j < unat n" for j
    using assms(1-3) that by (auto simp: up_index_def apart_def word_less_nat_alt)
  then have "MemPrimitives.writes m q (unat n) (byte m p) m'" if "MemPrimitives.writes m q (unat n) (\<lambda>j. byte m p (up_index q p j)) m'" for m'
    using that by (simp add: MemPrimitives.writes_def)
  then show ?thesis using my_memcpy_patch [OF assms(4,5)] writes_patch [OF assms(5)] by blast
qed

text \<open>C19: blocks of the heap hold their data: in every run of the free-list allocator copying
  with \<^verbatim>\<open>my_memcpy\<close> from one live block to another, as a reallocation does, delivers the bytes and
  changes no byte of any other live block.\<close>

theorem heap_blocks_hold_data:
  assumes "fl_run ck s e a blocks" "0 < s" "s \<le> e" "unat e < 2 ^ 63"
    and "\<forall>x \<in> set blocks. buffer m (fst x) (unat (Layout.size (snd x)))"
    and "(p, l) \<in> set blocks" "(q, k) \<in> set blocks" "(p, l) \<noteq> (q, k)"
    and "n \<le> Layout.size l" "n \<le> Layout.size k"
  shows "\<exists>m'. my_memcpy m q p n = Inr (q, m') \<and>
    (\<forall>i < unat n. m' (q + of_nat i) = m (p + of_nat i)) \<and>
    (\<forall>x \<in> set blocks. x \<noteq> (q, k) \<longrightarrow>
      (\<forall>i < unat (Layout.size (snd x)). m' (fst x + of_nat i) = m (fst x + of_nat i)))"
proof -
  have "fl_inv a blocks" "FreeListAllocator.heap_start a = s" "FreeListAllocator.heap_end a = e"
    using fl_run_inv [OF assms(1-4)] by simp_all
  then have sound: "sound s e blocks" using fl.inv_sound [of a blocks] by simp
  have n: "unat n \<le> unat (Layout.size l)" "unat n \<le> unat (Layout.size k)"
    using assms(9,10) by (simp_all add: word_le_nat_alt)
  have buf: "buffer m p (unat n)" "buffer m q (unat n)"
    using assms(5-7) n by (fastforce simp: buffer_def)+
  have "apart (unat p, unat (Layout.size l)) (unat q, unat (Layout.size k))"
    using sound_apart [OF sound assms(6-8)] by (simp add: block_of_def)
  from memcpy_apart [OF this n buf] obtain m' where m': "my_memcpy m q p n = Inr (q, m')"
    "MemPrimitives.writes m q (unat n) (byte m p) m'" by blast
  have "m' (q + of_nat i) = m (p + of_nat i)" if "i < unat n" for i
    using m'(2) buf(1) that by (auto simp: MemPrimitives.writes_def buffer_def)
  moreover have "m' (fst x + of_nat i) = m (fst x + of_nat i)"
    if "x \<in> set blocks" "x \<noteq> (q, k)" "i < unat (Layout.size (snd x))" for x i
    using apart_region [OF sound_apart [OF sound that(1) assms(7) that(2)], of m "unat n" i]
      assms(5,7) n that m'(2) by (auto simp: MemPrimitives.writes_def)
  ultimately show ?thesis using m'(1) by blast
qed

theorem heap_blocks_hold_data_witness:
  "\<exists>a l m'. fl_run True 0x1000 0x2000 a [(0x1010, l), (0x1000, l)] \<and>
    my_memcpy (\<lambda>x. Some (if x = 0x1000 then 1 else 0)) 0x1010 0x1000 3 = Inr (0x1010, m') \<and>
    m' 0x1010 = Some 1"
proof -
  let ?l = "\<lparr>size = 16, align = 1\<rparr>" and ?a0 = "FreeListAllocator.new 0x1000 0x2000 (\<lambda>_. 0)"
  let ?a1 = "?a0\<lparr>bump_next := 0x1010\<rparr>" and ?a2 = "?a0\<lparr>bump_next := 0x1020\<rparr>"
  let ?m = "\<lambda>x :: usize. Some (if x = 0x1000 then 1 else 0 :: u8)"
  note alloc_simps = FreeListAllocator.alloc_def FreeListAllocator.new_def free_list_head_def find_fit.simps bump_alloc_def align_up_def
        add_ck_def sub_ck_def checked_add_def block_size_def block_align_def max_def
  have l: "layout_ok ?l" by (auto simp: layout_ok_def pow2_def intro: exI [of _ 0])
  have a1: "FreeListAllocator.alloc True ?a0 ?l = Inr (0x1000, ?a1)" by (simp add: alloc_simps)
  have a2: "FreeListAllocator.alloc True ?a1 ?l = Inr (0x1010, ?a2)" by (simp add: alloc_simps)
  have r1: "fl_run True 0x1000 0x2000 ?a1 [(0x1000, ?l)]"
    using fl_run.alloc [OF fl_run.start l a1] by simp
  have r2: "fl_run True 0x1000 0x2000 ?a2 [(0x1010, ?l), (0x1000, ?l)]"
    using fl_run.alloc [OF r1 l a2] by simp
  obtain m' where "my_memcpy ?m 0x1010 0x1000 3 = Inr (0x1010, m')"
    "\<forall>i < unat (3 :: usize). m' (0x1010 + of_nat i) = ?m (0x1000 + of_nat i)"
    using heap_blocks_hold_data [OF r2, of ?m "0x1000" ?l "0x1010" ?l 3] by (auto simp: buffer_def)
  moreover from this(2) have "m' 0x1010 = Some 1" by (auto dest: spec [of _ 0])
  ultimately show ?thesis using r2 by blast
qed

end
